(* ===== verification/Rdb_Prelude.thy ===== *)
theory Rdb_Prelude
  imports
    Main
    "HOL-Library.Word"
    "HOL-Library.Monad_Syntax"
begin

text \<open>
  Shared vocabulary of the development: the machine types of the C++ code, the failure
  convention, and the parts of the C++ standard library the modelled sources use
  (\<open>std::map\<close> as a strictly ordered association list, \<open>std::unique\<close>,
  \<open>std::lower_bound\<close>), each with the lemmas the component theories share.

  Failure convention. The sources use two kinds of assertion. \<open>guarantee\<close> is active in every
  build and aborts the process: an operation with a \<open>guarantee\<close> that can fail returns an
  \<open>option\<close>, and \<open>None\<close> is the abort. \<open>rassert\<close> is compiled out of release builds: it is
  not a branch of the model, except where the code behind it would dereference the end of a
  container, which is undefined behaviour and again \<open>None\<close> here. Theorems state under which
  conditions \<open>None\<close> cannot happen.
\<close>

section \<open>Machine types\<close>

type_synonym u8 = "8 word"
type_synonym u32 = "32 word"
type_synonym u64 = "64 word"
type_synonym uuid_u = "128 word"

text \<open>
  A \<open>uuid_u\<close> is sixteen bytes compared by \<open>memcmp\<close>, that is, in big-endian order: the
  unsigned order of \<^typ>\<open>128 word\<close>. The nil identifier is the one with all bytes zero.
\<close>

definition nil_uuid :: uuid_u where
  "nil_uuid = 0"

definition is_nil :: "uuid_u \<Rightarrow> bool" where
  "is_nil u \<longleftrightarrow> u = nil_uuid"

named_theorems rdb_defs \<open>definitions a component unfolds in its own proofs\<close>
named_theorems rdb_wf \<open>preservation of the well-formedness invariants\<close>

section \<open>Loops that may abort\<close>

fun fold_opt :: "('a \<Rightarrow> 's \<Rightarrow> 's option) \<Rightarrow> 'a list \<Rightarrow> 's \<Rightarrow> 's option" where
  "fold_opt f [] s = Some s"
| "fold_opt f (x # xs) s = Option.bind (f x s) (fold_opt f xs)"

lemma fold_opt_append:
  "fold_opt f (xs @ ys) s = Option.bind (fold_opt f xs s) (fold_opt f ys)"
  by (induction xs arbitrary: s) (auto split: bind_splits)

lemma fold_opt_map: "fold_opt f (map g xs) s = fold_opt (\<lambda>x. f (g x)) xs s"
  by (induction xs arbitrary: s) (auto split: bind_splits)

lemma fold_opt_cong: "(\<And>x s. x \<in> set xs \<Longrightarrow> f x s = g x s) \<Longrightarrow> fold_opt f xs s = fold_opt g xs s"
  by (induction xs arbitrary: s) (auto split: bind_splits)

lemma fold_opt_step:
  assumes "fold_opt f xs s = Some t" and "x \<in> set xs"
  shows "\<exists>s1 s2. f x s1 = Some s2"
  using assms by (induction xs arbitrary: s) (auto split: bind_splits)

lemma fold_opt_invariant:
  assumes "fold_opt f xs s = Some t" and "P s"
    and "\<And>x s s'. x \<in> set xs \<Longrightarrow> P s \<Longrightarrow> f x s = Some s' \<Longrightarrow> P s'"
  shows "P t"
  using assms
proof (induction xs arbitrary: s)
  case Nil
  then show ?case by simp
next
  case (Cons x xs)
  from Cons.prems(1) obtain s1 where "f x s = Some s1" and "fold_opt f xs s1 = Some t"
    by (auto split: bind_splits)
  with Cons show ?case by (metis list.set_intros)
qed

text \<open>A loop whose body never aborts from a state satisfying its invariant never aborts.\<close>

lemma fold_opt_total:
  assumes "P s"
    and "\<And>x s. x \<in> set xs \<Longrightarrow> P s \<Longrightarrow> \<exists>s'. f x s = Some s' \<and> P s'"
  shows "\<exists>t. fold_opt f xs s = Some t \<and> P t"
  using assms
proof (induction xs arbitrary: s)
  case Nil
  then show ?case by simp
next
  case (Cons x xs)
  from Cons.prems obtain s1 where "f x s = Some s1" and "P s1"
    by (metis list.set_intros(1))
  moreover from this Cons obtain t where "fold_opt f xs s1 = Some t \<and> P t"
    by (metis list.set_intros(2))
  ultimately show ?case by auto
qed

section \<open>\<open>std::map\<close>: strictly ordered association lists\<close>

text \<open>
  A \<open>std::map\<close> iterates its entries in increasing key order and has one entry per key. An
  iterator is modelled by the suffix of entries it can still visit; the end iterator is the
  empty suffix.
\<close>

type_synonym ('k, 'v) omap = "('k \<times> 'v) list"

definition omap_ok :: "('k::linorder, 'v) omap \<Rightarrow> bool" where
  "omap_ok m \<longleftrightarrow> sorted_wrt (<) (map fst m)"

definition omap_lower_bound :: "'k::linorder \<Rightarrow> ('k, 'v) omap \<Rightarrow> ('k, 'v) omap" where
  "omap_lower_bound k m = dropWhile (\<lambda>(e, v). e < k) m"

definition omap_upper_bound :: "'k::linorder \<Rightarrow> ('k, 'v) omap \<Rightarrow> ('k, 'v) omap" where
  "omap_upper_bound k m = dropWhile (\<lambda>(e, v). e \<le> k) m"

text \<open>\<open>insert\<close> keeps an existing entry, as \<open>std::map::insert\<close> does.\<close>

fun omap_insert :: "'k::linorder \<Rightarrow> 'v \<Rightarrow> ('k, 'v) omap \<Rightarrow> ('k, 'v) omap" where
  "omap_insert k v [] = [(k, v)]"
| "omap_insert k v ((e, w) # m) =
     (if k < e then (k, v) # (e, w) # m
      else if k = e then (e, w) # m
      else (e, w) # omap_insert k v m)"

definition omap_insert_all :: "('k::linorder, 'v) omap \<Rightarrow> ('k, 'v) omap \<Rightarrow> ('k, 'v) omap" where
  "omap_insert_all other m = fold (\<lambda>(k, v). omap_insert k v) other m"

definition omap_erase :: "'k::linorder \<Rightarrow> ('k, 'v) omap \<Rightarrow> ('k, 'v) omap" where
  "omap_erase k m = filter (\<lambda>(e, v). e \<noteq> k) m"

lemma omap_ok_simps [simp]:
  "omap_ok []"
  "omap_ok [(k, v)]"
  by (simp_all add: omap_ok_def)

lemma omap_ok_Cons:
  "omap_ok ((k, v) # m) \<longleftrightarrow> (\<forall>e \<in> fst ` set m. k < e) \<and> omap_ok m"
  by (auto simp: omap_ok_def)

lemma omap_ok_append:
  "omap_ok (m @ n) \<longleftrightarrow> omap_ok m \<and> omap_ok n \<and> (\<forall>a \<in> fst ` set m. \<forall>b \<in> fst ` set n. a < b)"
  by (auto simp: omap_ok_def sorted_wrt_append)

lemma omap_ok_distinct: "omap_ok m \<Longrightarrow> distinct (map fst m)"
  by (simp add: omap_ok_def strict_sorted_iff)

lemma omap_insert_keys: "fst ` set (omap_insert k v m) = insert k (fst ` set m)"
  by (induction k v m rule: omap_insert.induct) auto

lemma omap_insert_ok: "omap_ok m \<Longrightarrow> omap_ok (omap_insert k v m)"
proof (induction k v m rule: omap_insert.induct)
  case (1 k v)
  then show ?case by simp
next
  case (2 k v e w m)
  then show ?case
    by (auto simp: omap_ok_Cons omap_insert_keys dest: order.strict_trans)
qed

lemma map_of_omap_insert:
  "omap_ok m \<Longrightarrow>
    map_of (omap_insert k v m) = (case map_of m k of None \<Rightarrow> (map_of m)(k \<mapsto> v) | Some _ \<Rightarrow> map_of m)"
proof (induction k v m rule: omap_insert.induct)
  case (1 k v)
  then show ?case by simp
next
  case (2 k v e w m)
  have *: "map_of m k = None" if "k < e" "omap_ok ((e, w) # m)"
    using that by (force simp: omap_ok_Cons map_of_eq_None_iff)
  from 2 show ?case
    by (auto simp: omap_ok_Cons fun_eq_iff * split: option.splits)
qed

lemma omap_erase_ok: "omap_ok m \<Longrightarrow> omap_ok (omap_erase k m)"
  by (auto simp: omap_ok_def omap_erase_def sorted_wrt_map intro: sorted_wrt_filter)

lemma map_of_omap_erase: "map_of (omap_erase k m) = (map_of m)(k := None)"
  by (induction m) (auto simp: omap_erase_def fun_eq_iff)

lemma omap_insert_snoc:
  "(\<And>e. e \<in> fst ` set m \<Longrightarrow> e < k) \<Longrightarrow> omap_insert k v m = m @ [(k, v)]"
proof (induction m)
  case Nil
  then show ?case by simp
next
  case (Cons p m)
  obtain e w where p: "p = (e, w)" by (cases p)
  have "e < k" using Cons.prems p by auto
  moreover have "omap_insert k v m = m @ [(k, v)]"
    by (rule Cons.IH) (use Cons.prems in auto)
  ultimately show ?case using p by auto
qed

lemma omap_insert_middle:
  assumes "\<And>e. e \<in> fst ` set m \<Longrightarrow> e < k" and "\<And>e. e \<in> fst ` set n \<Longrightarrow> k < e"
  shows "omap_insert k v (m @ n) = m @ (k, v) # n"
  using assms(1)
proof (induction m)
  case Nil
  show ?case using assms(2) by (cases n) auto
next
  case (Cons p m)
  obtain e w where p: "p = (e, w)" by (cases p)
  have "e < k" using Cons.prems p by auto
  moreover have "omap_insert k v (m @ n) = m @ (k, v) # n"
    by (rule Cons.IH) (use Cons.prems in auto)
  ultimately show ?case using p by auto
qed

text \<open>Inserting a block of entries that lies between two others is concatenation.\<close>

lemma omap_insert_all_middle:
  assumes "omap_ok other"
    and "\<And>e k. e \<in> fst ` set m \<Longrightarrow> k \<in> fst ` set other \<Longrightarrow> e < k"
    and "\<And>e k. e \<in> fst ` set n \<Longrightarrow> k \<in> fst ` set other \<Longrightarrow> k < e"
  shows "omap_insert_all other (m @ n) = m @ other @ n"
  using assms
proof (induction other arbitrary: m)
  case Nil
  then show ?case by (simp add: omap_insert_all_def)
next
  case (Cons p other)
  obtain k v where p: "p = (k, v)" by (cases p)
  have ins: "omap_insert k v (m @ n) = m @ (k, v) # n"
    by (rule omap_insert_middle) (use Cons.prems p in auto)
  have "omap_insert_all other ((m @ [(k, v)]) @ n) = (m @ [(k, v)]) @ other @ n"
    by (rule Cons.IH) (use Cons.prems p in \<open>auto simp: omap_ok_Cons\<close>)
  then show ?case using ins p by (simp add: omap_insert_all_def)
qed

text \<open>Assignment through \<open>operator[]\<close>, and erasing every key of a set.\<close>

definition omap_assign :: "'k::linorder \<Rightarrow> 'v \<Rightarrow> ('k, 'v) omap \<Rightarrow> ('k, 'v) omap" where
  "omap_assign k v m = omap_insert k v (omap_erase k m)"

definition omap_erase_all :: "'k::linorder set \<Rightarrow> ('k, 'v) omap \<Rightarrow> ('k, 'v) omap" where
  "omap_erase_all ks m = fold omap_erase (sorted_list_of_set ks) m"

lemma omap_keys_iff: "map_of m k \<noteq> None \<longleftrightarrow> k \<in> fst ` set m"
  by (auto simp: map_of_eq_None_iff)

lemma omap_erase_all_eq: "finite ks \<Longrightarrow> omap_erase_all ks m = filter (\<lambda>(k, v). k \<notin> ks) m"
proof -
  have "fold omap_erase xs m = filter (\<lambda>(k, v). k \<notin> set xs) m" for xs
  proof (induction xs arbitrary: m)
    case (Cons x xs)
    then show ?case by (auto simp: omap_erase_def intro!: filter_cong)
  qed simp
  then show "finite ks \<Longrightarrow> omap_erase_all ks m = filter (\<lambda>(k, v). k \<notin> ks) m" by (simp add: omap_erase_all_def)
qed

lemma omap_erase_all_ok: "finite ks \<Longrightarrow> omap_ok m \<Longrightarrow> omap_ok (omap_erase_all ks m)"
  by (simp add: omap_erase_all_eq omap_ok_def sorted_wrt_map sorted_wrt_filter)

lemma omap_erase_all_keys: "finite ks \<Longrightarrow> fst ` set (omap_erase_all ks m) = fst ` set m - ks"
  by (auto simp: omap_erase_all_eq)

lemma set_omap_insert_fresh: "k \<notin> fst ` set m \<Longrightarrow> set (omap_insert k v m) = insert (k, v) (set m)"
  by (induction k v m rule: omap_insert.induct) auto

lemma set_omap_insert_subset: "set (omap_insert k v m) \<subseteq> insert (k, v) (set m)"
  by (induction k v m rule: omap_insert.induct) auto

lemma omap_insert_all_ok: "omap_ok m \<Longrightarrow> omap_ok (omap_insert_all other m)"
  unfolding omap_insert_all_def by (induction other arbitrary: m) (auto intro: omap_insert_ok)

lemma omap_insert_all_keys: "fst ` set (omap_insert_all other m) = fst ` set m \<union> fst ` set other"
  unfolding omap_insert_all_def by (induction other arbitrary: m) (simp_all add: omap_insert_keys case_prod_beta)

lemma set_omap_insert_all_subset: "set (omap_insert_all other m) \<subseteq> set m \<union> set other"
proof (induction other arbitrary: m)
  case (Cons p other)
  obtain k v where p: "p = (k, v)" by (cases p)
  have "set (omap_insert_all (p # other) m) \<subseteq> set (omap_insert k v m) \<union> set other"
    using Cons [of "omap_insert k v m"] by (simp add: omap_insert_all_def p)
  then show ?case using set_omap_insert_subset [of k v m] p by auto
qed (simp add: omap_insert_all_def)

lemma set_omap_insert_all_fresh:
  assumes "fst ` set other \<inter> fst ` set m = {}" and "distinct (map fst other)"
  shows "set (omap_insert_all other m) = set m \<union> set other"
  using assms
proof (induction other arbitrary: m)
  case (Cons p other)
  obtain k v where p: "p = (k, v)" by (cases p)
  have k: "k \<notin> fst ` set m" using Cons.prems(1) p by auto
  have "set (omap_insert_all other (omap_insert k v m)) = set (omap_insert k v m) \<union> set other"
    by (rule Cons.IH) (use Cons.prems p in \<open>auto simp: omap_insert_keys\<close>)
  then show ?case using p by (auto simp: omap_insert_all_def set_omap_insert_fresh [OF k])
qed (simp add: omap_insert_all_def)

lemma omap_assign_ok: "omap_ok m \<Longrightarrow> omap_ok (omap_assign k v m)"
  by (simp add: omap_assign_def omap_insert_ok omap_erase_ok)

lemma omap_assign_keys: "fst ` set (omap_assign k v m) = insert k (fst ` set m)"
  by (auto simp: omap_assign_def omap_insert_keys omap_erase_def)

lemma map_of_omap_assign: "map_of (omap_assign k v m) = (map_of m)(k \<mapsto> v)"
proof -
  have *: "map_of (omap_insert k v n) = (map_of n)(k \<mapsto> v)" if "k \<notin> fst ` set n" for n
    using that by (induction k v n rule: omap_insert.induct) (auto simp: fun_eq_iff)
  have "k \<notin> fst ` set (omap_erase k m)" by (auto simp: omap_erase_def)
  then show ?thesis by (simp add: omap_assign_def * map_of_omap_erase)
qed

lemma map_of_omap_ok: "omap_ok m \<Longrightarrow> (k, v) \<in> set m \<Longrightarrow> map_of m k = Some v"
  by (simp add: omap_ok_distinct)

section \<open>\<open>std::unique\<close> and \<open>std::lower_bound\<close> on vectors\<close>

text \<open>
  \<open>std::unique\<close> keeps the first element of every run of equivalent neighbours.
\<close>

fun unique_by :: "('a \<Rightarrow> 'a \<Rightarrow> bool) \<Rightarrow> 'a list \<Rightarrow> 'a list" where
  "unique_by eq [] = []"
| "unique_by eq [x] = [x]"
| "unique_by eq (x # y # xs) =
     (if eq x y then unique_by eq (x # xs) else x # unique_by eq (y # xs))"

text \<open>
  \<open>std::lower_bound\<close> on a partitioned range returns the position of the first element that is
  not less than the probe.
\<close>

definition lower_bound_by :: "('a \<Rightarrow> 'a \<Rightarrow> bool) \<Rightarrow> 'a list \<Rightarrow> 'a \<Rightarrow> nat" where
  "lower_bound_by lt xs x = length (takeWhile (\<lambda>y. lt y x) xs)"

end
