(* ===== verification/Archive.thy ===== *)
theory Archive
  imports Rdb_Prelude
begin

text \<open>
  The wire layer, \<open>containers/archive/archive.{hpp,cc}\<close> and \<open>containers/archive/varint.{hpp,cc}\<close>:
  the chunked output buffer \<open>write_message_t\<close>, the reading loop \<open>force_read\<close> over an abstract
  input stream, the raw little-endian encodings of the integer types, and the base-128 varint
  encoding. The locale \<open>wire_codec\<close> states what a pair of a serializer and a deserializer
  promises to its users; the component theories interpret it for their own formats.
\<close>

unbundle bit_operations_syntax

section \<open>Output buffers\<close>

text \<open>
  A \<open>write_message_t\<close> is a list of buffers of at most \<open>DATA_SIZE\<close> bytes; \<open>append\<close> fills the
  tail buffer and opens a new one when it is full. The list holds the buffers in order.
\<close>

definition DATA_SIZE :: nat where
  "DATA_SIZE = 4096"

type_synonym write_message = "u8 list list"

function wm_append :: "write_message \<Rightarrow> u8 list \<Rightarrow> write_message" where
  "wm_append bufs p =
     (if p = [] then bufs
      else
        (let bufs' = (if bufs = [] \<or> length (last bufs) = DATA_SIZE then bufs @ [[]] else bufs);
             b = last bufs';
             k = min (length p) (DATA_SIZE - length b)
         in if k = 0 then bufs'
            else wm_append (butlast bufs' @ [b @ take k p]) (drop k p)))"
  by pat_completeness auto
termination
  by (relation "measure (\<lambda>(bufs, p). length p)") (auto simp: Let_def)

declare wm_append.simps [simp del]

definition wm_size :: "write_message \<Rightarrow> nat" where
  "wm_size bufs = fold (\<lambda>h ret. ret + length h) bufs 0"

definition wm_ok :: "write_message \<Rightarrow> bool" where
  "wm_ok bufs \<longleftrightarrow> (\<forall>b \<in> set bufs. length b \<le> DATA_SIZE) \<and>
                  (\<forall>b \<in> set (butlast bufs). length b = DATA_SIZE)"

section \<open>Input streams\<close>

text \<open>
  \<open>read_stream_t::read(p, n)\<close> is a virtual function that delivers at least one and at most \<open>n\<close>
  bytes, 0 at the end of the data and -1 on a failed connection. A stream is modelled by the
  bytes still to come, an arbitrary schedule of the chunk sizes in which they arrive (an
  exhausted schedule delivers all that was asked for) and whether the data ends with an error.
\<close>

record read_stream =
  rs_data :: "u8 list"
  rs_chunks :: "nat list"
  rs_broken :: bool

definition stream_of :: "u8 list \<Rightarrow> read_stream" where
  "stream_of bs = \<lparr>rs_data = bs, rs_chunks = [], rs_broken = False\<rparr>"

text \<open>\<open>None\<close> is the return value -1.\<close>

definition rs_read :: "read_stream \<Rightarrow> nat \<Rightarrow> u8 list option \<times> read_stream" where
  "rs_read s n =
     (if rs_data s = [] then (if rs_broken s then None else Some [], s)
      else
        (let k = (case rs_chunks s of [] \<Rightarrow> n | c # _ \<Rightarrow> min n (Suc c))
         in (Some (take k (rs_data s)),
             s\<lparr>rs_data := drop k (rs_data s), rs_chunks := tl (rs_chunks s)\<rparr>)))"

function force_read :: "read_stream \<Rightarrow> nat \<Rightarrow> u8 list option \<times> read_stream" where
  "force_read s n =
     (if n = 0 then (Some [], s)
      else
        (case rs_read s n of
           (None, s') \<Rightarrow> (None, s')
         | (Some bs, s') \<Rightarrow>
             (if bs = [] then (Some [], s')
              else
                (case force_read s' (n - length bs) of
                   (None, s'') \<Rightarrow> (None, s'')
                 | (Some rest, s'') \<Rightarrow> (Some (bs @ rest), s'')))))"
  by pat_completeness auto
termination
  by (relation "measure (\<lambda>(s, n). n)") auto

declare force_read.simps [simp del]

section \<open>Raw integers\<close>

datatype archive_error = SOCK_ERROR | SOCK_EOF | RANGE_ERROR

text \<open>\<open>Inr\<close> is \<open>archive_result_t::SUCCESS\<close> together with the value stored through the pointer.\<close>

type_synonym 'a deserializer = "read_stream \<Rightarrow> (archive_error + 'a) \<times> read_stream"

text \<open>
  Reading exactly \<open>n\<close> bytes: the shape every primitive deserializer has, with -1 reported as a
  socket error and a short count as the end of the stream.
\<close>

definition read_exactly :: "nat \<Rightarrow> u8 list deserializer" where
  "read_exactly n s =
     (case force_read s n of
        (None, s') \<Rightarrow> (Inl SOCK_ERROR, s')
      | (Some bs, s') \<Rightarrow> (if length bs < n then (Inl SOCK_EOF, s') else (Inr bs, s')))"

text \<open>The host is little-endian: the union of the macro lays the low byte out first.\<close>

fun le_bytes :: "nat \<Rightarrow> nat \<Rightarrow> u8 list" where
  "le_bytes 0 n = []"
| "le_bytes (Suc k) n = word_of_nat (n mod 256) # le_bytes k (n div 256)"

fun le_value :: "u8 list \<Rightarrow> nat" where
  "le_value [] = 0"
| "le_value (b # bs) = unat b + 256 * le_value bs"

definition serialize_u8 :: "u8 \<Rightarrow> u8 list" where
  "serialize_u8 x = le_bytes 1 (unat x)"

definition deserialize_u8 :: "u8 deserializer" where
  "deserialize_u8 s =
     (case read_exactly 1 s of
        (Inl e, s') \<Rightarrow> (Inl e, s')
      | (Inr bs, s') \<Rightarrow> (Inr (word_of_nat (le_value bs)), s'))"

definition serialize_u64 :: "u64 \<Rightarrow> u8 list" where
  "serialize_u64 x = le_bytes 8 (unat x)"

definition deserialize_u64 :: "u64 deserializer" where
  "deserialize_u64 s =
     (case read_exactly 8 s of
        (Inl e, s') \<Rightarrow> (Inl e, s')
      | (Inr bs, s') \<Rightarrow> (Inr (word_of_nat (le_value bs)), s'))"

text \<open>
  Booleans travel as one \<open>int8_t\<close> with a range check on \<open>[0, 1]\<close>.
\<close>

definition serialize_bool :: "bool \<Rightarrow> u8 list" where
  "serialize_bool b = [if b then 1 else 0]"

definition deserialize_bool :: "bool deserializer" where
  "deserialize_bool s =
     (case read_exactly 1 s of
        (Inl e, s') \<Rightarrow> (Inl e, s')
      | (Inr bs, s') \<Rightarrow>
          (let v = sint (hd bs)
           in if v < 0 \<or> v > 1 then (Inl RANGE_ERROR, s') else (Inr (v \<noteq> 0), s')))"

section \<open>Varints\<close>

function varint_uint64_size_loop :: "u64 \<Rightarrow> nat \<Rightarrow> nat" where
  "varint_uint64_size_loop value count =
     (if value > 0 then varint_uint64_size_loop (value div 128) (Suc count) else count)"
  by pat_completeness auto
termination
proof (relation "measure (\<lambda>(value, count). unat value)", goal_cases)
  case 1
  show ?case by simp
next
  case (2 v c)
  then show ?case by (simp add: unat_div word_greater_zero_iff unat_gt_0)
qed

declare varint_uint64_size_loop.simps [simp del]

definition varint_uint64_serialized_size :: "u64 \<Rightarrow> nat" where
  "varint_uint64_serialized_size value = varint_uint64_size_loop (value div 128) 1"

function varint_loop :: "u64 \<Rightarrow> u8 list" where
  "varint_loop n =
     (if n \<ge> 128 then ucast ((n AND 127) OR 128) # varint_loop (drop_bit 7 n) else [ucast n])"
  by pat_completeness auto
termination
proof (relation "measure unat", goal_cases)
  case 1
  show ?case by simp
next
  case (2 n)
  then show ?case
    by (simp add: word_le_nat_alt drop_bit_eq_div unat_div)
qed

declare varint_loop.simps [simp del]

definition serialize_varint_uint64 :: "u64 \<Rightarrow> u8 list" where
  "serialize_varint_uint64 value = (if value = 0 then [0] else varint_loop value)"

text \<open>
  The reading loop. The stream is read one byte at a time; the offset grows by 7 and the loop
  gives up once it has passed 63, so it terminates on every stream.
\<close>

function varint_read_loop :: "u64 \<Rightarrow> nat \<Rightarrow> u64 deserializer" where
  "varint_read_loop value off s =
     (case rs_read s 1 of
        (None, s') \<Rightarrow> (Inl SOCK_ERROR, s')
      | (Some [], s') \<Rightarrow> (Inl SOCK_EOF, s')
      | (Some (b # _), s') \<Rightarrow>
          (let x = ucast (b AND 127) :: u64;
               value' = value OR push_bit off x
           in if b AND 128 = 0 then
                (if off = 63 \<and> x > 1 then (Inl RANGE_ERROR, s') else (Inr value', s'))
              else if off \<ge> 63 then (Inl RANGE_ERROR, s')
              else varint_read_loop value' (off + 7) s'))"
  by pat_completeness auto
termination
  by (relation "measure (\<lambda>(value, off, s). 70 - off)") auto

declare varint_read_loop.simps [simp del]

definition deserialize_varint_uint64 :: "u64 deserializer" where
  "deserialize_varint_uint64 = varint_read_loop 0 0"


section \<open>Properties of the output buffer\<close>

lemma wm_append_Nil [simp]: "wm_append bufs [] = bufs"
  by (simp add: wm_append.simps)

text \<open>One turn of the loop: the tail buffer that receives the next bytes, with room left.\<close>

definition wm_open :: "write_message \<Rightarrow> write_message" where
  "wm_open bufs = (if bufs = [] \<or> length (last bufs) = DATA_SIZE then bufs @ [[]] else bufs)"

lemma wm_open_ok:
  assumes "wm_ok bufs"
  shows "wm_open bufs \<noteq> []" and "wm_ok (wm_open bufs)"
    and "length (last (wm_open bufs)) < DATA_SIZE" and "concat (wm_open bufs) = concat bufs"
proof -
  have *: "length (last bufs) \<le> DATA_SIZE" if "bufs \<noteq> []"
    using assms that by (auto simp: wm_ok_def)
  show "wm_open bufs \<noteq> []" and "concat (wm_open bufs) = concat bufs"
    by (auto simp: wm_open_def)
  show "length (last (wm_open bufs)) < DATA_SIZE"
    using * by (auto simp: wm_open_def DATA_SIZE_def)
  show "wm_ok (wm_open bufs)"
  proof (cases "bufs = [] \<or> length (last bufs) = DATA_SIZE")
    case True
    have "length b = DATA_SIZE" if "b \<in> set bufs" for b
    proof -
      from that have "bufs \<noteq> []" by auto
      with that have "b \<in> set (butlast bufs) \<or> b = last bufs"
        by (metis append_butlast_last_id in_set_butlast_appendI rotate1.simps(2) set_ConsD set_rotate1)
      with True \<open>bufs \<noteq> []\<close> assms show ?thesis by (auto simp: wm_ok_def)
    qed
    with True show ?thesis by (simp add: wm_open_def wm_ok_def)
  next
    case False
    with assms show ?thesis by (simp add: wm_open_def)
  qed
qed

lemma wm_append_step:
  assumes "wm_ok bufs" and "p \<noteq> []"
  defines "bufs' \<equiv> wm_open bufs"
  defines "k \<equiv> min (length p) (DATA_SIZE - length (last bufs'))"
  defines "next_bufs \<equiv> butlast bufs' @ [last bufs' @ take k p]"
  shows "wm_append bufs p = wm_append next_bufs (drop k p)"
    and "wm_ok next_bufs" and "concat next_bufs = concat bufs @ take k p" and "0 < k"
proof -
  note o = wm_open_ok [OF assms(1), folded bufs'_def]
  show "0 < k" using o(3) assms(2) by (simp add: k_def)
  then show "wm_append bufs p = wm_append next_bufs (drop k p)"
    using assms(2)
    by (simp add: wm_append.simps [of bufs p] Let_def wm_open_def [symmetric]
        bufs'_def [symmetric] k_def [symmetric] next_bufs_def [symmetric])
  have "length (last bufs' @ take k p) \<le> DATA_SIZE"
    using o(3) by (simp add: k_def)
  with o(2) show "wm_ok next_bufs"
    by (auto simp: wm_ok_def next_bufs_def dest: in_set_butlastD)
  have "concat next_bufs = concat (butlast bufs' @ [last bufs']) @ take k p"
    by (simp add: next_bufs_def)
  also have "\<dots> = concat bufs @ take k p"
    using o(1,4) by simp
  finally show "concat next_bufs = concat bufs @ take k p" .
qed

lemma wm_append_spec:
  assumes "wm_ok bufs"
  shows "wm_ok (wm_append bufs p) \<and> concat (wm_append bufs p) = concat bufs @ p"
  using assms
proof (induction p arbitrary: bufs rule: length_induct)
  case (1 p)
  show ?case
  proof (cases "p = []")
    case True
    with 1 show ?thesis by simp
  next
    case False
    note st = wm_append_step [OF \<open>wm_ok bufs\<close> False]
    define k where
      "k = min (length p) (DATA_SIZE - length (last (wm_open bufs)))"
    have "length (drop k p) < length p"
      using st(4) False by (simp add: k_def)
    with 1(1) st(2) [folded k_def] have
      "wm_ok (wm_append bufs p) \<and>
       concat (wm_append bufs p) = concat bufs @ take k p @ drop k p"
      using st(1,3) [folded k_def] by (metis append.assoc)
    then show ?thesis by simp
  qed
qed

lemma wm_size_concat: "wm_size bufs = length (concat bufs)"
proof -
  have "fold (\<lambda>h ret. ret + length h) bufs n = n + length (concat bufs)" for n
    by (induction bufs arbitrary: n) auto
  then show ?thesis by (simp add: wm_size_def)
qed

section \<open>Properties of the reading loop\<close>

lemma rs_read_cases:
  assumes "0 < n"
  obtains (eof) "rs_data s = []" "\<not> rs_broken s" "rs_read s n = (Some [], s)"
  | (error) "rs_data s = []" "rs_broken s" "rs_read s n = (None, s)"
  | (some) k s' where "0 < k" "k \<le> n" "k \<le> length (rs_data s)"
      "rs_read s n = (Some (take k (rs_data s)), s')"
      "rs_data s' = drop k (rs_data s)" "rs_broken s' = rs_broken s"
proof (cases "rs_data s = []")
  case True
  then show thesis using eof error by (cases "rs_broken s") (auto simp: rs_read_def)
next
  case False
  define k where "k = (case rs_chunks s of [] \<Rightarrow> n | c # _ \<Rightarrow> min n (Suc c))"
  define j where "j = min k (length (rs_data s))"
  have "0 < j" "j \<le> n" "j \<le> length (rs_data s)"
    using assms False by (auto simp: j_def k_def split: list.splits)
  moreover have "rs_read s n = (Some (take j (rs_data s)),
      s\<lparr>rs_data := drop j (rs_data s), rs_chunks := tl (rs_chunks s)\<rparr>)"
    using False by (simp add: rs_read_def Let_def k_def [symmetric] j_def min_def)
  ultimately show thesis by (rule some) simp_all
qed

lemma force_read_0 [simp]: "force_read s 0 = (Some [], s)"
  by (simp add: force_read.simps)

lemma force_read_ok:
  assumes "n \<le> length (rs_data s) \<or> \<not> rs_broken s"
  shows "\<exists>s'. force_read s n = (Some (take n (rs_data s)), s') \<and>
              rs_data s' = drop n (rs_data s) \<and> rs_broken s' = rs_broken s"
  using assms
proof (induction n arbitrary: s rule: less_induct)
  case (less n)
  show ?case
  proof (cases "n = 0")
    case True
    then show ?thesis by simp
  next
    case False
    then have "0 < n" by simp
    then show ?thesis
    proof (cases rule: rs_read_cases [of n s])
      case eof
      with False show ?thesis by (simp add: force_read.simps [of s n])
    next
      case error
      with less.prems False show ?thesis by simp
    next
      case (some k s')
      have "n - k < n" using some by simp
      moreover have "n - k \<le> length (rs_data s') \<or> \<not> rs_broken s'"
        using less.prems some by auto
      ultimately obtain t where t: "force_read s' (n - k) = (Some (take (n - k) (rs_data s')), t)"
        "rs_data t = drop (n - k) (rs_data s')" "rs_broken t = rs_broken s'"
        using less.IH by blast
      have "take n (rs_data s) = take k (rs_data s) @ take (n - k) (drop k (rs_data s))"
        using some(2) by (metis le_add_diff_inverse take_add)
      with False some t show ?thesis
        by (auto simp: force_read.simps [of s n] min_def)
    qed
  qed
qed

lemma force_read_error:
  assumes "length (rs_data s) < n" and "rs_broken s"
  shows "\<exists>s'. force_read s n = (None, s')"
  using assms
proof (induction n arbitrary: s rule: less_induct)
  case (less n)
  then have "0 < n" by simp
  then show ?case
  proof (cases rule: rs_read_cases [of n s])
    case eof
    with less.prems show ?thesis by simp
  next
    case error
    with \<open>0 < n\<close> show ?thesis by (simp add: force_read.simps [of s n])
  next
    case (some k s')
    then have "\<exists>t. force_read s' (n - k) = (None, t)"
      using less by simp
    with some \<open>0 < n\<close> show ?thesis
      by (auto simp: force_read.simps [of s n] min_def)
  qed
qed

lemma read_exactly_ok:
  assumes "rs_data s = bs @ rest"
  shows "\<exists>s'. read_exactly (length bs) s = (Inr bs, s') \<and> rs_data s' = rest \<and>
              rs_broken s' = rs_broken s"
  using force_read_ok [of "length bs" s] assms by (auto simp: read_exactly_def)

lemma read_exactly_short:
  assumes "length (rs_data s) < n"
  shows "\<exists>s'. read_exactly n s = (Inl (if rs_broken s then SOCK_ERROR else SOCK_EOF), s')"
  using assms force_read_ok [of n s] force_read_error [of s n]
  by (cases "rs_broken s") (auto simp: read_exactly_def)


section \<open>The contract of a wire format\<close>

text \<open>
  What users of a format rely on: what was serialized is read back whatever follows it on the
  stream and in whatever chunks it arrives, and a stream that ends in the middle is reported as
  such. The value predicate names the values the format is meant for.
\<close>

locale wire_codec =
  fixes ser :: "'a \<Rightarrow> u8 list"
    and deser :: "'a deserializer"
    and valid :: "'a \<Rightarrow> bool"
  assumes deser_ser:
    "valid x \<Longrightarrow> rs_data s = ser x @ rest \<Longrightarrow>
      \<exists>s'. deser s = (Inr x, s') \<and> rs_data s' = rest \<and> rs_broken s' = rs_broken s"
    and deser_cut:
    "valid x \<Longrightarrow> ser x = rs_data s @ left_out \<Longrightarrow> left_out \<noteq> [] \<Longrightarrow>
      \<exists>s'. deser s = (Inl (if rs_broken s then SOCK_ERROR else SOCK_EOF), s')"
begin

lemma prefix_free:
  assumes "valid x" and "valid y" and "ser x @ r = ser y @ t"
  shows "x = y \<and> r = t"
proof -
  obtain s' where 1: "deser (stream_of (ser x @ r)) = (Inr x, s')" "rs_data s' = r"
    using deser_ser [OF assms(1), of "stream_of (ser x @ r)" r] by (auto simp: stream_of_def)
  obtain s'' where 2: "deser (stream_of (ser x @ r)) = (Inr y, s'')" "rs_data s'' = t"
    using deser_ser [OF assms(2), of "stream_of (ser x @ r)" t] assms(3)
    by (auto simp: stream_of_def)
  from 1 2 show ?thesis by simp
qed

lemma ser_inj: "valid x \<Longrightarrow> valid y \<Longrightarrow> ser x = ser y \<Longrightarrow> x = y"
  using prefix_free [of x y "[]" "[]"] by simp

end

text \<open>
  Two formats written one after the other. \<open>seq_deser\<close> reads the first, stops on its error,
  and goes on with the second, the shape of every \<open>if (bad(res)) { return res; }\<close> sequence.
\<close>

definition seq_ser :: "('a \<Rightarrow> u8 list) \<Rightarrow> ('b \<Rightarrow> u8 list) \<Rightarrow> 'a \<times> 'b \<Rightarrow> u8 list" where
  "seq_ser f g p = f (fst p) @ g (snd p)"

definition seq_deser :: "'a deserializer \<Rightarrow> 'b deserializer \<Rightarrow> ('a \<times> 'b) deserializer" where
  "seq_deser f g s =
     (case f s of
        (Inl e, s') \<Rightarrow> (Inl e, s')
      | (Inr a, s') \<Rightarrow>
          (case g s' of
             (Inl e, s'') \<Rightarrow> (Inl e, s'')
           | (Inr b, s'') \<Rightarrow> (Inr (a, b), s'')))"

locale codec_pair =
  a: wire_codec ser_a deser_a valid_a + b: wire_codec ser_b deser_b valid_b
  for ser_a :: "'a \<Rightarrow> u8 list" and deser_a :: "'a deserializer" and valid_a :: "'a \<Rightarrow> bool"
    and ser_b :: "'b \<Rightarrow> u8 list" and deser_b :: "'b deserializer" and valid_b :: "'b \<Rightarrow> bool"

sublocale codec_pair \<subseteq> seq: wire_codec "seq_ser ser_a ser_b" "seq_deser deser_a deser_b"
    "\<lambda>p. valid_a (fst p) \<and> valid_b (snd p)"
proof (unfold_locales, goal_cases)
  case (1 x s rest)
  obtain s1 where s1: "deser_a s = (Inr (fst x), s1)" "rs_data s1 = ser_b (snd x) @ rest"
    "rs_broken s1 = rs_broken s"
    using a.deser_ser [of "fst x" s "ser_b (snd x) @ rest"] 1 by (auto simp: seq_ser_def)
  obtain s2 where "deser_b s1 = (Inr (snd x), s2)" "rs_data s2 = rest"
    "rs_broken s2 = rs_broken s1"
    using b.deser_ser [of "snd x" s1 rest] 1 s1 by auto
  with s1 show ?case by (simp add: seq_deser_def)
next
  case (2 x s left_out)
  have eq: "ser_a (fst x) @ ser_b (snd x) = rs_data s @ left_out"
    using 2(2) by (simp add: seq_ser_def)
  show ?case
  proof (cases "length (ser_a (fst x)) \<le> length (rs_data s)")
    case True
    then obtain d where d: "rs_data s = ser_a (fst x) @ d" "ser_b (snd x) = d @ left_out"
      using eq by (metis append_eq_append_conv_if append_take_drop_id)
    obtain s1 where s1: "deser_a s = (Inr (fst x), s1)" "rs_data s1 = d"
      "rs_broken s1 = rs_broken s"
      using a.deser_ser [of "fst x" s d] 2 d by auto
    obtain s2 where "deser_b s1 = (Inl (if rs_broken s1 then SOCK_ERROR else SOCK_EOF), s2)"
      using b.deser_cut [of "snd x" s1 left_out] 2 d s1 by auto
    with s1 show ?thesis by (simp add: seq_deser_def)
  next
    case False
    define d where "d = drop (length (rs_data s)) (ser_a (fst x))"
    have "rs_data s = take (length (rs_data s)) (ser_a (fst x))"
      using arg_cong [OF eq, of "take (length (rs_data s))"] False by simp
    then have d: "ser_a (fst x) = rs_data s @ d" "d \<noteq> []"
      using False by (auto simp: d_def) (metis append_take_drop_id)
    obtain s1 where "deser_a s = (Inl (if rs_broken s then SOCK_ERROR else SOCK_EOF), s1)"
      using a.deser_cut [of "fst x" s d] 2 d by auto
    then show ?thesis by (simp add: seq_deser_def)
  qed
qed

section \<open>The raw formats satisfy the contract\<close>

lemma length_le_bytes [simp]: "length (le_bytes k n) = k"
  by (induction k arbitrary: n) auto

lemma le_value_le_bytes: "n < 256 ^ k \<Longrightarrow> le_value (le_bytes k n) = n"
proof (induction k arbitrary: n)
  case 0
  then show ?case by simp
next
  case (Suc k)
  have "n div 256 < 256 ^ k"
    using Suc.prems by (simp add: less_mult_imp_div_less mult.commute)
  with Suc.IH show ?case by (simp add: unat_of_nat take_bit_eq_mod)
qed

text \<open>A fixed-width format: its values take exactly \<open>n\<close> bytes and decoding inverts encoding.\<close>

lemma fixed_width_codec:
  assumes "\<And>x. length (ser x) = n" and "\<And>x. valid x \<Longrightarrow> dec (ser x) = Inr x"
    and "\<And>s. deser s = (case read_exactly n s of
        (Inl e, s') \<Rightarrow> (Inl e, s') | (Inr bs, s') \<Rightarrow> (dec bs, s'))"
  shows "wire_codec ser deser valid"
proof
  fix x rest and s :: read_stream
  assume "valid x" and "rs_data s = ser x @ rest"
  then show "\<exists>s'. deser s = (Inr x, s') \<and> rs_data s' = rest \<and> rs_broken s' = rs_broken s"
    using read_exactly_ok [of s "ser x" rest] assms by auto
next
  fix x left_out and s :: read_stream
  assume "ser x = rs_data s @ left_out" and "left_out \<noteq> []"
  then have "length (rs_data s) < n"
    using assms(1) [of x] by (metis length_append length_greater_0_conv less_add_same_cancel1)
  then show "\<exists>s'. deser s = (Inl (if rs_broken s then SOCK_ERROR else SOCK_EOF), s')"
    using read_exactly_short [of s n] assms(3) by auto
qed

interpretation u8c: wire_codec serialize_u8 deserialize_u8 "\<lambda>_. True"
proof (rule fixed_width_codec [where n = 1 and dec = "\<lambda>bs. Inr (word_of_nat (le_value bs))"])
  fix x :: u8
  show "Inr (word_of_nat (le_value (serialize_u8 x))) = (Inr x :: archive_error + u8)"
    using unsigned_less [of x, where ?'a = nat] by (simp add: serialize_u8_def le_value_le_bytes)
qed (auto simp: serialize_u8_def deserialize_u8_def)

interpretation u64c: wire_codec serialize_u64 deserialize_u64 "\<lambda>_. True"
proof (rule fixed_width_codec [where n = 8 and dec = "\<lambda>bs. Inr (word_of_nat (le_value bs))"])
  fix x :: u64
  show "Inr (word_of_nat (le_value (serialize_u64 x))) = (Inr x :: archive_error + u64)"
    using unsigned_less [of x, where ?'a = nat] by (simp add: serialize_u64_def le_value_le_bytes)
qed (auto simp: serialize_u64_def deserialize_u64_def)

interpretation boolc: wire_codec serialize_bool deserialize_bool "\<lambda>_. True"
proof (rule fixed_width_codec [where n = 1 and
      dec = "\<lambda>bs. let v = sint (hd bs) in if v < 0 \<or> v > 1 then Inl RANGE_ERROR else Inr (v \<noteq> 0)"])
  fix s
  show "deserialize_bool s =
    (case read_exactly 1 s of (Inl e, s') \<Rightarrow> (Inl e, s')
     | (Inr bs, s') \<Rightarrow>
         (let v = sint (hd bs) in if v < 0 \<or> v > 1 then Inl RANGE_ERROR else Inr (v \<noteq> 0), s'))"
    by (auto simp: deserialize_bool_def Let_def split: sum.splits prod.splits)
qed (auto simp: serialize_bool_def)

section \<open>Varints: round trip, length, no silent truncation\<close>

lemma low7: "x AND 127 = take_bit 7 (x :: 'a::len word)"
proof -
  have "(127 :: 'a word) = mask 7" by (simp add: mask_eq_exp_minus_1)
  then show ?thesis by (simp add: take_bit_eq_mask)
qed

lemma bit_128: "bit (128 :: int) m \<longleftrightarrow> m = 7"
proof -
  have "(128 :: int) = 2 ^ 7" by simp
  then show ?thesis by (simp only: bit_exp_iff) auto
qed

lemma varint_byte_more:
  fixes n :: u64
  defines "b \<equiv> ucast ((n AND 127) OR 128) :: u8"
  shows "ucast (b AND 127) = take_bit 7 n" and "b AND 128 \<noteq> 0"
proof -
  show "ucast (b AND 127) = take_bit 7 n"
    unfolding b_def low7
    by (rule bit_word_eqI) (auto simp: bit_simps bit_128)
  have "bit (b AND 128) 7"
    unfolding b_def low7
    by (simp add: bit_simps bit_128)
  then show "b AND 128 \<noteq> 0" by (metis bit_0_eq bot_apply bot_bool_def)
qed

lemma varint_byte_last:
  fixes n :: u64
  assumes "n < 128"
  defines "b \<equiv> ucast n :: u8"
  shows "ucast (b AND 127) = n" and "b AND 128 = 0"
proof -
  have n: "take_bit 7 n = n"
    using assms(1) by (simp add: take_bit_eq_mod word_mod_less_divisor) (simp add: word_less_nat_alt mod_word_less)
  show "ucast (b AND 127) = n"
    unfolding b_def low7
    by (subst (2) n [symmetric], rule bit_word_eqI) (auto simp: bit_simps bit_128)
  show "b AND 128 = 0"
    unfolding b_def
    by (subst n [symmetric], rule bit_word_eqI) (auto simp: bit_simps bit_128)
qed

lemma varint_read_loop_Cons:
  assumes "rs_data s = b # bs"
  shows "\<exists>s'. rs_data s' = bs \<and> rs_broken s' = rs_broken s \<and>
    varint_read_loop v off s =
      (let x = ucast (b AND 127) :: u64; v' = v OR push_bit off x
       in if b AND 128 = 0 then
            (if off = 63 \<and> x > 1 then (Inl RANGE_ERROR, s') else (Inr v', s'))
          else if off \<ge> 63 then (Inl RANGE_ERROR, s')
          else varint_read_loop v' (off + 7) s')"
proof -
  have "(0::nat) < 1" by simp
  then show ?thesis
  proof (cases rule: rs_read_cases [of 1 s])
    case (some k s')
    then have "k = 1" by simp
    with some assms show ?thesis
      by (subst varint_read_loop.simps) (auto simp: Let_def)
  qed (use assms in auto)
qed

lemma varint_read_loop_Nil:
  assumes "rs_data s = []"
  shows "\<exists>s'. varint_read_loop v off s =
    (Inl (if rs_broken s then SOCK_ERROR else SOCK_EOF), s')"
proof -
  have "(0::nat) < 1" by simp
  then show ?thesis
    by (cases rule: rs_read_cases [of 1 s])
      (use assms in \<open>auto simp: varint_read_loop.simps [of v off s]\<close>)
qed

lemma varint_more_bound:
  assumes "n \<ge> 128" and "unat (n::u64) * 2 ^ off < 2 ^ 64"
  shows "off + 7 \<le> 63" and "unat (drop_bit 7 n) * 2 ^ (off + 7) < 2 ^ 64"
proof -
  have "(2::nat) ^ (7 + off) = 128 * 2 ^ off"
    by (simp add: power_add)
  also have "\<dots> \<le> unat n * 2 ^ off"
    using assms(1) by (simp add: word_le_nat_alt)
  also note assms(2)
  finally have "7 + off < 64"
    by (rule power_less_imp_less_exp [rotated]) simp
  then show "off + 7 \<le> 63" by simp
  have "unat (drop_bit 7 n) * 2 ^ (off + 7) \<le> unat n * 2 ^ off"
    by (simp add: drop_bit_eq_div unat_div power_add)
  then show "unat (drop_bit 7 n) * 2 ^ (off + 7) < 2 ^ 64"
    using assms(2) by simp
qed

lemma varint_read_loop_ok:
  assumes "rs_data s = varint_loop n @ rest" and "unat n * 2 ^ off < 2 ^ 64"
    and "off \<le> 63" and "off mod 7 = 0"
  shows "\<exists>s'. varint_read_loop v off s = (Inr (v OR push_bit off n), s') \<and>
    rs_data s' = rest \<and> rs_broken s' = rs_broken s"
  using assms
proof (induction n arbitrary: v off s rule: varint_loop.induct)
  case (1 n)
  show ?case
  proof (cases "n \<ge> 128")
    case True
    define b :: u8 where "b = ucast ((n AND 127) OR 128)"
    have b: "ucast (b AND 127) = take_bit 7 n" "b AND 128 \<noteq> 0"
      unfolding b_def by (rule varint_byte_more)+
    have data: "rs_data s = b # varint_loop (drop_bit 7 n) @ rest"
      using True "1.prems"(1) by (simp add: varint_loop.simps [of n] b_def)
    note bound = varint_more_bound [OF True "1.prems"(2)]
    obtain s' where s': "rs_data s' = varint_loop (drop_bit 7 n) @ rest"
      "rs_broken s' = rs_broken s"
      "varint_read_loop v off s = varint_read_loop (v OR push_bit off (take_bit 7 n)) (off + 7) s'"
      using varint_read_loop_Cons [OF data, of v off] b bound(1) by (auto simp: Let_def)
    with "1.IH" [OF True s'(1) bound(2,1), of "v OR push_bit off (take_bit 7 n)"] "1.prems"(4)
    obtain s'' where s'': "varint_read_loop v off s =
        (Inr ((v OR push_bit off (take_bit 7 n)) OR push_bit (off + 7) (drop_bit 7 n)), s'')"
      "rs_data s'' = rest" "rs_broken s'' = rs_broken s"
      using s' by auto
    have "push_bit off (take_bit 7 n) OR push_bit (off + 7) (drop_bit 7 n) = push_bit off n"
    proof -
      have "push_bit off (take_bit 7 n) OR push_bit (off + 7) (drop_bit 7 n)
          = push_bit off (take_bit 7 n OR push_bit 7 (drop_bit 7 n))"
        by (simp add: push_bit_or)
      also have "take_bit 7 n OR push_bit 7 (drop_bit 7 n) = n"
      proof (rule bit_word_eqI)
        fix m
        show "bit (take_bit 7 n OR push_bit 7 (drop_bit 7 n)) m = bit n m" if "m < LENGTH(64)"
          using that by (cases "m < 7") (auto simp: bit_simps)
      qed
      finally show ?thesis .
    qed
    with s'' show ?thesis by (simp add: or.assoc)
  next
    case False
    then have n: "n < 128" by simp
    define b :: u8 where "b = ucast n"
    have b: "ucast (b AND 127) = n" "b AND 128 = 0"
      unfolding b_def using n by (rule varint_byte_last)+
    have data: "rs_data s = b # rest"
      using False "1.prems"(1) by (simp add: varint_loop.simps [of n] b_def)
    have "\<not> (off = 63 \<and> n > 1)"
      using "1.prems"(2) by (auto simp: word_less_nat_alt)
    then show ?thesis
      using varint_read_loop_Cons [OF data, of v off] b by (auto simp: Let_def)
  qed
qed

lemma serialize_varint_eq: "serialize_varint_uint64 n = varint_loop n"
  by (simp add: serialize_varint_uint64_def varint_loop.simps [of 0])

text \<open>Base 128, low digit first, the high bit of a byte marking that more digits follow.\<close>

fun base128 :: "u8 list \<Rightarrow> nat option" where
  "base128 [] = None"
| "base128 (b # bs) =
     (if unat b < 128 then Some (unat b)
      else map_option (\<lambda>m. unat b - 128 + 128 * m) (base128 bs))"

lemma u8_split: 
  fixes b :: u8
  shows "b AND 128 = 0 \<longleftrightarrow> unat b < 128"
    and "unat (ucast (b AND 127) :: u64) = (if unat b < 128 then unat b else unat b - 128)"
proof -
  have "unat b < 256" using unsigned_less [of b, where ?'a = nat] by simp
  have m: "unat (b AND 127) = unat b mod 128"
    by (simp add: low7 take_bit_eq_mod unat_mod)
  show "unat (ucast (b AND 127) :: u64) = (if unat b < 128 then unat b else unat b - 128)"
    using m \<open>unat b < 256\<close> by (auto simp: mod_if unsigned_ucast_eq take_bit_nat_eq_self)
  have "b AND 2 ^ 7 = 0 \<longleftrightarrow> \<not> bit b 7"
    by (rule and_exp_eq_0_iff_not_bit)
  also have "bit b 7 \<longleftrightarrow> bit (unat b) 7"
    by (simp add: bit_unsigned_iff)
  also have "\<dots> \<longleftrightarrow> odd (unat b div 2 ^ 7)"
    by (simp only: bit_iff_odd)
  also have "\<not> odd (unat b div 2 ^ 7) \<longleftrightarrow> unat b < 128"
    using \<open>unat b < 256\<close> by (auto simp: div_if)
  finally show "b AND 128 = 0 \<longleftrightarrow> unat b < 128" by simp
qed

lemma unat_or_push_bit:
  fixes v x :: u64
  assumes "unat v < 2 ^ off" and "unat x * 2 ^ off < 2 ^ 64" and "off \<le> 63"
  shows "unat (v OR push_bit off x) = unat v + 2 ^ off * unat x"
proof -
  have "unat (push_bit off x) = take_bit LENGTH(64) (push_bit off (unat x))"
    by (rule unsigned_push_bit_eq)
  also have "\<dots> = unat x * 2 ^ off"
    using assms(2) by (simp add: push_bit_eq_mult take_bit_nat_eq_self)
  finally have p: "unat (push_bit off x) = unat x * 2 ^ off" .
  have "take_bit off (unat v) = unat v"
    using assms(1) by (simp add: take_bit_nat_eq_self)
  then have "\<not> bit v n" if "off \<le> n" for n
    using that by (metis bit_take_bit_iff bit_unsigned_iff leD possible_bit_nat)
  then have "v AND push_bit off x = 0"
    by (intro bit_word_eqI) (auto simp: bit_simps)
  then have or: "v OR push_bit off x = v + push_bit off x"
    by (rule disjunctive_add_eq_or [symmetric])
  have "unat v + unat x * 2 ^ off < 2 ^ 64"
  proof -
    have e: "(2::nat) ^ 64 = 2 ^ (64 - off) * 2 ^ off"
      using assms(3) by (simp add: power_add [symmetric])
    have "unat x < 2 ^ (64 - off)"
      using assms(2) unfolding e by simp
    then have "Suc (unat x) * 2 ^ off \<le> 2 ^ (64 - off) * 2 ^ off"
      by (intro mult_right_mono) simp_all
    with assms(1) show ?thesis unfolding e by simp
  qed
  then show ?thesis
    unfolding or by (simp add: unat_word_ariths p mult.commute)
qed

lemma varint_read_loop_exact:
  assumes "varint_read_loop v off s = (Inr w, s')"
    and "off \<le> 63" and "off mod 7 = 0" and "unat v < 2 ^ off"
  shows "\<exists>m. base128 (rs_data s) = Some m \<and> unat w = unat v + 2 ^ off * m"
  using assms
proof (induction "rs_data s" arbitrary: v off s)
  case Nil
  then show ?case using varint_read_loop_Nil [of s v off] by auto
next
  case (Cons b bs)
  define x where "x = (ucast (b AND 127) :: u64)"
  have x: "unat x = (if unat b < 128 then unat b else unat b - 128)" "unat x < 128"
    using u8_split(2) [of b] unsigned_less [of b, where ?'a = nat] by (auto simp: x_def)
  obtain t where t: "rs_data t = bs" and eq: "varint_read_loop v off s =
      (let x = ucast (b AND 127) :: u64; v' = v OR push_bit off x
       in if b AND 128 = 0 then
            (if off = 63 \<and> x > 1 then (Inl RANGE_ERROR, t) else (Inr v', t))
          else if off \<ge> 63 then (Inl RANGE_ERROR, t)
          else varint_read_loop v' (off + 7) t)"
    using varint_read_loop_Cons [OF Cons.hyps(2) [symmetric], of v off] by auto
  have less56: "unat x * 2 ^ off < 2 ^ 63" if "off \<le> 56"
  proof -
    have "unat x * 2 ^ off < 2 ^ 7 * 2 ^ off" using x(2) by simp
    also have "(2::nat) ^ 7 * 2 ^ off = 2 ^ (7 + off)" by (rule power_add [symmetric])
    also have "\<dots> \<le> 2 ^ 63" using that by (intro power_increasing) auto
    finally show ?thesis .
  qed
  have off: "off = 63 \<or> off \<le> 56" using Cons.prems(2,3) by presburger
  show ?case
  proof (cases "unat b < 128")
    case True
    then have "w = v OR push_bit off x" and "\<not> (off = 63 \<and> x > 1)"
      using eq Cons.prems(1) u8_split(1) [of b] by (auto simp: x_def Let_def split: if_splits)
    moreover have "unat x * 2 ^ off < 2 ^ 64"
      using off less56 \<open>\<not> (off = 63 \<and> x > 1)\<close> by (auto simp: word_less_nat_alt)
    ultimately show ?thesis
      using unat_or_push_bit [OF Cons.prems(4) _ Cons.prems(2)] True x Cons.hyps(2) [symmetric]
      by auto
  next
    case False
    then have "off < 63" and rd: "varint_read_loop (v OR push_bit off x) (off + 7) t = (Inr w, s')"
      using eq Cons.prems(1) u8_split(1) [of b] by (auto simp: x_def Let_def split: if_splits)
    then have le: "off \<le> 56" using off by simp
    have v': "unat (v OR push_bit off x) = unat v + 2 ^ off * unat x"
      using unat_or_push_bit [OF Cons.prems(4) _ Cons.prems(2)] less56 [OF le] by simp
    have "unat v + 2 ^ off * unat x < 2 ^ off + 2 ^ off * unat x"
      using Cons.prems(4) by simp
    also have "\<dots> = 2 ^ off * Suc (unat x)" by simp
    also have "\<dots> \<le> 2 ^ off * 128" using x(2) by (intro mult_left_mono) simp_all
    finally have "unat (v OR push_bit off x) < 2 ^ (off + 7)"
      using v' by (simp add: power_add)
    then obtain m where m: "base128 bs = Some m"
      "unat w = unat (v OR push_bit off x) + 2 ^ (off + 7) * m"
      using Cons.hyps(1) [OF t [symmetric] rd] le Cons.prems(3) t by auto
    have "base128 (rs_data s) = Some (unat x + 128 * m)"
      using m(1) x(1) False Cons.hyps(2) [symmetric] by simp
    with m(2) v' show ?thesis
      by (simp add: power_add distrib_left)
  qed
qed

lemma varint_size_loop_shift:
  "varint_uint64_size_loop v (Suc c) = Suc (varint_uint64_size_loop v c)"
  by (induction v c rule: varint_uint64_size_loop.induct)
    (subst (1 2) varint_uint64_size_loop.simps, simp)

lemma varint_length: "length (varint_loop n) = varint_uint64_serialized_size n"
proof (induction n rule: varint_loop.induct)
  case (1 n)
  show ?case
  proof (cases "n \<ge> 128")
    case True
    then have "n div 128 > 0"
      by (simp add: word_less_nat_alt word_le_nat_alt unat_div div_greater_zero_iff)
    then show ?thesis
      using True "1"
      by (simp add: varint_loop.simps [of n] varint_uint64_serialized_size_def drop_bit_eq_div
          varint_uint64_size_loop.simps [of "n div 128"] varint_size_loop_shift [symmetric] 
          varint_uint64_size_loop.simps [of "n div 128 div 128"])
  next
    case False
    then have "n div 128 = 0"
      by (simp add: word_arith_nat_div word_less_nat_alt word_le_nat_alt)
    with False show ?thesis
      by (simp add: varint_loop.simps [of n] varint_uint64_serialized_size_def
          varint_uint64_size_loop.simps [of 0])
  qed
qed

lemma varint_read_loop_cut:
  assumes "varint_loop n = rs_data s @ m" and "m \<noteq> []" and "unat n * 2 ^ off < 2 ^ 64"
  shows "\<exists>s'. varint_read_loop v off s =
    (Inl (if rs_broken s then SOCK_ERROR else SOCK_EOF), s')"
  using assms
proof (induction n arbitrary: v off s rule: varint_loop.induct)
  case (1 n)
  show ?case
  proof (cases "rs_data s = [] \<or> n < 128")
    case True
    with "1.prems"(1,2) have "rs_data s = []"
      by (auto simp: varint_loop.simps [of n] Cons_eq_append_conv split: if_splits)
    then show ?thesis by (rule varint_read_loop_Nil)
  next
    case False
    then have ge: "n \<ge> 128" by (simp add: not_less)
    define b :: u8 where "b = ucast ((n AND 127) OR 128)"
    have b: "b AND 128 \<noteq> 0" unfolding b_def by (rule varint_byte_more)
    obtain bs where data: "rs_data s = b # bs" and rest: "varint_loop (drop_bit 7 n) = bs @ m"
      using "1.prems"(1) ge False
      by (cases "rs_data s") (auto simp: varint_loop.simps [of n] b_def)
    note bound = varint_more_bound [OF ge "1.prems"(3)]
    obtain s' where "rs_data s' = bs" "rs_broken s' = rs_broken s"
      "varint_read_loop v off s = varint_read_loop (v OR push_bit off (ucast (b AND 127))) (off + 7) s'"
      using varint_read_loop_Cons [OF data, of v off] b bound(1) by (auto simp: Let_def)
    with "1.IH" [OF ge, of s' "off + 7"] "1.prems"(2) rest bound(2) show ?thesis by auto
  qed
qed

interpretation varint: wire_codec serialize_varint_uint64 deserialize_varint_uint64 "\<lambda>_. True"
proof
  fix x rest and s :: read_stream
  assume "rs_data s = serialize_varint_uint64 x @ rest"
  then show "\<exists>s'. deserialize_varint_uint64 s = (Inr x, s') \<and> rs_data s' = rest \<and>
      rs_broken s' = rs_broken s"
    using varint_read_loop_ok [of s x rest 0 0] unsigned_less [of x, where ?'a = nat]
    by (simp add: serialize_varint_eq deserialize_varint_uint64_def)
next
  fix x left_out and s :: read_stream
  assume "serialize_varint_uint64 x = rs_data s @ left_out" and "left_out \<noteq> []"
  then show "\<exists>s'. deserialize_varint_uint64 s = (Inl (if rs_broken s then SOCK_ERROR else SOCK_EOF), s')"
    using varint_read_loop_cut [of x s left_out 0 0] unsigned_less [of x, where ?'a = nat]
    by (simp add: serialize_varint_eq deserialize_varint_uint64_def)
qed


section \<open>Properties\<close>

lemma foldl_wm_append:
  "wm_ok bufs \<Longrightarrow> wm_ok (foldl wm_append bufs ps) \<and>
     concat (foldl wm_append bufs ps) = concat bufs @ concat ps"
  by (induction ps arbitrary: bufs) (simp_all add: wm_append_spec)

text \<open>
  A message built by any sequence of appends, of any lengths, holds the bytes in
  order; every buffer but the last is full, none is over-full, and \<open>size\<close> is the number of
  bytes appended.
\<close>

theorem write_message_holds_appended_bytes:
  "let m = foldl wm_append [] ps
   in concat m = concat ps \<and> wm_ok m \<and> wm_size m = length (concat ps)"
  using foldl_wm_append [of "[]" ps] by (simp add: Let_def wm_size_concat wm_ok_def)

text \<open>
  \<open>force_read\<close> hides how the transport cuts the stream: it returns the first
  \<open>n\<close> bytes when they are there, what there is at the end of a stream that was closed, and the
  error of a stream that broke, for every schedule of partial reads.
\<close>

theorem force_read_hides_chunks:
  "fst (force_read s n) =
     (if rs_broken s \<and> length (rs_data s) < n then None else Some (take n (rs_data s)))"
proof (cases "rs_broken s \<and> length (rs_data s) < n")
  case True
  then show ?thesis using force_read_error [of s n] by auto
next
  case False
  then show ?thesis using force_read_ok [of n s] by auto
qed

text \<open>
  Property C23. Variable-length integers round-trip at every 64-bit value, whatever follows on the
  stream, in as many bytes as \<open>varint_uint64_serialized_size\<close> says.
\<close>

theorem varint_roundtrip:
  assumes "rs_data s = serialize_varint_uint64 n @ rest"
  shows "\<exists>s'. deserialize_varint_uint64 s = (Inr n, s') \<and> rs_data s' = rest \<and>
              length (serialize_varint_uint64 n) = varint_uint64_serialized_size n"
  using varint.deser_ser [OF _ assms] varint_length [of n] by (auto simp: serialize_varint_eq)

theorem varint_roundtrip_witness:
  "\<exists>s'. deserialize_varint_uint64 \<lparr>rs_data = [172, 2, 9], rs_chunks = [0, 0], rs_broken = True\<rparr> =
     (Inr 300, s') \<and> rs_data s' = [9]"
proof -
  have "rs_data \<lparr>rs_data = [172, 2, 9], rs_chunks = [0, 0], rs_broken = True\<rparr> =
      serialize_varint_uint64 300 @ [9]"
    by code_simp
  from varint_roundtrip [OF this] show ?thesis by blast
qed

text \<open>
  The reader of variable-length integers never truncates: when it succeeds, the
  value is exactly the number the bytes stand for in base 128; numbers of more than 64 bits are
  refused instead of being reduced.
\<close>

theorem varint_never_truncates:
  assumes "deserialize_varint_uint64 s = (Inr w, s')"
  shows "base128 (rs_data s) = Some (unat w)"
  using varint_read_loop_exact [of 0 0 s w s'] assms
  by (auto simp: deserialize_varint_uint64_def)

end
