(* ===== verification/Keys.thy ===== *)
theory Keys
  imports Archive
begin

text \<open>
  \<open>btree/keys.{hpp,cc}\<close>: the store keys of the B-tree and the contiguous key ranges.
  A key is its first \<open>size()\<close> bytes; the rest of its buffer is never read before it is written.
  The C++ comparison operators of keys and of right bounds make both types linear orders, and
  they are instances of the library's class here. \<open>increment\<close> and \<open>decrement\<close> mutate the key
  and report success: the model returns the pair of the report and the new key.
\<close>

section \<open>Keys\<close>

definition MAX_KEY_SIZE :: nat where
  "MAX_KEY_SIZE = 250"

datatype sorting = UNORDERED | ASCENDING | DESCENDING

definition reversed :: "sorting \<Rightarrow> bool" where
  "reversed s \<longleftrightarrow> s = DESCENDING"

definition is_better :: "'a::linorder \<Rightarrow> 'a \<Rightarrow> sorting \<Rightarrow> bool" where
  "is_better a b s = (if \<not> reversed s then a < b else b < a)"

text \<open>\<open>memcmp\<close> of the first \<open>n\<close> bytes; only its sign is used.\<close>

fun memcmp :: "u8 list \<Rightarrow> u8 list \<Rightarrow> nat \<Rightarrow> int" where
  "memcmp (x # xs) (y # ys) (Suc n) = (if x = y then memcmp xs ys n else uint x - uint y)"
| "memcmp xs ys n = 0"

definition sized_strcmp :: "u8 list \<Rightarrow> u8 list \<Rightarrow> int" where
  "sized_strcmp str1 str2 =
     (let min_len = min (length str1) (length str2);
          res = memcmp str1 str2 min_len
      in if res = 0 then int (length str1) - int (length str2) else res)"

datatype store_key = Store_key (contents: "u8 list")

definition key_size :: "store_key \<Rightarrow> nat" where
  "key_size k = length (contents k)"

text \<open>The type invariant: a key fits its buffer.\<close>

definition key_ok :: "store_key \<Rightarrow> bool" where
  "key_ok k \<longleftrightarrow> key_size k \<le> MAX_KEY_SIZE"

definition store_key_min :: store_key where
  "store_key_min = Store_key []"

definition store_key_max :: store_key where
  "store_key_max = Store_key (replicate MAX_KEY_SIZE 255)"

definition key_compare :: "store_key \<Rightarrow> store_key \<Rightarrow> int" where
  "key_compare k1 k2 = sized_strcmp (contents k1) (contents k2)"

text \<open>The loop of \<open>increment\<close> that shortens the key while its last byte is 255.\<close>

function strip_255 :: "u8 list \<Rightarrow> u8 list" where
  "strip_255 cs = (if cs \<noteq> [] \<and> last cs = 255 then strip_255 (butlast cs) else cs)"
  by pat_completeness auto
termination
  by (relation "measure length") auto

declare strip_255.simps [simp del]

definition key_increment :: "store_key \<Rightarrow> bool \<times> store_key" where
  "key_increment k =
     (if key_size k < MAX_KEY_SIZE then (True, Store_key (contents k @ [0]))
      else
        (let cs = strip_255 (contents k)
         in if cs = [] then (False, store_key_max)
            else (True, Store_key (butlast cs @ [last cs + 1]))))"

definition key_decrement :: "store_key \<Rightarrow> bool \<times> store_key" where
  "key_decrement k =
     (if key_size k = 0 then (False, k)
      else if last (contents k) > 0 then
        (True, Store_key (butlast (contents k) @ [last (contents k) - 1] @
                          replicate (MAX_KEY_SIZE - key_size k) 255))
      else (True, Store_key (butlast (contents k))))"

definition unescaped_str_to_key :: "u8 list \<Rightarrow> store_key option" where
  "unescaped_str_to_key str =
     (if length str \<le> MAX_KEY_SIZE then Some (Store_key str) else None)"

definition key_to_unescaped_str :: "store_key \<Rightarrow> u8 list" where
  "key_to_unescaped_str k = contents k"

definition serialize_key :: "store_key \<Rightarrow> u8 list" where
  "serialize_key k = serialize_u8 (word_of_nat (key_size k)) @ contents k"

text \<open>
  The length byte is not compared with the size of the buffer it is about to fill: a length of
  251 to 255 is accepted.
\<close>

definition deserialize_key :: "store_key deserializer" where
  "deserialize_key s =
     (case deserialize_u8 s of
        (Inl e, s') \<Rightarrow> (Inl e, s')
      | (Inr sz, s') \<Rightarrow>
          (case read_exactly (unat sz) s' of
             (Inl e, s'') \<Rightarrow> (Inl e, s'')
           | (Inr bs, s'') \<Rightarrow> (Inr (Store_key bs), s'')))"

subsection \<open>The order of the keys\<close>

lemma sized_strcmp_simps [simp]:
  "sized_strcmp [] [] = 0"
  "sized_strcmp [] (y # ys) = - (1 + int (length ys))"
  "sized_strcmp (x # xs) [] = 1 + int (length xs)"
  "sized_strcmp (x # xs) (y # ys) = (if x = y then sized_strcmp xs ys else uint x - uint y)"
proof -
  have "uint x - uint y \<noteq> 0" if "x \<noteq> y" for x y :: u8
    using that by (simp add: word_uint_eq_iff)
  then show "sized_strcmp (x # xs) (y # ys) = (if x = y then sized_strcmp xs ys else uint x - uint y)"
    by (simp add: sized_strcmp_def Let_def)
qed (simp_all add: sized_strcmp_def)

lemma sized_strcmp_eq_0: "sized_strcmp xs ys = 0 \<longleftrightarrow> xs = ys"
  by (induction xs ys rule: list_induct2') (auto simp: word_uint_eq_iff)

lemma sized_strcmp_anti: "sized_strcmp xs ys = - sized_strcmp ys xs"
  by (induction xs ys rule: list_induct2') auto

lemma sized_strcmp_trans:
  "sized_strcmp xs ys < 0 \<Longrightarrow> sized_strcmp ys zs < 0 \<Longrightarrow> sized_strcmp xs zs < 0"
proof (induction xs arbitrary: ys zs)
  case Nil
  then show ?case by (cases ys; cases zs) auto
next
  case (Cons x xs)
  then show ?case by (cases ys; cases zs) (auto split: if_splits)
qed

instantiation store_key :: linorder
begin

definition less_eq_store_key :: "store_key \<Rightarrow> store_key \<Rightarrow> bool" where
  "k1 \<le> k2 \<longleftrightarrow> key_compare k1 k2 \<le> 0"

definition less_store_key :: "store_key \<Rightarrow> store_key \<Rightarrow> bool" where
  "k1 < k2 \<longleftrightarrow> key_compare k1 k2 < 0"

instance
proof
  fix x y z :: store_key
  note defs = less_eq_store_key_def less_store_key_def key_compare_def
  have anti: "sized_strcmp (contents x) (contents y) = - sized_strcmp (contents y) (contents x)"
    by (rule sized_strcmp_anti)
  show "x < y \<longleftrightarrow> x \<le> y \<and> \<not> y \<le> x" and "x \<le> y \<or> y \<le> x"
    using anti by (auto simp: defs)
  show "x \<le> x"
    by (simp add: defs sized_strcmp_eq_0 [THEN iffD2])
  show "x \<le> z" if "x \<le> y" and "y \<le> z"
    using that sized_strcmp_trans [of "contents x" "contents y" "contents z"]
      sized_strcmp_eq_0 [of "contents x" "contents y"]
      sized_strcmp_eq_0 [of "contents y" "contents z"]
    unfolding defs by (metis order.order_iff_strict)
  show "x = y" if "x \<le> y" and "y \<le> x"
    using that anti sized_strcmp_eq_0 [of "contents x" "contents y"]
    unfolding defs by (metis antisym neg_0_le_iff_le store_key.expand)
qed

end

lemma key_less_simps [simp]:
  "\<not> Store_key xs < Store_key []"
  "Store_key [] < Store_key ys \<longleftrightarrow> ys \<noteq> []"
  "Store_key (x # xs) < Store_key (y # ys) \<longleftrightarrow> x < y \<or> x = y \<and> Store_key xs < Store_key ys"
proof -
  show "\<not> Store_key xs < Store_key []"
    by (cases xs) (auto simp: less_store_key_def key_compare_def)
  show "Store_key [] < Store_key ys \<longleftrightarrow> ys \<noteq> []"
    by (cases ys) (auto simp: less_store_key_def key_compare_def)
qed (auto simp: less_store_key_def key_compare_def word_less_def)

lemma key_le_iff: "Store_key xs \<le> Store_key ys \<longleftrightarrow> xs = ys \<or> Store_key xs < Store_key ys"
  by (auto simp: order.order_iff_strict)

lemma key_less_append_left [simp]:
  "Store_key (p @ xs) < Store_key (p @ ys) \<longleftrightarrow> Store_key xs < Store_key ys"
  by (induction p) auto


lemma key_less_append_right [simp]: "Store_key xs < Store_key (xs @ ys) \<longleftrightarrow> ys \<noteq> []"
  by (induction xs) (cases ys; simp)+

lemma byte_le_255: "y \<le> (255 :: u8)"
  using unsigned_less [of y, where ?'a = nat] by (simp add: word_le_nat_alt)

lemma byte_less_inc: "x \<noteq> (255 :: u8) \<Longrightarrow> x < x + 1"
  by unat_arith auto

lemma key_le_replicate_255: "length ys \<le> m \<Longrightarrow> Store_key ys \<le> Store_key (replicate m 255)"
proof (induction ys arbitrary: m)
  case Nil
  then show ?case by (cases m) (auto simp: key_le_iff)
next
  case (Cons y ys)
  then obtain m' where m: "m = Suc m'" and "length ys \<le> m'" by (cases m) auto
  moreover have "y \<le> 255"
    by (rule byte_le_255)
  ultimately show ?case
    using Cons.IH [of m'] by (auto simp: key_le_iff order.order_iff_strict)
qed

lemma store_key_max_greatest: "key_ok k \<Longrightarrow> k \<le> store_key_max"
  by (cases k) (simp add: key_ok_def key_size_def store_key_max_def key_le_replicate_255)

lemma store_key_min_least [simp]: "store_key_min \<le> k"
  by (cases k; cases "contents k") (auto simp: store_key_min_def key_le_iff)

lemma not_less_store_key_min [simp]: "\<not> k < store_key_min"
  by (simp add: leD)

lemma key_ok_simps [simp]: "key_ok store_key_min" "key_ok store_key_max"
  by (simp_all add: key_ok_def key_size_def store_key_min_def store_key_max_def)

subsection \<open>Increment and decrement are the neighbours in the order\<close>

lemma strip_255_Nil [simp]: "strip_255 [] = []"
  by (subst strip_255.simps) simp

lemma strip_255_snoc [simp]: "strip_255 (cs @ [c]) = (if c = 255 then strip_255 cs else cs @ [c])"
  by (subst strip_255.simps) simp

lemma strip_255_Cons:
  "strip_255 (x # cs) =
     (if strip_255 cs = [] then (if x = 255 then [] else [x]) else x # strip_255 cs)"
proof (induction cs rule: rev_induct)
  case Nil
  then show ?case using strip_255_snoc [of "[]" x] by simp
next
  case (snoc c cs)
  then show ?case using strip_255_snoc [of "x # cs" c] by simp
qed

lemma strip_255_eq_Nil: "strip_255 cs = [] \<longleftrightarrow> cs = replicate (length cs) 255"
  by (induction cs) (auto simp: strip_255_Cons)

lemma strip_255_length: "length (strip_255 cs) \<le> length cs"
  by (induction cs rule: rev_induct) auto

lemma strip_255_greater:
  "strip_255 cs \<noteq> [] \<Longrightarrow>
     Store_key cs < Store_key (butlast (strip_255 cs) @ [last (strip_255 cs) + 1])"
proof (induction cs)
  case (Cons x cs)
  have "x < x + 1" if "x \<noteq> 255"
    using that by (rule byte_less_inc)
  with Cons show ?case by (auto simp: strip_255_Cons split: if_splits)
qed simp

lemma strip_255_next:
  assumes "strip_255 cs \<noteq> []" and "length js \<le> length cs" and "Store_key cs < Store_key js"
  shows "Store_key (butlast (strip_255 cs) @ [last (strip_255 cs) + 1]) \<le> Store_key js"
  using assms
proof (induction cs arbitrary: js)
  case (Cons x cs)
  then obtain y ys where js: "js = y # ys" by (cases js) auto
  show ?case
  proof (cases "strip_255 cs = []")
    case True
    have cs: "cs = replicate (length cs) 255"
      using True by (simp add: strip_255_eq_Nil)
    have "\<not> Store_key cs < Store_key ys"
      using key_le_replicate_255 [of ys "length cs"] Cons.prems(2) js cs by (simp add: leD)
    then have "x < y" using Cons.prems(3) js by simp
    then have "x + 1 \<le> y" by (rule inc_le)
    moreover have "Store_key [] \<le> Store_key ys" by (cases ys) (auto simp: key_le_iff)
    ultimately show ?thesis
      using True Cons.prems(1) by (auto simp: js strip_255_Cons key_le_iff split: if_splits)
  next
    case False
    then show ?thesis
      using Cons.IH [of ys] Cons.prems by (auto simp: js strip_255_Cons key_le_iff)
  qed
qed simp

lemma append_zero_next:
  "Store_key cs < Store_key js \<Longrightarrow> Store_key (cs @ [0]) \<le> Store_key js"
proof (induction cs arbitrary: js)
  case Nil
  then show ?case
    by (cases js) (auto simp: key_le_iff word_gt_0)
next
  case (Cons x cs)
  then show ?case by (cases js) (auto simp: key_le_iff)
qed

lemma pred_of_last_byte:
  assumes "0 < c" and "length js \<le> length xs + 1 + m" and "Store_key js < Store_key (xs @ [c])"
  shows "Store_key js \<le> Store_key (xs @ [c - 1] @ replicate m 255)"
  using assms(2,3)
proof (induction xs arbitrary: js)
  case Nil
  show ?case
  proof (cases js)
    case (Cons y ys)
    then have "y < c" using Nil by auto
    then have "y \<le> c - 1" using assms(1) by unat_arith
    moreover have "Store_key ys \<le> Store_key (replicate m 255)"
      using Nil Cons by (intro key_le_replicate_255) auto
    ultimately show ?thesis using Cons by (auto simp: key_le_iff order.order_iff_strict)
  qed (auto simp: key_le_iff)
next
  case (Cons x xs)
  then show ?case by (cases js) (auto simp: key_le_iff)
qed

lemma pred_of_zero_byte: "Store_key js < Store_key (xs @ [0]) \<Longrightarrow> Store_key js \<le> Store_key xs"
proof (induction xs arbitrary: js)
  case Nil
  then show ?case by (cases js) auto
next
  case (Cons x xs)
  then show ?case by (cases js) (auto simp: key_le_iff)
qed

text \<open>\<open>key_succ k k'\<close>: among the keys that fit the buffer, \<open>k'\<close> comes right after \<open>k\<close>.\<close>

definition key_succ :: "store_key \<Rightarrow> store_key \<Rightarrow> bool" where
  "key_succ k k' \<longleftrightarrow> key_ok k \<and> key_ok k' \<and> k < k' \<and> (\<forall>j. key_ok j \<and> k < j \<longrightarrow> k' \<le> j)"

lemma key_succ_fun: "key_succ k a \<Longrightarrow> key_succ k b \<Longrightarrow> a = b"
  unfolding key_succ_def by (meson antisym)

lemma key_succ_inj: "key_succ a k \<Longrightarrow> key_succ b k \<Longrightarrow> a = b"
  unfolding key_succ_def by (meson leD linorder_neqE)

lemma key_increment_succ:
  assumes "key_ok k" and "key_increment k = (True, k')"
  shows "key_succ k k'"
proof (cases k)
  case (Store_key cs)
  show ?thesis
  proof (cases "length cs < MAX_KEY_SIZE")
    case True
    then have "k' = Store_key (cs @ [0])"
      using assms Store_key by (simp add: key_increment_def key_size_def)
    then show ?thesis
      using True assms(1) append_zero_next [of cs] Store_key
      by (auto simp: key_succ_def key_ok_def key_size_def) (metis store_key.collapse)
  next
    case False
    then have len: "length cs = MAX_KEY_SIZE"
      using assms(1) Store_key by (simp add: key_ok_def key_size_def)
    then have ne: "strip_255 cs \<noteq> []"
      and k': "k' = Store_key (butlast (strip_255 cs) @ [last (strip_255 cs) + 1])"
      using assms Store_key by (auto simp: key_increment_def key_size_def Let_def split: if_splits)
    have "k' \<le> j" if "key_ok j" and "k < j" for j
      using strip_255_next [OF ne, of "contents j"] that len k' Store_key
      by (cases j) (simp add: key_ok_def key_size_def)
    moreover have "length (strip_255 cs) \<le> MAX_KEY_SIZE"
      using strip_255_length [of cs] len by simp
    ultimately show ?thesis
      using strip_255_greater [OF ne] assms(1) ne k' Store_key
      by (auto simp: key_succ_def key_ok_def key_size_def)
  qed
qed

lemma key_increment_fails:
  assumes "key_ok k"
  shows "fst (key_increment k) = False \<longleftrightarrow> k = store_key_max"
    and "key_increment store_key_max = (False, store_key_max)"
proof -
  show "key_increment store_key_max = (False, store_key_max)"
    by (simp add: key_increment_def store_key_max_def key_size_def strip_255_eq_Nil)
  then show "fst (key_increment k) = False \<longleftrightarrow> k = store_key_max"
    using assms
    by (cases k) (auto simp: key_increment_def key_ok_def key_size_def strip_255_eq_Nil
        store_key_max_def Let_def split: if_splits)
qed

lemma key_decrement_succ:
  assumes "key_ok k" and "key_decrement k = (True, k')"
  shows "key_succ k' k"
proof (cases k)
  case (Store_key ks)
  then have "ks \<noteq> []"
    using assms by (auto simp: key_decrement_def key_size_def split: if_splits)
  then obtain xs c where ks: "ks = xs @ [c]" by (metis rev_exhaust)
  have len: "length xs + 1 \<le> MAX_KEY_SIZE"
    using assms(1) Store_key ks by (simp add: key_ok_def key_size_def)
  have below: "j \<le> k'" if "key_ok j" and "j < k" for j
    using that assms(2) len pred_of_last_byte [of c "contents j" xs "MAX_KEY_SIZE - length ks"]
      pred_of_zero_byte [of "contents j" xs] Store_key ks
    by (cases j) (auto simp: key_decrement_def key_size_def key_ok_def word_gt_0
        split: if_splits)
  have "c - 1 < c" if "0 < c"
    using that by unat_arith
  then have "k' < k" and "key_ok k'"
    using assms(2) len Store_key ks
    by (auto simp: key_decrement_def key_size_def key_ok_def split: if_splits)
  with below show ?thesis
    using assms(1) unfolding key_succ_def by (meson leD leI)
qed

lemma key_decrement_fails: "fst (key_decrement k) = False \<longleftrightarrow> k = store_key_min"
  by (cases k) (auto simp: key_decrement_def key_size_def store_key_min_def)

lemma key_decrement_increment:
  assumes "key_ok k" and "key_increment k = (True, k')"
  shows "key_decrement k' = (True, k)"
proof -
  have succ: "key_succ k k'" by (rule key_increment_succ [OF assms])
  then have "k' \<noteq> store_key_min"
    unfolding key_succ_def using store_key_min_least leD by blast
  then obtain j where j: "key_decrement k' = (True, j)"
    using key_decrement_fails [of k'] by (metis (full_types) prod.collapse)
  then have "key_succ j k'"
    using succ key_decrement_succ [OF _ j] by (simp add: key_succ_def)
  with succ j show ?thesis by (simp add: key_succ_inj)
qed

lemma key_increment_decrement:
  assumes "key_ok k" and "key_decrement k = (True, k')"
  shows "key_increment k' = (True, k)"
proof -
  have succ: "key_succ k' k" by (rule key_decrement_succ [OF assms])
  then have ok: "key_ok k'" and "k' \<noteq> store_key_max"
    unfolding key_succ_def using store_key_max_greatest leD by blast+
  then obtain j where j: "key_increment k' = (True, j)"
    using key_increment_fails [of k'] by (metis (full_types) prod.collapse)
  with succ key_increment_succ [OF ok j] show ?thesis by (simp add: key_succ_fun)
qed


subsection \<open>The wire format of a key\<close>

interpretation keyc: wire_codec serialize_key deserialize_key key_ok
proof
  fix k rest and s :: read_stream
  assume ok: "key_ok k" and data: "rs_data s = serialize_key k @ rest"
  have sz: "unat (word_of_nat (key_size k) :: u8) = length (contents k)"
    using ok by (simp add: key_ok_def key_size_def MAX_KEY_SIZE_def unat_of_nat)
  obtain s1 where s1: "deserialize_u8 s = (Inr (word_of_nat (key_size k)), s1)"
    "rs_data s1 = contents k @ rest" "rs_broken s1 = rs_broken s"
    using u8c.deser_ser [where x = "word_of_nat (key_size k)" and s = s and rest = "contents k @ rest"] data
    by (auto simp: serialize_key_def)
  then show "\<exists>s'. deserialize_key s = (Inr k, s') \<and> rs_data s' = rest \<and> rs_broken s' = rs_broken s"
    using read_exactly_ok [of s1 "contents k" rest] sz by (auto simp: deserialize_key_def)
next
  fix k left_out and s :: read_stream
  assume ok: "key_ok k" and data: "serialize_key k = rs_data s @ left_out" and ne: "left_out \<noteq> []"
  have sz: "unat (word_of_nat (key_size k) :: u8) = length (contents k)"
    using ok by (simp add: key_ok_def key_size_def MAX_KEY_SIZE_def unat_of_nat)
  have len: "length (serialize_u8 b) = 1" and len_ne: "serialize_u8 b \<noteq> []" for b
    by (simp_all add: serialize_u8_def)
  show "\<exists>s'. deserialize_key s = (Inl (if rs_broken s then SOCK_ERROR else SOCK_EOF), s')"
  proof (cases "rs_data s")
    case Nil
    then show ?thesis
      using u8c.deser_cut [where x = 0 and s = s and left_out = "serialize_u8 0"] len_ne
      by (auto simp: deserialize_key_def)
  next
    case (Cons b d)
    then have "serialize_u8 (word_of_nat (key_size k)) = [b]" and d: "contents k = d @ left_out"
      using data len [of "word_of_nat (key_size k)"]
      by (auto simp: serialize_key_def length_Suc_conv numeral_eq_Suc)
    then obtain s1 where "deserialize_u8 s = (Inr (word_of_nat (key_size k)), s1)"
      "rs_data s1 = d" "rs_broken s1 = rs_broken s"
      using u8c.deser_ser [where x = "word_of_nat (key_size k)" and s = s and rest = d] Cons by auto
    then show ?thesis
      using read_exactly_short [of s1 "length (contents k)"] sz d ne
      by (auto simp: deserialize_key_def)
  qed
qed

text \<open>A key of up to 255 bytes is accepted from the wire, more than the 250 a key may have.\<close>

lemma deserialize_key_oversize:
  assumes "length bs \<le> 255"
  shows "fst (deserialize_key (stream_of (word_of_nat (length bs) # bs))) = Inr (Store_key bs)"
proof -
  let ?n = "word_of_nat (length bs) :: u8"
  have n: "unat ?n = length bs" using assms by (simp add: unat_of_nat)
  have "serialize_u8 ?n = [?n]"
    using n assms by (simp add: serialize_u8_def)
  then obtain s1 where "deserialize_u8 (stream_of (?n # bs)) = (Inr ?n, s1)" "rs_data s1 = bs"
    using u8c.deser_ser [where x = ?n and s = "stream_of (?n # bs)" and rest = bs] by (auto simp: stream_of_def)
  then show ?thesis
    using read_exactly_ok [of s1 bs "[]"] n by (auto simp: deserialize_key_def)
qed

section \<open>Right bounds and key ranges\<close>

text \<open>
  An unbounded right bound still holds an \<open>internal_key\<close>, which comparisons ignore; it shows
  only in the wire format, where it is an extra argument of the serializer.
\<close>

datatype right_bound = Bound (rb_key: store_key) | Unbounded

instantiation right_bound :: linorder
begin

definition less_right_bound :: "right_bound \<Rightarrow> right_bound \<Rightarrow> bool" where
  "a < b \<longleftrightarrow>
     (case a of Unbounded \<Rightarrow> False
      | Bound k \<Rightarrow> (case b of Unbounded \<Rightarrow> True | Bound j \<Rightarrow> k < j))"

definition less_eq_right_bound :: "right_bound \<Rightarrow> right_bound \<Rightarrow> bool" where
  "a \<le> b \<longleftrightarrow> a = b \<or> a < (b :: right_bound)"

instance
  by standard (auto simp: less_right_bound_def less_eq_right_bound_def split: right_bound.splits)

end

lemma right_bound_order [simp]:
  "Bound k < Bound j \<longleftrightarrow> k < j"
  "Bound k < Unbounded"
  "\<not> Unbounded < b"
  "Bound k \<le> Bound j \<longleftrightarrow> k \<le> j"
  "b \<le> Unbounded"
  "Unbounded \<le> b \<longleftrightarrow> b = Unbounded"
  by (cases b; auto simp: less_right_bound_def less_eq_right_bound_def)+

definition right_bound_increment :: "right_bound \<Rightarrow> bool \<times> right_bound" where
  "right_bound_increment b =
     (case b of
        Unbounded \<Rightarrow> (False, Unbounded)
      | Bound k \<Rightarrow> (True, (case key_increment k of (ok, k') \<Rightarrow> if \<not> ok then Unbounded else Bound k')))"

definition key_or_max :: "right_bound \<Rightarrow> store_key" where
  "key_or_max b = (case b of Unbounded \<Rightarrow> store_key_max | Bound k \<Rightarrow> k)"

datatype bound_t = Open_bound | Closed_bound | None_bound

record key_range =
  kr_left :: store_key
  kr_right :: right_bound

definition key_range_empty :: key_range where
  "key_range_empty = \<lparr>kr_left = store_key_min, kr_right = Bound store_key_min\<rparr>"

definition key_range_init_left :: "bound_t \<Rightarrow> store_key \<Rightarrow> store_key option" where
  "key_range_init_left lm l =
     (case lm of
        Closed_bound \<Rightarrow> Some l
      | Open_bound \<Rightarrow> (case key_increment l of (ok, l') \<Rightarrow> if ok then Some l' else None)
      | None_bound \<Rightarrow> Some store_key_min)"

text \<open>The \<open>guarantee(ok)\<close> after a closed right bound is the only abort.\<close>

definition key_range_init_right :: "bound_t \<Rightarrow> store_key \<Rightarrow> right_bound option" where
  "key_range_init_right rm r =
     (case rm of
        Closed_bound \<Rightarrow> (case right_bound_increment (Bound r) of (ok, b) \<Rightarrow> if ok then Some b else None)
      | Open_bound \<Rightarrow> Some (Bound r)
      | None_bound \<Rightarrow> Some Unbounded)"

definition key_range_init :: "bound_t \<Rightarrow> store_key \<Rightarrow> bound_t \<Rightarrow> store_key \<Rightarrow> key_range option" where
  "key_range_init lm l rm r =
     (case key_range_init_left lm l of
        None \<Rightarrow> Some key_range_empty
      | Some left \<Rightarrow>
          (case key_range_init_right rm r of
             None \<Rightarrow> None
           | Some right \<Rightarrow> Some \<lparr>kr_left = left, kr_right = right\<rparr>))"

definition key_range_one_key :: "store_key \<Rightarrow> key_range option" where
  "key_range_one_key k = key_range_init Closed_bound k Closed_bound k"

definition key_range_universe :: "key_range option" where
  "key_range_universe = key_range_init None_bound store_key_min None_bound store_key_min"

definition key_range_with_prefix :: "store_key \<Rightarrow> key_range option" where
  "key_range_with_prefix pre =
     (if key_size pre = 0 then key_range_universe
      else
        (let right = Store_key (contents pre @ replicate (MAX_KEY_SIZE - key_size pre) 255)
         in key_range_init Closed_bound pre Closed_bound right))"

definition key_range_is_empty :: "key_range \<Rightarrow> bool" where
  "key_range_is_empty r =
     (case kr_right r of Unbounded \<Rightarrow> False | Bound k \<Rightarrow> kr_left r = k)"

definition contains_key :: "key_range \<Rightarrow> store_key \<Rightarrow> bool" where
  "contains_key r k =
     (let left_ok = kr_left r \<le> k;
          right_ok = (case kr_right r of Unbounded \<Rightarrow> True | Bound j \<Rightarrow> k < j)
      in left_ok \<and> right_ok)"

definition key_range_is_superset :: "key_range \<Rightarrow> key_range \<Rightarrow> bool" where
  "key_range_is_superset r other =
     (if key_range_is_empty other then True
      else if kr_left r > kr_left other then False
      else if kr_right r < kr_right other then False
      else True)"

definition key_range_overlaps :: "key_range \<Rightarrow> key_range \<Rightarrow> bool" where
  "key_range_overlaps r other \<longleftrightarrow>
     Bound (kr_left r) < kr_right other \<and> Bound (kr_left other) < kr_right r \<and>
     \<not> key_range_is_empty r \<and> \<not> key_range_is_empty other"

definition key_range_intersection :: "key_range \<Rightarrow> key_range \<Rightarrow> key_range" where
  "key_range_intersection r other =
     (if \<not> key_range_overlaps r other then key_range_empty
      else
        \<lparr>kr_left = (if kr_left r < kr_left other then kr_left other else kr_left r),
         kr_right = (if kr_right r > kr_right other then kr_right other else kr_right r)\<rparr>)"

definition key_range_less :: "key_range \<Rightarrow> key_range \<Rightarrow> bool" where
  "key_range_less a b \<longleftrightarrow>
     kr_left a < kr_left b \<or> kr_left a = kr_left b \<and> kr_right a < kr_right b"

definition serialize_key_range :: "store_key \<Rightarrow> key_range \<Rightarrow> u8 list" where
  "serialize_key_range internal_key r =
     serialize_key (kr_left r) @ serialize_bool (kr_right r = Unbounded) @
     serialize_key (case kr_right r of Unbounded \<Rightarrow> internal_key | Bound k \<Rightarrow> k)"

definition deserialize_key_range :: "key_range deserializer" where
  "deserialize_key_range s =
     (case deserialize_key s of
        (Inl e, s1) \<Rightarrow> (Inl e, s1)
      | (Inr left, s1) \<Rightarrow>
          (case deserialize_bool s1 of
             (Inl e, s2) \<Rightarrow> (Inl e, s2)
           | (Inr unbounded, s2) \<Rightarrow>
               (case deserialize_key s2 of
                  (Inl e, s3) \<Rightarrow> (Inl e, s3)
                | (Inr k, s3) \<Rightarrow>
                    (Inr \<lparr>kr_left = left,
                          kr_right = (if unbounded then Unbounded else Bound k)\<rparr>, s3))))"


subsection \<open>The keys of a range\<close>

definition key_range_ok :: "key_range \<Rightarrow> bool" where
  "key_range_ok r \<longleftrightarrow>
     key_ok (kr_left r) \<and>
     (case kr_right r of Unbounded \<Rightarrow> True | Bound k \<Rightarrow> key_ok k \<and> kr_left r \<le> k)"

definition key_set :: "key_range \<Rightarrow> store_key set" where
  "key_set r = {k. key_ok k \<and> contains_key r k}"

lemma contains_key_iff: "contains_key r k \<longleftrightarrow> kr_left r \<le> k \<and> Bound k < kr_right r"
  by (simp add: contains_key_def split: right_bound.splits)

lemma in_key_set: "k \<in> key_set r \<longleftrightarrow> key_ok k \<and> kr_left r \<le> k \<and> Bound k < kr_right r"
  by (simp add: key_set_def contains_key_iff)

lemma key_range_is_empty_iff_right: "key_range_is_empty r \<longleftrightarrow> kr_right r = Bound (kr_left r)"
  by (auto simp: key_range_is_empty_def split: right_bound.splits)

lemma key_range_ok_left: "key_range_ok r \<Longrightarrow> key_ok (kr_left r) \<and> Bound (kr_left r) \<le> kr_right r"
  by (auto simp: key_range_ok_def split: right_bound.splits)

lemma key_range_is_empty_iff:
  assumes "key_range_ok r"
  shows "key_range_is_empty r \<longleftrightarrow> key_set r = {}"
proof
  assume "key_range_is_empty r"
  then show "key_set r = {}" by (auto simp: key_range_is_empty_iff_right in_key_set)
next
  assume "key_set r = {}"
  then have "kr_left r \<notin> key_set r" by simp
  then show "key_range_is_empty r"
    using key_range_ok_left [OF assms]
    by (auto simp: key_range_is_empty_iff_right in_key_set order.order_iff_strict)
qed

lemma left_in_key_set:
  "key_range_ok r \<Longrightarrow> \<not> key_range_is_empty r \<Longrightarrow> kr_left r \<in> key_set r"
  using key_range_ok_left [of r]
  by (auto simp: key_range_is_empty_iff_right in_key_set order.order_iff_strict)

lemma key_range_is_superset_iff:
  assumes r: "key_range_ok r" and other: "key_range_ok other"
  shows "key_range_is_superset r other \<longleftrightarrow> key_set other \<subseteq> key_set r"
proof (cases "key_range_is_empty other")
  case True
  then show ?thesis using key_range_is_empty_iff [OF other] by (simp add: key_range_is_superset_def)
next
  case False
  note left = left_in_key_set [OF other False]
  have "kr_left r \<le> kr_left other \<and> kr_right other \<le> kr_right r"
    if sub: "key_set other \<subseteq> key_set r"
  proof -
    have l: "kr_left r \<le> kr_left other" "Bound (kr_left other) < kr_right r"
      using left sub by (auto simp: in_key_set)
    moreover have "\<not> kr_right r < kr_right other"
    proof
      assume less: "kr_right r < kr_right other"
      then obtain k where k: "kr_right r = Bound k" by (cases "kr_right r") auto
      then have "k \<in> key_set other"
        using less r l by (auto simp: in_key_set key_range_ok_def)
      then have "k \<in> key_set r" using sub by blast
      with k show False by (simp add: in_key_set)
    qed
    ultimately show ?thesis by simp
  qed
  moreover have "key_set other \<subseteq> key_set r"
    if "kr_left r \<le> kr_left other" "kr_right other \<le> kr_right r"
    using that by (auto simp: in_key_set)
  ultimately show ?thesis
    using False by (auto simp: key_range_is_superset_def not_less)
qed

lemma key_sets_disjoint: "\<not> key_range_overlaps r other \<Longrightarrow> key_set r \<inter> key_set other = {}"
proof (rule ccontr)
  assume no: "\<not> key_range_overlaps r other" and "key_set r \<inter> key_set other \<noteq> {}"
  then obtain k where k: "kr_left r \<le> k" "Bound k < kr_right r" "kr_left other \<le> k"
    "Bound k < kr_right other"
    by (auto simp: in_key_set)
  then have "Bound (kr_left r) < kr_right other" and "Bound (kr_left other) < kr_right r"
    by (metis order.strict_trans1 right_bound_order(4))+
  with k no show False by (auto simp: key_range_overlaps_def key_range_is_empty_iff_right)
qed

lemma key_range_intersection_set:
  "key_set (key_range_intersection r other) = key_set r \<inter> key_set other"
proof (cases "key_range_overlaps r other")
  case True
  then show ?thesis by (auto simp: key_range_intersection_def in_key_set)
next
  case False
  then have "key_set r \<inter> key_set other = {}" by (rule key_sets_disjoint)
  with False show ?thesis
    by (auto simp: key_range_intersection_def key_range_empty_def in_key_set)
qed

lemma key_range_empty_ok [simp]: "key_range_ok key_range_empty" "key_set key_range_empty = {}"
  by (auto simp: key_range_ok_def key_range_empty_def in_key_set)

lemma key_range_intersection_ok:
  "key_range_ok r \<Longrightarrow> key_range_ok other \<Longrightarrow> key_range_ok (key_range_intersection r other)"
  by (cases "kr_right r"; cases "kr_right other"; cases "key_range_overlaps r other")
    (auto simp: key_range_intersection_def key_range_overlaps_def key_range_ok_def [of r]
      key_range_ok_def [of other] key_range_ok_def [of "\<lparr>kr_left = _, kr_right = _\<rparr>"])

lemma key_range_overlaps_iff:
  assumes "key_range_ok r" and "key_range_ok other"
  shows "key_range_overlaps r other \<longleftrightarrow> key_set r \<inter> key_set other \<noteq> {}"
proof (cases "key_range_overlaps r other")
  case True
  then have "max (kr_left r) (kr_left other) \<in> key_set r \<inter> key_set other"
    using left_in_key_set [OF assms(1)] left_in_key_set [OF assms(2)]
    by (auto simp: key_range_overlaps_def in_key_set max_def)
  with True show ?thesis by blast
next
  case False
  then have "key_set r \<inter> key_set other = {}" by (rule key_sets_disjoint)
  with False show ?thesis by simp
qed

text \<open>Two ranges with the same keys are equal, except that the empty ones have any position.\<close>

lemma key_set_inject:
  assumes "key_range_ok r" and "key_range_ok t" and "key_set r = key_set t" and "key_set r \<noteq> {}"
  shows "r = t"
proof -
  have "key_range_is_superset r t" and "key_range_is_superset t r"
    using assms by (simp_all add: key_range_is_superset_iff)
  moreover have "\<not> key_range_is_empty r" and "\<not> key_range_is_empty t"
    using assms key_range_is_empty_iff by auto
  ultimately show ?thesis
    by (auto simp: key_range_is_superset_def split: if_splits intro!: key_range.equality)
qed

subsection \<open>The constructor\<close>

definition left_admits :: "bound_t \<Rightarrow> store_key \<Rightarrow> store_key \<Rightarrow> bool" where
  "left_admits lm l k \<longleftrightarrow> (case lm of Closed_bound \<Rightarrow> l \<le> k | Open_bound \<Rightarrow> l < k | None_bound \<Rightarrow> True)"

definition right_admits :: "bound_t \<Rightarrow> store_key \<Rightarrow> store_key \<Rightarrow> bool" where
  "right_admits rm r k \<longleftrightarrow> (case rm of Closed_bound \<Rightarrow> k \<le> r | Open_bound \<Rightarrow> k < r | None_bound \<Rightarrow> True)"

lemma key_increment_cases:
  assumes "key_ok k"
  obtains (next_key) k' where "key_increment k = (True, k')" "key_succ k k'"
  | (last_key) "key_increment k = (False, store_key_max)" "k = store_key_max"
  using key_increment_fails [OF assms] key_increment_succ [OF assms]
  by (metis (full_types) prod.collapse)

lemma right_bound_increment_admits:
  assumes "key_ok r" and "key_ok k"
  shows "Bound k < snd (right_bound_increment (Bound r)) \<longleftrightarrow> k \<le> r"
  using assms(1)
proof (cases rule: key_increment_cases)
  case (next_key r')
  then show ?thesis
    using assms by (auto simp: right_bound_increment_def key_succ_def)
next
  case last_key
  then show ?thesis
    using assms store_key_max_greatest [of k] by (simp add: right_bound_increment_def)
qed

lemma key_range_init_right_spec:
  assumes "key_ok r"
  shows "\<exists>b. key_range_init_right rm r = Some b \<and> (\<forall>k. key_ok k \<longrightarrow> (Bound k < b \<longleftrightarrow> right_admits rm r k))"
  using assms right_bound_increment_admits [OF assms]
  by (cases rm) (auto simp: key_range_init_right_def right_admits_def right_bound_increment_def)

lemma key_range_init_left_spec:
  assumes "key_ok l"
  shows "case key_range_init_left lm l of
           None \<Rightarrow> \<forall>k. key_ok k \<longrightarrow> \<not> left_admits lm l k
         | Some b \<Rightarrow> \<forall>k. key_ok k \<longrightarrow> (b \<le> k \<longleftrightarrow> left_admits lm l k)"
  using assms
proof (cases rule: key_increment_cases)
  case (next_key l')
  then have "l' \<le> k \<longleftrightarrow> l < k" if "key_ok k" for k
    using that by (auto simp: key_succ_def)
  with next_key show ?thesis
    by (cases lm) (auto simp: key_range_init_left_def left_admits_def)
next
  case last_key
  then show ?thesis
    by (cases lm) (auto simp: key_range_init_left_def left_admits_def leD store_key_max_greatest)
qed

lemma key_range_init_spec:
  assumes "key_ok l" and "key_ok r"
  shows "\<exists>kr. key_range_init lm l rm r = Some kr \<and>
              key_set kr = {k. key_ok k \<and> left_admits lm l k \<and> right_admits rm r k}"
proof -
  obtain b where b: "key_range_init_right rm r = Some b"
    "\<And>k. key_ok k \<Longrightarrow> Bound k < b \<longleftrightarrow> right_admits rm r k"
    using key_range_init_right_spec [OF assms(2)] by blast
  show ?thesis
    using key_range_init_left_spec [OF assms(1), of lm] b
    by (auto simp: key_range_init_def in_key_set split: option.splits)
qed


lemma key_range_universe_set:
  "\<exists>kr. key_range_universe = Some kr \<and> key_range_ok kr \<and> key_set kr = {k. key_ok k}"
  by (auto simp: key_range_universe_def key_range_init_def key_range_init_left_def
      key_range_init_right_def key_range_ok_def in_key_set)

lemma prefix_range:
  assumes "length ks \<le> length ps + m"
  shows "Store_key ps \<le> Store_key ks \<and> Store_key ks \<le> Store_key (ps @ replicate m 255) \<longleftrightarrow>
         take (length ps) ks = ps"
  using assms
proof (induction ps arbitrary: ks)
  case Nil
  have "Store_key [] \<le> Store_key ks" by (cases ks) (auto simp: key_le_iff)
  with Nil show ?case by (simp add: key_le_replicate_255)
next
  case (Cons p ps)
  then show ?case by (cases ks) (auto simp: key_le_iff)
qed

lemma key_range_with_prefix_set:
  assumes "key_ok pre"
  shows "\<exists>kr. key_range_with_prefix pre = Some kr \<and>
    key_set kr = {k. key_ok k \<and> take (key_size pre) (contents k) = contents pre}"
proof (cases "key_size pre = 0")
  case True
  then show ?thesis
    using key_range_universe_set by (auto simp: key_range_with_prefix_def key_size_def)
next
  case False
  let ?r = "Store_key (contents pre @ replicate (MAX_KEY_SIZE - key_size pre) 255)"
  have "key_ok ?r" using assms by (simp add: key_ok_def key_size_def)
  then obtain kr where "key_range_with_prefix pre = Some kr"
    and set: "key_set kr = {k. key_ok k \<and> pre \<le> k \<and> k \<le> ?r}"
    using key_range_init_spec [OF assms, of ?r Closed_bound Closed_bound] False
    by (auto simp: key_range_with_prefix_def left_admits_def right_admits_def)
  moreover have "pre \<le> k \<and> k \<le> ?r \<longleftrightarrow> take (key_size pre) (contents k) = contents pre" if "key_ok k" for k
    using prefix_range [of "contents k" "contents pre" "MAX_KEY_SIZE - key_size pre"] that assms
    by (simp add: key_ok_def key_size_def)
  ultimately show ?thesis by auto
qed

subsection \<open>The wire format of a range\<close>

interpretation boundc: codec_pair serialize_bool deserialize_bool "\<lambda>_. True"
  serialize_key deserialize_key key_ok ..

interpretation rangec: codec_pair serialize_key deserialize_key key_ok
  "seq_ser serialize_bool serialize_key" "seq_deser deserialize_bool deserialize_key"
  "\<lambda>p. True \<and> key_ok (snd p)" ..

definition wire_fields :: "store_key \<Rightarrow> key_range \<Rightarrow> store_key \<times> bool \<times> store_key" where
  "wire_fields internal_key r =
     (kr_left r, kr_right r = Unbounded,
      case kr_right r of Unbounded \<Rightarrow> internal_key | Bound k \<Rightarrow> k)"

lemma serialize_key_range_fields:
  "serialize_key_range j r =
     seq_ser serialize_key (seq_ser serialize_bool serialize_key) (wire_fields j r)"
  by (simp add: serialize_key_range_def seq_ser_def wire_fields_def)

lemma deserialize_key_range_fields:
  "deserialize_key_range s =
     (case seq_deser deserialize_key (seq_deser deserialize_bool deserialize_key) s of
        (Inl e, s') \<Rightarrow> (Inl e, s')
      | (Inr (left, unbounded, k), s') \<Rightarrow>
          (Inr \<lparr>kr_left = left, kr_right = (if unbounded then Unbounded else Bound k)\<rparr>, s'))"
  by (auto simp: deserialize_key_range_def seq_deser_def split: prod.splits sum.splits)

lemma wire_fields_ok: "key_range_ok r \<Longrightarrow> key_ok j \<Longrightarrow>
    key_ok (fst (wire_fields j r)) \<and> key_ok (snd (snd (wire_fields j r)))"
  by (auto simp: wire_fields_def key_range_ok_def split: right_bound.splits)

text \<open>Whatever key an unbounded range has kept, the range that is read back is the one written.\<close>

interpretation metainfo_range: wire_codec "serialize_key_range j" deserialize_key_range
  "\<lambda>r. key_range_ok r \<and> key_ok j" for j
proof
  fix r rest and s :: read_stream
  assume ok: "key_range_ok r \<and> key_ok j" and data: "rs_data s = serialize_key_range j r @ rest"
  obtain s' where "seq_deser deserialize_key (seq_deser deserialize_bool deserialize_key) s =
      (Inr (wire_fields j r), s')" "rs_data s' = rest" "rs_broken s' = rs_broken s"
    using rangec.seq.deser_ser [where x = "wire_fields j r" and s = s and rest = rest]
      data ok wire_fields_ok [of r j] by (auto simp: serialize_key_range_fields)
  then show "\<exists>s'. deserialize_key_range s = (Inr r, s') \<and> rs_data s' = rest \<and>
      rs_broken s' = rs_broken s"
    by (auto simp: deserialize_key_range_fields wire_fields_def split: right_bound.splits)
next
  fix r left_out and s :: read_stream
  assume "key_range_ok r \<and> key_ok j" and "serialize_key_range j r = rs_data s @ left_out"
    and "left_out \<noteq> []"
  then show "\<exists>s'. deserialize_key_range s = (Inl (if rs_broken s then SOCK_ERROR else SOCK_EOF), s')"
    using rangec.seq.deser_cut [where x = "wire_fields j r" and s = s and left_out = left_out]
      wire_fields_ok [of r j]
    by (auto simp: serialize_key_range_fields deserialize_key_range_fields)
qed


section \<open>Printing keys\<close>

definition int_to_hex :: "nat \<Rightarrow> u8" where
  "int_to_hex x = (if x < 10 then 48 + word_of_nat x else 65 + word_of_nat x - 10)"

definition debug_char :: "u8 \<Rightarrow> u8 list" where
  "debug_char c =
     (if 97 \<le> c \<and> c \<le> 122 \<or> 65 \<le> c \<and> c \<le> 90 \<or> 48 \<le> c \<and> c \<le> 57 \<or> c = 95 then [c]
      else [92, 120, int_to_hex (unat (drop_bit 4 (c AND 240))), int_to_hex (unat (c AND 15))])"

definition key_to_debug_str :: "store_key \<Rightarrow> u8 list" where
  "key_to_debug_str k = 34 # concat (map debug_char (contents k)) @ [34]"

lemma int_to_hex_inj:
  assumes "a < 16" and "b < 16" and "int_to_hex a = int_to_hex b"
  shows "a = b"
proof -
  have "\<forall>a \<in> set [0..<16]. \<forall>b \<in> set [0..<16]. int_to_hex a = int_to_hex b \<longrightarrow> a = b"
    unfolding int_to_hex_def by (simp add: upt_conv_Cons)
  with assms show ?thesis by simp
qed

definition plain_char :: "u8 \<Rightarrow> bool" where
  "plain_char c \<longleftrightarrow> 97 \<le> c \<and> c \<le> 122 \<or> 65 \<le> c \<and> c \<le> 90 \<or> 48 \<le> c \<and> c \<le> 57 \<or> c = 95"

lemma plain_char_neq [simp]: "\<not> plain_char 34" "\<not> plain_char 92"
  by (simp_all add: plain_char_def)

lemma debug_char_eq:
  "debug_char c =
     (if plain_char c then [c]
      else [92, 120, int_to_hex (unat c div 16), int_to_hex (unat c mod 16)])"
proof -
  have low: "unat (x AND 15) = unat x mod 16" for x :: u8
  proof -
    have "x AND 15 = take_bit 4 x" by (simp add: take_bit_eq_mask mask_numeral)
    then show ?thesis by (simp add: unsigned_take_bit_eq take_bit_eq_mod [of 4 "unat x"])
  qed
  have "unat (drop_bit 4 (c AND 240)) = unat (drop_bit 4 c) mod 16" by (simp add: low)
  also have "unat (drop_bit 4 c) = unat c div 16"
    by (simp add: unat_drop_bit_eq drop_bit_eq_div [of 4 "unat c"])
  finally have "unat (drop_bit 4 (c AND 240)) = unat c div 16"
    using unsigned_less [of c, where ?'a = nat] by simp
  moreover note low [of c]
  ultimately show ?thesis unfolding debug_char_def plain_char_def by presburger
qed

lemma debug_char_prefix_free:
  assumes "debug_char c @ xs = debug_char d @ ys"
  shows "c = d \<and> xs = ys"
proof -
  have "c = d" if "int_to_hex (unat c div 16) = int_to_hex (unat d div 16)"
    and "int_to_hex (unat c mod 16) = int_to_hex (unat d mod 16)"
  proof -
    have "unat c div 16 = unat d div 16" and "unat c mod 16 = unat d mod 16"
      using that unsigned_less [of c, where ?'a = nat] unsigned_less [of d, where ?'a = nat]
      by (auto intro!: int_to_hex_inj)
    then show ?thesis by (metis div_mult_mod_eq unsigned_word_eqI)
  qed
  then show ?thesis
    using assms by (auto simp: debug_char_eq split: if_splits)
qed

lemma debug_char_quote [simp]: "debug_char c @ xs \<noteq> [34]" "[34] \<noteq> debug_char c @ xs"
  by (auto simp: debug_char_eq)

lemma debug_str_inj:
  "concat (map debug_char xs) @ [34] = concat (map debug_char ys) @ [34] \<Longrightarrow> xs = ys"
proof (induction xs ys rule: list_induct2')
  case (4 x xs y ys)
  then have "debug_char x @ (concat (map debug_char xs) @ [34]) =
      debug_char y @ (concat (map debug_char ys) @ [34])"
    by simp
  from debug_char_prefix_free [OF this] "4.IH" show ?case by simp
qed (auto simp: debug_char_eq split: if_splits)

lemma key_decrement_cases:
  assumes "key_ok k"
  obtains (prev_key) k' where "key_decrement k = (True, k')" "key_succ k' k"
  | (first_key) "key_decrement k = (False, k)" "k = store_key_min"
proof (cases "k = store_key_min")
  case True
  then have "key_decrement k = (False, k)"
    by (simp add: key_decrement_def store_key_min_def key_size_def)
  with True first_key show thesis by blast
next
  case False
  then have "key_decrement k = (True, snd (key_decrement k))"
    using key_decrement_fails [of k] by (metis (full_types) prod.collapse)
  with prev_key key_decrement_succ [OF assms] show thesis by blast
qed

lemma key_increment_neighbour:
  assumes "key_ok k"
  shows "key_increment k = (False, k) \<and> k = store_key_max \<or>
         (\<exists>k'. key_increment k = (True, k') \<and> key_succ k k' \<and> key_decrement k' = (True, k))"
  using assms by (cases rule: key_increment_cases) (auto dest: key_decrement_increment [OF assms])

lemma key_decrement_neighbour:
  assumes "key_ok k"
  shows "key_decrement k = (False, k) \<and> k = store_key_min \<or>
         (\<exists>k'. key_decrement k = (True, k') \<and> key_succ k' k \<and> key_increment k' = (True, k))"
  using assms by (cases rule: key_decrement_cases) (auto dest: key_increment_decrement [OF assms])

section \<open>Properties\<close>

text \<open>
  Property C20. \<open>increment\<close> and \<open>decrement\<close> move a key to its direct neighbour in the order the
  B-tree uses, among all keys that fit into the key buffer. They fail exactly on the last and on
  the first key, where they leave the key as it was, and each undoes the other.
\<close>

theorem key_neighbours:
  assumes "key_ok k"
  shows "(key_increment k = (False, k) \<and> k = store_key_max \<or>
          (\<exists>k'. key_increment k = (True, k') \<and> key_succ k k' \<and> key_decrement k' = (True, k))) \<and>
         (key_decrement k = (False, k) \<and> k = store_key_min \<or>
          (\<exists>k'. key_decrement k = (True, k') \<and> key_succ k' k \<and> key_increment k' = (True, k)))"
  using key_increment_neighbour [OF assms] key_decrement_neighbour [OF assms] by blast

theorem key_neighbours_witness:
  "key_ok (Store_key [1, 255]) \<and>
   key_increment (Store_key [1, 255]) = (True, Store_key [1, 255, 0]) \<and>
   key_succ (Store_key [1, 255]) (Store_key [1, 255, 0])"
proof -
  have ok: "key_ok (Store_key [1, 255])" by code_simp
  moreover have "key_increment (Store_key [1, 255]) = (True, Store_key [1, 255, 0])" by code_simp
  ultimately show ?thesis using key_neighbours [OF ok] by auto
qed



text \<open>
  On well-formed ranges \<open>is_empty\<close>, \<open>is_superset\<close>, \<open>overlaps\<close> and
  \<open>intersection\<close> decide and compute what their names say of the sets of keys, and the
  intersection is well-formed again.
\<close>

theorem key_range_algebra:
  assumes "key_range_ok a" and "key_range_ok b"
  shows "(key_range_is_empty a \<longleftrightarrow> key_set a = {}) \<and>
         (key_range_is_superset a b \<longleftrightarrow> key_set b \<subseteq> key_set a) \<and>
         (key_range_overlaps a b \<longleftrightarrow> key_set a \<inter> key_set b \<noteq> {}) \<and>
         key_set (key_range_intersection a b) = key_set a \<inter> key_set b \<and>
         key_range_ok (key_range_intersection a b)"
  using assms
  by (simp add: key_range_is_empty_iff key_range_is_superset_iff key_range_overlaps_iff
      key_range_intersection_set key_range_intersection_ok)

text \<open>
  The metainfo format of a key range round-trips: whatever follows it on the stream,
  in whatever chunks the bytes arrive, and whatever key an unbounded range happens to hold, the
  reader gets the range back and stops right behind it.
\<close>

theorem key_range_metainfo_roundtrip:
  assumes "key_range_ok r" and "key_ok j" and "rs_data s = serialize_key_range j r @ rest"
  shows "\<exists>s'. deserialize_key_range s = (Inr r, s') \<and> rs_data s' = rest"
  using metainfo_range.deser_ser [of r j s rest] assms by blast

text \<open>
  Property C22. Reading a key never compares the length byte with the 250 bytes a key may have:
  every length up to 255 is accepted and that many bytes are stored.
\<close>

theorem deserialize_key_no_length_check:
  assumes "length bs \<le> 255"
  shows "fst (deserialize_key (stream_of (word_of_nat (length bs) # bs))) = Inr (Store_key bs)"
  using assms by (rule deserialize_key_oversize)

theorem deserialize_key_no_length_check_witness:
  "\<exists>k. fst (deserialize_key (stream_of (255 # replicate 255 0))) = Inr k \<and> \<not> key_ok k"
proof -
  have "\<not> key_ok (Store_key (replicate 255 0))"
    by (simp add: key_ok_def key_size_def MAX_KEY_SIZE_def)
  then show ?thesis
    using deserialize_key_no_length_check [of "replicate 255 0"]
    by auto
qed

end
