(* ===== verification/Regions.thy ===== *)
theory Regions
  imports Keys "HOL-Library.Multiset"
begin

text \<open>
  \<open>region/region.{hpp,cc}\<close> and \<open>region/hash_region.{hpp,cc}\<close>: the algebra of key ranges and of
  hash regions, rectangles of a hash interval and a key range. The locales \<open>region_space\<close> and
  \<open>region_difference\<close> state what both kinds of region promise to the components above them;
  they are interpreted on both.
\<close>

unbundle bit_operations_syntax

section \<open>Joining and subtracting key ranges\<close>

datatype 'r join_result = REGION_JOIN_OK 'r | REGION_JOIN_BAD_JOIN | REGION_JOIN_BAD_REGION

fun region_join_cursor :: "right_bound \<Rightarrow> key_range list \<Rightarrow> right_bound join_result" where
  "region_join_cursor cursor [] = REGION_JOIN_OK cursor"
| "region_join_cursor cursor (r # rs) =
     (if cursor < Bound (kr_left r) then REGION_JOIN_BAD_REGION
      else if cursor > Bound (kr_left r) then REGION_JOIN_BAD_JOIN
      else region_join_cursor (kr_right r) rs)"

definition region_join_sorted :: "key_range list \<Rightarrow> key_range join_result" where
  "region_join_sorted rs =
     (case region_join_cursor (Bound (kr_left (hd rs))) rs of
        REGION_JOIN_OK cursor \<Rightarrow>
          REGION_JOIN_OK \<lparr>kr_left = kr_left (hd rs), kr_right = cursor\<rparr>
      | REGION_JOIN_BAD_JOIN \<Rightarrow> REGION_JOIN_BAD_JOIN
      | REGION_JOIN_BAD_REGION \<Rightarrow> REGION_JOIN_BAD_REGION)"

text \<open>
  \<open>std::sort\<close> may put ranges with the same left end in any order; the stable order is taken
  here, and the theorems hold for every sorted permutation.
\<close>

definition key_region_join :: "key_range list \<Rightarrow> key_range join_result" where
  "key_region_join vec =
     (if vec = [] then REGION_JOIN_OK key_range_empty
      else region_join_sorted (sort_key kr_left vec))"

text \<open>The inner loop of both \<open>region_subtract_many\<close>: every piece is replaced by its pieces.\<close>

fun map_concat_opt :: "('a \<Rightarrow> 'b list option) \<Rightarrow> 'a list \<Rightarrow> 'b list option" where
  "map_concat_opt f [] = Some []"
| "map_concat_opt f (x # xs) =
     do { ys \<leftarrow> f x; zs \<leftarrow> map_concat_opt f xs; Some (ys @ zs) }"

definition key_range_subtract :: "key_range \<Rightarrow> key_range \<Rightarrow> key_range list option" where
  "key_range_subtract m s =
     do {
       below \<leftarrow> key_range_init None_bound store_key_min Open_bound (kr_left s);
       let left = key_range_intersection m below;
       right \<leftarrow>
         (case kr_right s of
            Unbounded \<Rightarrow> Some []
          | Bound k \<Rightarrow>
              do {
                above \<leftarrow> key_range_init Closed_bound k None_bound store_key_min;
                let right = key_range_intersection m above;
                Some (if \<not> key_range_is_empty right then [right] else [])
              });
       Some ((if \<not> key_range_is_empty left then [left] else []) @ right)
     }"

definition key_region_subtract_many :: "key_range \<Rightarrow> key_range list \<Rightarrow> key_range list option" where
  "key_region_subtract_many minuend subtrahends =
     fold_opt (\<lambda>s buf. map_concat_opt (\<lambda>m. key_range_subtract m s) buf) subtrahends [minuend]"

section \<open>Hash regions\<close>

definition HASH_REGION_HASH_SIZE :: u64 where
  "HASH_REGION_HASH_SIZE = 2 ^ 63"

definition hash_spread :: "u8 \<Rightarrow> u64" where
  "hash_spread ch =
     push_bit 23 (((ucast ch * 0x80200802) AND 0x0884422110) * 0x0101010101)"

definition hash_step :: "u64 \<Rightarrow> u8 \<Rightarrow> u64" where
  "hash_step h ch =
     (let h' = h + hash_spread ch in h' XOR drop_bit 11 h' XOR push_bit 21 h')"

definition hash_region_hasher :: "store_key \<Rightarrow> u64" where
  "hash_region_hasher k =
     foldl hash_step 0x47a59e381fb2dc06 (contents k) AND 0x7fffffffffffffff"

record hash_range =
  hx_beg :: u64
  hx_end :: u64

definition hash_range_less :: "hash_range \<Rightarrow> hash_range \<Rightarrow> bool" where
  "hash_range_less a b =
     (if hx_beg a < hx_beg b then True
      else if hx_beg a > hx_beg b then False
      else hx_end a < hx_end b)"

definition hash_range_contains :: "hash_range \<Rightarrow> u64 \<Rightarrow> bool" where
  "hash_range_contains r v \<longleftrightarrow> hx_beg r \<le> v \<and> v < hx_end r"

record hash_region =
  hr_beg :: u64
  hr_end :: u64
  hr_inner :: key_range

definition hash_region_empty :: hash_region where
  "hash_region_empty = \<lparr>hr_beg = 0, hr_end = 0, hr_inner = key_range_empty\<rparr>"

definition hash_region_make :: "u64 \<Rightarrow> u64 \<Rightarrow> key_range \<Rightarrow> hash_region option" where
  "hash_region_make b e inner =
     (if b < e \<and> \<not> key_range_is_empty inner
      then Some \<lparr>hr_beg = b, hr_end = e, hr_inner = inner\<rparr> else None)"

definition hash_region_of_inner :: "key_range \<Rightarrow> hash_region option" where
  "hash_region_of_inner inner =
     (if \<not> key_range_is_empty inner
      then Some \<lparr>hr_beg = 0, hr_end = HASH_REGION_HASH_SIZE, hr_inner = inner\<rparr> else None)"

definition hash_region_universe :: "hash_region option" where
  "hash_region_universe = do { u \<leftarrow> key_range_universe; hash_region_of_inner u }"

definition region_is_empty :: "hash_region \<Rightarrow> bool" where
  "region_is_empty r \<longleftrightarrow> hr_beg r = hr_end r \<or> key_range_is_empty (hr_inner r)"

definition region_is_superset :: "hash_region \<Rightarrow> hash_region \<Rightarrow> bool" where
  "region_is_superset a b \<longleftrightarrow>
     region_is_empty b \<or>
     hr_beg a \<le> hr_beg b \<and> hr_end a \<ge> hr_end b \<and>
     key_range_is_superset (hr_inner a) (hr_inner b)"

definition region_intersection :: "hash_region \<Rightarrow> hash_region \<Rightarrow> hash_region option" where
  "region_intersection r1 r2 =
     (if hr_end r1 \<le> hr_beg r2 \<or> hr_end r2 \<le> hr_beg r1 then Some hash_region_empty
      else
        (let inner = key_range_intersection (hr_inner r1) (hr_inner r2)
         in if key_range_is_empty inner then Some hash_region_empty
            else hash_region_make (max (hr_beg r1) (hr_beg r2)) (min (hr_end r1) (hr_end r2)) inner))"

definition region_overlaps :: "hash_region \<Rightarrow> hash_region \<Rightarrow> bool" where
  "region_overlaps r1 r2 \<longleftrightarrow>
     hr_beg r1 < hr_end r2 \<and> hr_beg r2 < hr_end r1 \<and>
     key_range_overlaps (hr_inner r1) (hr_inner r2)"

definition all_have_same_hash_interval :: "hash_region list \<Rightarrow> bool" where
  "all_have_same_hash_interval vec \<longleftrightarrow>
     (\<forall>r \<in> set (tl vec). hr_beg r = hr_beg (hd vec) \<and> hr_end r = hr_end (hd vec))"

definition all_have_same_inner :: "hash_region list \<Rightarrow> bool" where
  "all_have_same_inner vec \<longleftrightarrow> (\<forall>r \<in> set (tl vec). hr_inner (hd vec) = hr_inner r)"

definition drop_cpu_sharding :: "hash_region \<Rightarrow> hash_region option" where
  "drop_cpu_sharding r = hash_region_make 0 HASH_REGION_HASH_SIZE (hr_inner r)"

definition hash_region_less :: "hash_region \<Rightarrow> hash_region \<Rightarrow> bool" where
  "hash_region_less r1 r2 \<longleftrightarrow>
     hr_beg r1 < hr_beg r2 \<or>
     hr_beg r1 = hr_beg r2 \<and>
       (hr_end r1 < hr_end r2 \<or> hr_end r1 = hr_end r2 \<and> key_range_less (hr_inner r1) (hr_inner r2))"

definition region_contains_key_with_precomputed_hash :: "hash_region \<Rightarrow> store_key \<Rightarrow> u64 \<Rightarrow> bool" where
  "region_contains_key_with_precomputed_hash r k h =
     (if hr_beg r \<le> h \<and> h < hr_end r then contains_key (hr_inner r) k else False)"

definition region_contains_key :: "hash_region \<Rightarrow> store_key \<Rightarrow> bool" where
  "region_contains_key r k =
     region_contains_key_with_precomputed_hash r k (hash_region_hasher k)"

text \<open>The parts \<open>x\<close>, \<open>z\<close>, \<open>l\<close> and \<open>r\<close> of the subtraction drawing, in the order they are pushed.\<close>

definition hash_region_subtract :: "hash_region \<Rightarrow> hash_region \<Rightarrow> hash_region list option" where
  "hash_region_subtract m s =
     do {
       let isect_beg = (if hr_beg m < hr_beg s then min (hr_beg s) (hr_end m)
                        else max (hr_beg m) (hr_beg s));
       let isect_end = (if hr_end s < hr_end m then max (hr_beg m) (hr_end s)
                        else min (hr_end m) (hr_end s));
       x \<leftarrow> (if hr_beg m < hr_beg s
            then map_option (\<lambda>p. [p]) (hash_region_make (hr_beg m) isect_beg (hr_inner m))
            else Some []);
       z \<leftarrow> (if hr_end s < hr_end m
            then map_option (\<lambda>p. [p]) (hash_region_make isect_end (hr_end m) (hr_inner m))
            else Some []);
       lr \<leftarrow> (if isect_beg < isect_end
             then do {
               lr_inner \<leftarrow> key_region_subtract_many (hr_inner m) [hr_inner s];
               map_concat_opt (\<lambda>i. map_option (\<lambda>p. [p]) (hash_region_make isect_beg isect_end i)) lr_inner
             }
             else Some []);
       Some (x @ z @ lr)
     }"

definition region_subtract_many :: "hash_region \<Rightarrow> hash_region list \<Rightarrow> hash_region list option" where
  "region_subtract_many minuend subtrahends =
     fold_opt (\<lambda>s buf. map_concat_opt (\<lambda>m. hash_region_subtract m s) buf) subtrahends [minuend]"

subsection \<open>Joining hash regions\<close>

text \<open>
  The splitpoints are indices \<open>i\<close> into \<open>vec\<close> twice over: an even \<open>i\<close> is the low end of
  \<open>vec[i / 2]\<close>, an odd one the high end. The null pointer of an unbounded key end is
  \<^const>\<open>Unbounded\<close>.
\<close>

definition double_hash_lookup :: "hash_region list \<Rightarrow> nat \<Rightarrow> u64" where
  "double_hash_lookup vec i = (if i mod 2 = 0 then hr_beg (vec ! (i div 2)) else hr_end (vec ! (i div 2)))"

definition double_key_lookup :: "hash_region list \<Rightarrow> nat \<Rightarrow> right_bound" where
  "double_key_lookup vec i =
     (let r = vec ! (i div 2)
      in if i mod 2 = 0 then Bound (kr_left (hr_inner r)) else kr_right (hr_inner r))"

text \<open>Both comparers order the splitpoints by the value they look up.\<close>

definition splitpoint_less :: "('v::linorder \<Rightarrow> 'v \<Rightarrow> bool) \<Rightarrow> (nat \<Rightarrow> 'v) \<Rightarrow> nat \<Rightarrow> nat \<Rightarrow> bool" where
  "splitpoint_less lt lookup i j \<longleftrightarrow> lt (lookup i) (lookup j)"

definition splitpoints :: "(nat \<Rightarrow> 'v::linorder) \<Rightarrow> nat \<Rightarrow> nat list" where
  "splitpoints lookup n = unique_by (\<lambda>i j. lookup i = lookup j) (sort_key lookup [0..<2 * n])"

definition splitpoint_span :: "(nat \<Rightarrow> 'v::linorder) \<Rightarrow> nat list \<Rightarrow> nat \<Rightarrow> nat \<times> nat" where
  "splitpoint_span lookup pts i =
     (let beg_pos = lower_bound_by (splitpoint_less (<) lookup) pts (2 * i);
          end_pos = beg_pos + lower_bound_by (splitpoint_less (<) lookup) (drop beg_pos pts) (2 * i + 1)
      in (beg_pos, end_pos))"

text \<open>The cells of region \<open>i\<close>, row by row, as indices into \<open>covered\<close>.\<close>

definition region_cells :: "hash_region list \<Rightarrow> nat list \<Rightarrow> nat list \<Rightarrow> nat \<Rightarrow> nat \<Rightarrow> nat list" where
  "region_cells vec hs ks w i =
     (let (beg_pos, end_pos) = splitpoint_span (double_hash_lookup vec) hs i;
          (left_pos, right_pos) = splitpoint_span (double_key_lookup vec) ks i
      in concat (map (\<lambda>y. map (\<lambda>x. y * w + x) [left_pos..<right_pos]) [beg_pos..<end_pos]))"

text \<open>Marking a cell that is already covered ends the join; \<open>None\<close> is that exit.\<close>

definition cover_cell :: "nat \<Rightarrow> bool list \<times> nat \<Rightarrow> (bool list \<times> nat) option" where
  "cover_cell ix st =
     (case st of (covered, num_covered) \<Rightarrow>
        if covered ! ix then None else Some (covered[ix := True], num_covered + 1))"

definition cover_regions :: "hash_region list \<Rightarrow> nat list \<Rightarrow> nat list \<Rightarrow> nat \<Rightarrow> nat \<Rightarrow> (bool list \<times> nat) option" where
  "cover_regions vec hs ks w h =
     fold_opt (\<lambda>i. fold_opt cover_cell (region_cells vec hs ks w i)) [0..<length vec]
       (replicate (w * h) False, 0)"

definition INT_MAX :: int where
  "INT_MAX = 2 ^ 31 - 1"

definition region_join_output :: "hash_region list \<Rightarrow> nat list \<Rightarrow> nat list \<Rightarrow> hash_region option" where
  "region_join_output vec hs ks =
     (let out_left = double_key_lookup vec (hd ks);
          out_right = double_key_lookup vec (last ks);
          out_beg = double_hash_lookup vec (hd hs);
          out_end = double_hash_lookup vec (last hs)
      in case out_left of
           Unbounded \<Rightarrow> None
         | Bound left \<Rightarrow>
             (case out_right of
                Bound right \<Rightarrow>
                  do { inner \<leftarrow> key_range_init Closed_bound left Open_bound right;
                       hash_region_make out_beg out_end inner }
              | Unbounded \<Rightarrow>
                  do { inner \<leftarrow> key_range_init Closed_bound left None_bound store_key_min;
                       hash_region_make out_beg out_end inner }))"

definition region_join :: "hash_region list \<Rightarrow> hash_region join_result option" where
  "region_join vec =
     (let hs = splitpoints (double_hash_lookup vec) (length vec);
          ks = splitpoints (double_key_lookup vec) (length vec);
          granular_height = length hs - 1;
          granular_width = length ks - 1
      in if granular_width = 0 \<or> granular_height = 0
         then (if \<forall>hr \<in> set vec. region_is_empty hr
               then Some (REGION_JOIN_OK hash_region_empty) else None)
         else if \<not> int granular_width < INT_MAX div int granular_height then None
         else
           (case cover_regions vec hs ks granular_width granular_height of
              None \<Rightarrow> Some REGION_JOIN_BAD_JOIN
            | Some (covered, num_covered) \<Rightarrow>
                if num_covered < granular_width * granular_height
                then Some REGION_JOIN_BAD_REGION
                else map_option REGION_JOIN_OK (region_join_output vec hs ks)))"

subsection \<open>The wire format of a hash region\<close>

definition serialize_hash_region :: "store_key \<Rightarrow> hash_region \<Rightarrow> u8 list" where
  "serialize_hash_region internal_key r =
     serialize_u64 (hr_beg r) @ serialize_u64 (hr_end r) @
     serialize_key_range internal_key (hr_inner r)"

definition deserialize_hash_region :: "hash_region deserializer" where
  "deserialize_hash_region s =
     (case deserialize_u64 s of
        (Inl e, s1) \<Rightarrow> (Inl e, s1)
      | (Inr b, s1) \<Rightarrow>
          (case deserialize_u64 s1 of
             (Inl e, s2) \<Rightarrow> (Inl e, s2)
           | (Inr e, s2) \<Rightarrow>
               (if \<not> (0 = e \<and> 0 = b \<or> b < e) then (Inl RANGE_ERROR, s2)
                else
                  (case deserialize_key_range s2 of
                     (Inl er, s3) \<Rightarrow> (Inl er, s3)
                   | (Inr inner, s3) \<Rightarrow>
                       (Inr \<lparr>hr_beg = b, hr_end = e, hr_inner = inner\<rparr>, s3)))))"


section \<open>What a kind of region promises\<close>

text \<open>
  \<open>points\<close> is the set a region stands for. The tests and the intersection agree with it on
  well-formed regions, and the intersection does not abort.
\<close>

locale region_space =
  fixes points :: "'r \<Rightarrow> 'p set"
    and ok :: "'r \<Rightarrow> bool"
    and is_empty :: "'r \<Rightarrow> bool"
    and superset :: "'r \<Rightarrow> 'r \<Rightarrow> bool"
    and overlaps :: "'r \<Rightarrow> 'r \<Rightarrow> bool"
    and inter :: "'r \<Rightarrow> 'r \<Rightarrow> 'r option"
  assumes empty_iff: "ok r \<Longrightarrow> is_empty r \<longleftrightarrow> points r = {}"
    and superset_iff: "ok a \<Longrightarrow> ok b \<Longrightarrow> superset a b \<longleftrightarrow> points b \<subseteq> points a"
    and overlaps_iff: "ok a \<Longrightarrow> ok b \<Longrightarrow> overlaps a b \<longleftrightarrow> points a \<inter> points b \<noteq> {}"
    and inter_points:
      "ok a \<Longrightarrow> ok b \<Longrightarrow> \<exists>c. inter a b = Some c \<and> ok c \<and> points c = points a \<inter> points b"
begin

lemma overlaps_inter:
  assumes "ok a" and "ok b"
  shows "overlaps a b \<longleftrightarrow> (\<exists>c. inter a b = Some c \<and> \<not> is_empty c)"
  using overlaps_iff [OF assms] inter_points [OF assms] empty_iff by auto

lemma superset_trans:
  "ok a \<Longrightarrow> ok b \<Longrightarrow> ok c \<Longrightarrow> superset a b \<Longrightarrow> superset b c \<Longrightarrow> superset a c"
  by (auto simp: superset_iff)

lemma inter_greatest:
  assumes "ok a" and "ok b" and "ok r"
  shows "\<exists>c. inter a b = Some c \<and> (superset c r \<longleftrightarrow> superset a r \<and> superset b r)"
  using inter_points [OF assms(1,2)] assms by (auto simp: superset_iff)

lemma superset_overlaps:
  "ok a \<Longrightarrow> ok b \<Longrightarrow> ok r \<Longrightarrow> superset a b \<Longrightarrow> overlaps b r \<Longrightarrow> overlaps a r"
  by (auto simp: superset_iff overlaps_iff)

end

definition disjoint_pieces :: "('r \<Rightarrow> 'p set) \<Rightarrow> 'r list \<Rightarrow> bool" where
  "disjoint_pieces points ps \<longleftrightarrow> sorted_wrt (\<lambda>a b. points a \<inter> points b = {}) ps"

text \<open>\<open>cuts points ok m rest ps\<close>: the pieces are what is left of \<open>m\<close>, without overlaps.\<close>

definition cuts :: "('r \<Rightarrow> 'p set) \<Rightarrow> ('r \<Rightarrow> bool) \<Rightarrow> 'p set \<Rightarrow> 'r list \<Rightarrow> bool" where
  "cuts points ok rest ps \<longleftrightarrow>
     (\<forall>p \<in> set ps. ok p \<and> points p \<noteq> {}) \<and> (\<Union>p \<in> set ps. points p) = rest \<and>
     disjoint_pieces points ps"

lemma map_concat_opt_all2:
  assumes "\<And>x. x \<in> set xs \<Longrightarrow> \<exists>ys. f x = Some ys \<and> Q x ys"
  shows "\<exists>yss. map_concat_opt f xs = Some (concat yss) \<and> list_all2 Q xs yss"
  using assms
proof (induction xs)
  case Nil
  then show ?case by (intro exI [of _ "[]"]) simp
next
  case (Cons x xs)
  obtain ys where "f x = Some ys" "Q x ys" using Cons.prems by auto
  moreover obtain yss where "map_concat_opt f xs = Some (concat yss)" "list_all2 Q xs yss"
    using Cons by force
  ultimately show ?case by (intro exI [of _ "ys # yss"]) simp
qed

lemma cuts_subset: "cuts points ok S ps \<Longrightarrow> p \<in> set ps \<Longrightarrow> points p \<subseteq> S"
  unfolding cuts_def by blast

lemma cuts_append:
  assumes ps: "cuts points ok S ps" and qs: "cuts points ok T qs" and "S \<inter> T = {}"
  shows "cuts points ok (S \<union> T) (ps @ qs)"
proof -
  have "points p \<inter> points q = {}" if "p \<in> set ps" "q \<in> set qs" for p q
    using cuts_subset [OF ps that(1)] cuts_subset [OF qs that(2)] assms(3) by blast
  moreover have "\<forall>p \<in> set (ps @ qs). ok p \<and> points p \<noteq> {}"
    and "(\<Union>p \<in> set (ps @ qs). points p) = S \<union> T"
    using ps qs unfolding cuts_def set_append UN_Un by blast+
  ultimately show ?thesis
    using ps qs unfolding cuts_def disjoint_pieces_def by (simp add: sorted_wrt_append)
qed

lemma cuts_concat:
  assumes "list_all2 (\<lambda>m ps. cuts points ok (points m - R) ps) ms pss"
    and "disjoint_pieces points ms"
  shows "cuts points ok ((\<Union>m \<in> set ms. points m) - R) (concat pss)"
  using assms
proof (induction ms pss rule: list_all2_induct)
  case Nil
  then show ?case by (simp add: cuts_def disjoint_pieces_def)
next
  case (Cons m ms ps pss)
  have "points m \<inter> points n = {}" if "n \<in> set ms" for n
    using Cons.prems that unfolding disjoint_pieces_def sorted_wrt.simps by blast
  then have disj: "(points m - R) \<inter> ((\<Union>m \<in> set ms. points m) - R) = {}" by blast
  have "cuts points ok ((\<Union>m \<in> set ms. points m) - R) (concat pss)"
    using Cons.prems by (intro Cons.IH) (simp add: disjoint_pieces_def)
  then have "cuts points ok ((points m - R) \<union> ((\<Union>m \<in> set ms. points m) - R)) (ps @ concat pss)"
    by (rule cuts_append [OF Cons.hyps(1) _ disj])
  then show ?case by (simp add: Un_Diff)
qed

locale region_difference =
  fixes points :: "'r \<Rightarrow> 'p set"
    and ok :: "'r \<Rightarrow> bool"
    and diff :: "'r \<Rightarrow> 'r \<Rightarrow> 'r list option"
  assumes diff_cuts:
    "ok m \<Longrightarrow> points m \<noteq> {} \<Longrightarrow> ok s \<Longrightarrow> \<exists>ps. diff m s = Some ps \<and> cuts points ok (points m - points s) ps"
begin

lemma diff_all_cuts:
  assumes "cuts points ok M ms" and "ok s"
  shows "\<exists>ps. map_concat_opt (\<lambda>m. diff m s) ms = Some ps \<and> cuts points ok (M - points s) ps"
proof -
  have "\<exists>ps. diff m s = Some ps \<and> cuts points ok (points m - points s) ps" if "m \<in> set ms" for m
    using assms that by (intro diff_cuts) (auto simp: cuts_def)
  then obtain pss
    where "map_concat_opt (\<lambda>m. diff m s) ms = Some (concat pss)"
      and "list_all2 (\<lambda>m ps. cuts points ok (points m - points s) ps) ms pss"
    using map_concat_opt_all2 [of ms "\<lambda>m. diff m s" "\<lambda>m ps. cuts points ok (points m - points s) ps"]
    by blast
  moreover have "disjoint_pieces points ms" and "(\<Union>m \<in> set ms. points m) = M"
    using assms(1) unfolding cuts_def by blast+
  ultimately show ?thesis
    using cuts_concat [of points ok "points s" ms pss] by simp
qed

lemma diff_many_cuts:
  assumes "cuts points ok M ms" and "\<And>s. s \<in> set ss \<Longrightarrow> ok s"
  shows "\<exists>ps. fold_opt (\<lambda>s buf. map_concat_opt (\<lambda>m. diff m s) buf) ss ms = Some ps \<and>
              cuts points ok (M - (\<Union>s \<in> set ss. points s)) ps"
  using assms
proof (induction ss arbitrary: M ms)
  case Nil
  then show ?case by simp
next
  case (Cons s ss)
  obtain ps where ps: "map_concat_opt (\<lambda>m. diff m s) ms = Some ps"
    "cuts points ok (M - points s) ps"
    using diff_all_cuts Cons.prems by force
  have eq: "M - points s - (\<Union>s \<in> set ss. points s) = M - (\<Union>s \<in> set (s # ss). points s)" by auto
  have "\<exists>qs. fold_opt (\<lambda>s buf. map_concat_opt (\<lambda>m. diff m s) buf) ss ps = Some qs \<and>
      cuts points ok (M - points s - (\<Union>s \<in> set ss. points s)) qs"
    using Cons.prems(2) by (intro Cons.IH ps(2)) simp
  then show ?case unfolding eq using ps(1) by simp
qed

lemma diff_many_one:
  assumes "ok m" and "points m \<noteq> {}" and "\<And>s. s \<in> set ss \<Longrightarrow> ok s"
  shows "\<exists>ps. fold_opt (\<lambda>s buf. map_concat_opt (\<lambda>m. diff m s) buf) ss [m] = Some ps \<and>
              cuts points ok (points m - (\<Union>s \<in> set ss. points s)) ps"
  using assms by (intro diff_many_cuts) (simp_all add: cuts_def disjoint_pieces_def)

end

section \<open>Key ranges\<close>

interpretation keys: region_space key_set key_range_ok key_range_is_empty key_range_is_superset
  key_range_overlaps "\<lambda>a b. Some (key_range_intersection a b)"
  by unfold_locales
    (simp_all add: key_range_is_empty_iff key_range_is_superset_iff key_range_overlaps_iff
      key_range_intersection_set key_range_intersection_ok)

lemma cuts_optional:
  assumes "key_range_ok a" and "key_range_ok b" and "key_set a \<inter> key_set b = {}"
  shows "cuts key_set key_range_ok (key_set a \<union> key_set b)
    ((if \<not> key_range_is_empty a then [a] else []) @ (if \<not> key_range_is_empty b then [b] else []))"
  using assms
  by (cases "key_range_is_empty a"; cases "key_range_is_empty b")
    (simp_all add: cuts_def disjoint_pieces_def key_range_is_empty_iff)

lemma key_range_subtract_cuts:
  assumes m: "key_range_ok m" and s: "key_range_ok s"
  shows "\<exists>ps. key_range_subtract m s = Some ps \<and>
              cuts key_set key_range_ok (key_set m - key_set s) ps"
proof -
  let ?below = "\<lparr>kr_left = store_key_min, kr_right = Bound (kr_left s)\<rparr>"
  have ok_l: "key_ok (kr_left s)" using s by (simp add: key_range_ok_def)
  have below: "key_range_init None_bound store_key_min Open_bound (kr_left s) = Some ?below"
    by (simp add: key_range_init_def key_range_init_left_def key_range_init_right_def)
  have below_ok: "key_range_ok ?below" and below_set: "key_set ?below = {k. key_ok k \<and> k < kr_left s}"
    using ok_l by (auto simp: key_range_ok_def in_key_set)
  let ?l = "key_range_intersection m ?below"
  have l: "key_range_ok ?l" "key_set ?l = {k \<in> key_set m. k < kr_left s}"
    using m below_ok unfolding key_range_intersection_set below_set
    by (auto simp: key_range_intersection_ok in_key_set [of _ m])
  show ?thesis
  proof (cases "kr_right s")
    case Unbounded
    have "key_set m - key_set s = key_set ?l"
      unfolding l(2) using Unbounded by (auto simp: in_key_set)
    then show ?thesis
      using cuts_optional [OF l(1) key_range_empty_ok(1)] below Unbounded
        key_range_is_empty_iff [OF key_range_empty_ok(1)]
      by (simp add: key_range_subtract_def Let_def)
  next
    case (Bound k)
    let ?above = "\<lparr>kr_left = k, kr_right = Unbounded\<rparr>"
    have k: "key_ok k" "kr_left s \<le> k" using s Bound by (simp_all add: key_range_ok_def)
    have above: "key_range_init Closed_bound k None_bound store_key_min = Some ?above"
      by (simp add: key_range_init_def key_range_init_left_def key_range_init_right_def)
    have above_ok: "key_range_ok ?above" using k by (simp add: key_range_ok_def)
    let ?r = "key_range_intersection m ?above"
    have r: "key_range_ok ?r" "key_set ?r = {j \<in> key_set m. k \<le> j}"
      using m above_ok unfolding key_range_intersection_set
      by (auto simp: key_range_intersection_ok in_key_set)
    have "key_set m - key_set s = key_set ?l \<union> key_set ?r" and "key_set ?l \<inter> key_set ?r = {}"
      unfolding l(2) r(2) using Bound k(2) by (auto simp: in_key_set)
    then show ?thesis
      using cuts_optional [OF l(1) r(1)] below above Bound
      by (simp add: key_range_subtract_def Let_def)
  qed
qed

interpretation keys: region_difference key_set key_range_ok key_range_subtract
  by unfold_locales (rule key_range_subtract_cuts)


section \<open>Hash regions\<close>

text \<open>The empty region has one representation; every other has a proper interval and range.\<close>

definition hash_region_ok :: "hash_region \<Rightarrow> bool" where
  "hash_region_ok r \<longleftrightarrow>
     r = hash_region_empty \<or>
     hr_beg r < hr_end r \<and> key_range_ok (hr_inner r) \<and> \<not> key_range_is_empty (hr_inner r)"

definition region_points :: "hash_region \<Rightarrow> (u64 \<times> store_key) set" where
  "region_points r = {h. hr_beg r \<le> h \<and> h < hr_end r} \<times> key_set (hr_inner r)"

lemma region_points_empty [simp]: "region_points hash_region_empty = {}"
  by (simp add: region_points_def hash_region_empty_def)

lemma hash_region_empty_ok [simp]: "hash_region_ok hash_region_empty"
  by (simp add: hash_region_ok_def)

lemma region_is_empty_empty [simp]: "region_is_empty hash_region_empty"
  by (simp add: region_is_empty_def hash_region_empty_def)

lemma hash_region_cases:
  assumes "hash_region_ok r"
  obtains (empty) "r = hash_region_empty" "region_is_empty r" "region_points r = {}"
  | (proper) "hr_beg r < hr_end r" "key_range_ok (hr_inner r)" "key_set (hr_inner r) \<noteq> {}"
      "\<not> region_is_empty r" "region_points r \<noteq> {}"
proof (cases "r = hash_region_empty")
  case True
  then show thesis by (intro empty) simp_all
next
  case False
  then have r: "hr_beg r < hr_end r" "key_range_ok (hr_inner r)" "\<not> key_range_is_empty (hr_inner r)"
    using assms by (auto simp: hash_region_ok_def)
  then have "(hr_beg r, kr_left (hr_inner r)) \<in> region_points r"
    using left_in_key_set by (simp add: region_points_def)
  with r show thesis
    by (intro proper) (auto simp: region_is_empty_def key_range_is_empty_iff [symmetric])
qed

lemma interval_subset_iff:
  fixes a b c d :: "'a::linorder"
  assumes "c < d" and "a < b"
  shows "{h. c \<le> h \<and> h < d} \<subseteq> {h. a \<le> h \<and> h < b} \<longleftrightarrow> a \<le> c \<and> d \<le> b"
proof
  assume sub: "{h. c \<le> h \<and> h < d} \<subseteq> {h. a \<le> h \<and> h < b}"
  have "c \<in> {h. c \<le> h \<and> h < d}" using assms by simp
  then have c: "a \<le> c" "c < b" using sub by auto
  moreover have "d \<le> b"
  proof (rule ccontr)
    assume "\<not> d \<le> b"
    then have "b \<in> {h. c \<le> h \<and> h < d}" using c by auto
    then show False using sub by auto
  qed
  ultimately show "a \<le> c \<and> d \<le> b" by simp
qed auto

lemma region_is_superset_iff:
  assumes a: "hash_region_ok a" and b: "hash_region_ok b"
  shows "region_is_superset a b \<longleftrightarrow> region_points b \<subseteq> region_points a"
  using b
proof (cases rule: hash_region_cases)
  case empty
  then show ?thesis by (simp add: region_is_superset_def)
next
  case b': proper
  from a show ?thesis
  proof (cases rule: hash_region_cases)
    case empty
    then show ?thesis using b' by (auto simp: region_is_superset_def hash_region_empty_def)
  next
    case a': proper
    have ne: "{h. hr_beg b \<le> h \<and> h < hr_end b} \<noteq> {}" using b'(1) by blast
    have "region_points b \<subseteq> region_points a \<longleftrightarrow>
        {h. hr_beg b \<le> h \<and> h < hr_end b} \<subseteq> {h. hr_beg a \<le> h \<and> h < hr_end a} \<and>
        key_set (hr_inner b) \<subseteq> key_set (hr_inner a)"
      unfolding region_points_def using ne b'(3) by (auto simp: times_subset_iff)
    then show ?thesis
      using b' a'(2) interval_subset_iff [OF b'(1) a'(1)] key_range_is_superset_iff [OF a'(2) b'(2)]
      by (simp add: region_is_superset_def)
  qed
qed

lemma region_points_Int:
  "region_points a \<inter> region_points b =
     {h. max (hr_beg a) (hr_beg b) \<le> h \<and> h < min (hr_end a) (hr_end b)} \<times>
     (key_set (hr_inner a) \<inter> key_set (hr_inner b))"
  unfolding region_points_def by auto

lemma region_overlaps_iff:
  assumes a: "hash_region_ok a" and b: "hash_region_ok b"
  shows "region_overlaps a b \<longleftrightarrow> region_points a \<inter> region_points b \<noteq> {}"
  using a
proof (cases rule: hash_region_cases)
  case empty
  then show ?thesis by (auto simp: region_overlaps_def hash_region_empty_def key_range_overlaps_def)
next
  case a': proper
  from b show ?thesis
  proof (cases rule: hash_region_cases)
    case empty
    then show ?thesis by (auto simp: region_overlaps_def hash_region_empty_def)
  next
    case b': proper
    have "{h. max (hr_beg a) (hr_beg b) \<le> h \<and> h < min (hr_end a) (hr_end b)} \<noteq> {} \<longleftrightarrow>
        max (hr_beg a) (hr_beg b) < min (hr_end a) (hr_end b)"
      by (metis (mono_tags, lifting) empty_iff ex_in_conv mem_Collect_eq order.refl order.strict_trans1)
    then show ?thesis
      unfolding region_points_Int using key_range_overlaps_iff [OF a'(2) b'(2)] a'(1) b'(1)
      by (auto simp: region_overlaps_def)
  qed
qed

lemma hash_region_make_ok:
  assumes "b < e" and "key_range_ok inner" and "key_set inner \<noteq> {}"
  shows "\<exists>r. hash_region_make b e inner = Some r \<and> hash_region_ok r \<and>
             region_points r = {h. b \<le> h \<and> h < e} \<times> key_set inner"
  using assms
  by (simp add: hash_region_make_def key_range_is_empty_iff hash_region_ok_def region_points_def)

lemma region_intersection_points:
  assumes a: "hash_region_ok a" and b: "hash_region_ok b"
  shows "\<exists>c. region_intersection a b = Some c \<and> hash_region_ok c \<and>
             region_points c = region_points a \<inter> region_points b"
proof (cases "hr_end a \<le> hr_beg b \<or> hr_end b \<le> hr_beg a")
  case True
  then have "region_points a \<inter> region_points b = {}" by (auto simp: region_points_def)
  with True show ?thesis by (simp add: region_intersection_def)
next
  case False
  then have proper: "hr_beg a < hr_end a" "hr_beg b < hr_end b"
    using a b by (auto simp: hash_region_ok_def hash_region_empty_def)
  then have inner: "key_range_ok (hr_inner a)" "key_range_ok (hr_inner b)"
    using a b by (auto simp: hash_region_ok_def hash_region_empty_def)
  let ?i = "key_range_intersection (hr_inner a) (hr_inner b)"
  have i: "key_range_ok ?i" "key_set ?i = key_set (hr_inner a) \<inter> key_set (hr_inner b)"
    using inner by (simp_all add: key_range_intersection_ok key_range_intersection_set)
  show ?thesis
  proof (cases "key_set ?i = {}")
    case True
    then show ?thesis
      using False i key_range_is_empty_iff [OF i(1)]
      unfolding region_points_Int by (simp add: region_intersection_def)
  next
    case ne: False
    have "max (hr_beg a) (hr_beg b) < min (hr_end a) (hr_end b)"
      using False proper by auto
    from hash_region_make_ok [OF this i(1) ne] show ?thesis
      using False ne i key_range_is_empty_iff [OF i(1)]
      unfolding region_points_Int by (simp add: region_intersection_def)
  qed
qed

interpretation hash: region_space region_points hash_region_ok region_is_empty region_is_superset
  region_overlaps region_intersection
proof
  fix r assume "hash_region_ok r"
  then show "region_is_empty r \<longleftrightarrow> region_points r = {}"
    by (cases rule: hash_region_cases) auto
qed (use region_is_superset_iff region_overlaps_iff region_intersection_points in auto)


subsection \<open>Subtraction\<close>

lemma cuts_single:
  "ok p \<Longrightarrow> points p \<noteq> {} \<Longrightarrow> cuts points ok (points p) [p]"
  by (simp add: cuts_def disjoint_pieces_def)

lemma cuts_none: "cuts points ok {} []"
  by (simp add: cuts_def disjoint_pieces_def)

lemma make_piece_cuts:
  assumes "b < e" and "key_range_ok inner" and "key_set inner \<noteq> {}"
  shows "\<exists>ps. map_option (\<lambda>p. [p]) (hash_region_make b e inner) = Some ps \<and>
    cuts region_points hash_region_ok ({h. b \<le> h \<and> h < e} \<times> key_set inner) ps"
proof -
  obtain r where r: "hash_region_make b e inner = Some r" "hash_region_ok r"
    "region_points r = {h. b \<le> h \<and> h < e} \<times> key_set inner"
    using hash_region_make_ok [OF assms] by blast
  have "region_points r \<noteq> {}" using r(3) assms(1,3) by blast
  with r cuts_single [of hash_region_ok r region_points] show ?thesis by simp
qed

lemma make_pieces_cuts:
  assumes "cuts key_set key_range_ok K is" and "b < e"
  shows "\<exists>ps. map_concat_opt (\<lambda>i. map_option (\<lambda>p. [p]) (hash_region_make b e i)) is = Some ps \<and>
    cuts region_points hash_region_ok ({h. b \<le> h \<and> h < e} \<times> K) ps"
  using assms(1)
proof (induction "is" arbitrary: K)
  case Nil
  then show ?case by (simp add: cuts_def disjoint_pieces_def)
next
  case (Cons i "is")
  let ?H = "{h. b \<le> h \<and> h < e}" and ?U = "\<Union>j \<in> set is. key_set j"
  have i: "key_range_ok i" "key_set i \<noteq> {}" and K: "K = key_set i \<union> ?U"
    and disj: "key_set i \<inter> ?U = {}" and rest: "cuts key_set key_range_ok ?U is"
    using Cons.prems unfolding cuts_def disjoint_pieces_def by auto
  obtain ps where ps: "map_option (\<lambda>p. [p]) (hash_region_make b e i) = Some ps"
    "cuts region_points hash_region_ok (?H \<times> key_set i) ps"
    using make_piece_cuts [OF assms(2) i] by blast
  obtain qs where qs: "map_concat_opt (\<lambda>i. map_option (\<lambda>p. [p]) (hash_region_make b e i)) is = Some qs"
    "cuts region_points hash_region_ok (?H \<times> ?U) qs"
    using Cons.IH [OF rest] by blast
  have "?H \<times> key_set i \<inter> ?H \<times> ?U = {}" using disj by blast
  from cuts_append [OF ps(2) qs(2) this] show ?case
    using ps(1) qs(1) K by (auto simp: Sigma_Un_distrib2)
qed

lemma optional_piece_cuts:
  assumes "c \<Longrightarrow> b < e" and "key_range_ok inner" and "key_set inner \<noteq> {}"
    and "H = (if c then {h. b \<le> h \<and> h < e} else {})"
  obtains ps where
    "(if c then map_option (\<lambda>p. [p]) (hash_region_make b e inner) else Some []) = Some ps"
    "cuts region_points hash_region_ok (H \<times> key_set inner) ps"
  using assms make_piece_cuts [of b e inner] cuts_none [of region_points hash_region_ok]
  by (cases c) auto

lemma optional_pieces_cuts:
  assumes "cuts key_set key_range_ok K is"
  obtains ps where
    "(if b < e then map_concat_opt (\<lambda>i. map_option (\<lambda>p. [p]) (hash_region_make b e i)) is
      else Some []) = Some ps"
    "cuts region_points hash_region_ok ({h. b \<le> h \<and> h < e} \<times> K) ps"
proof (cases "b < e")
  case True
  then show thesis using make_pieces_cuts [OF assms True] that by auto
next
  case False
  then have none: "{h. b \<le> h \<and> h < e} = {}" by auto
  have "cuts region_points hash_region_ok ({h. b \<le> h \<and> h < e} \<times> K) []"
    unfolding none by (simp add: cuts_none)
  with False show thesis by (intro that) simp_all
qed

lemma hash_region_subtract_cuts:
  assumes m: "hash_region_ok m" and ne: "region_points m \<noteq> {}" and s: "hash_region_ok s"
  shows "\<exists>ps. hash_region_subtract m s = Some ps \<and>
    cuts region_points hash_region_ok (region_points m - region_points s) ps"
proof -
  have m': "hr_beg m < hr_end m" "key_range_ok (hr_inner m)" "key_set (hr_inner m) \<noteq> {}"
    using m ne by (cases rule: hash_region_cases; simp)+
  have s': "hr_beg s \<le> hr_end s" "key_range_ok (hr_inner s)" "hr_beg s = hr_end s \<Longrightarrow> hr_beg s = 0"
    using s by (cases rule: hash_region_cases; simp add: hash_region_empty_def)+
  define ib where "ib = (if hr_beg m < hr_beg s then min (hr_beg s) (hr_end m)
      else max (hr_beg m) (hr_beg s))"
  define ie where "ie = (if hr_end s < hr_end m then max (hr_beg m) (hr_end s)
      else min (hr_end m) (hr_end s))"
  let ?K = "key_set (hr_inner m)" and ?L = "key_set (hr_inner s)"
  define X where "X = {h. hr_beg m \<le> h \<and> h < hr_end m \<and> h < hr_beg s}"
  define Z where "Z = {h. hr_beg m \<le> h \<and> h < hr_end m \<and> hr_end s \<le> h}"
  define Y where "Y = {h. hr_beg m \<le> h \<and> h < hr_end m \<and> hr_beg s \<le> h \<and> h < hr_end s}"
  have Y: "{h. ib \<le> h \<and> h < ie} = Y"
    using m'(1) s'(1,3) by (auto simp: Y_def ib_def ie_def min_def max_def not_less split: if_splits)
  have X: "X = (if hr_beg m < hr_beg s then {h. hr_beg m \<le> h \<and> h < ib} else {})"
    and Z: "Z = (if hr_end s < hr_end m then {h. ie \<le> h \<and> h < hr_end m} else {})"
    using m'(1) by (auto simp: X_def Z_def ib_def ie_def)
  have pos: "hr_beg m < hr_beg s \<Longrightarrow> hr_beg m < ib" "hr_end s < hr_end m \<Longrightarrow> ie < hr_end m"
    using m'(1) by (auto simp: ib_def ie_def)
  obtain x where x: "(if hr_beg m < hr_beg s
      then map_option (\<lambda>p. [p]) (hash_region_make (hr_beg m) ib (hr_inner m)) else Some []) = Some x"
    "cuts region_points hash_region_ok (X \<times> ?K) x"
    by (rule optional_piece_cuts [OF pos(1) m'(2,3) X])
  obtain z where z: "(if hr_end s < hr_end m
      then map_option (\<lambda>p. [p]) (hash_region_make ie (hr_end m) (hr_inner m)) else Some []) = Some z"
    "cuts region_points hash_region_ok (Z \<times> ?K) z"
    by (rule optional_piece_cuts [OF pos(2) m'(2,3) Z])
  obtain lr_inner where inner: "key_region_subtract_many (hr_inner m) [hr_inner s] = Some lr_inner"
    "cuts key_set key_range_ok (?K - ?L) lr_inner"
    using keys.diff_many_one [of "hr_inner m" "[hr_inner s]"] m' s'(2)
    by (auto simp: key_region_subtract_many_def)
  obtain lr where lr: "(if ib < ie
      then map_concat_opt (\<lambda>i. map_option (\<lambda>p. [p]) (hash_region_make ib ie i)) lr_inner
      else Some []) = Some lr" "cuts region_points hash_region_ok (Y \<times> (?K - ?L)) lr"
    by (rule optional_pieces_cuts [OF inner(2), of ib ie, unfolded Y])
  have eq: "X \<times> ?K \<union> (Z \<times> ?K \<union> Y \<times> (?K - ?L)) = region_points m - region_points s"
    unfolding Y_def X_def Z_def region_points_def using s'(1) by auto
  have "X \<times> ?K \<inter> (Z \<times> ?K \<union> Y \<times> (?K - ?L)) = {}" and "Z \<times> ?K \<inter> Y \<times> (?K - ?L) = {}"
    unfolding Y_def X_def Z_def using s'(1) by auto
  then have "cuts region_points hash_region_ok (region_points m - region_points s) (x @ z @ lr)"
    unfolding eq [symmetric] by (intro cuts_append x z lr)
  moreover have "hash_region_subtract m s = Some (x @ z @ lr)"
    using x(1) z(1) lr(1) inner(1)
    unfolding hash_region_subtract_def ib_def [symmetric] ie_def [symmetric] Let_def
    by (auto split: if_splits)
  ultimately show ?thesis by blast
qed

interpretation hash: region_difference region_points hash_region_ok hash_region_subtract
  by unfold_locales (rule hash_region_subtract_cuts)


section \<open>Joins\<close>

text \<open>
  What a join reports: the region the pieces tile, that two pieces overlap, or that no region is
  the union of the pieces.
\<close>

definition join_reports ::
  "('r \<Rightarrow> 'p set) \<Rightarrow> ('r \<Rightarrow> bool) \<Rightarrow> 'r list \<Rightarrow> 'r join_result \<Rightarrow> bool" where
  "join_reports points ok vec res \<longleftrightarrow>
     (case res of
        REGION_JOIN_OK r \<Rightarrow>
          ok r \<and> points r = (\<Union>p \<in> set vec. points p) \<and> disjoint_pieces points vec
      | REGION_JOIN_BAD_JOIN \<Rightarrow> \<not> disjoint_pieces points vec
      | REGION_JOIN_BAD_REGION \<Rightarrow> \<not> (\<exists>r. ok r \<and> points r = (\<Union>p \<in> set vec. points p)))"

locale region_joiner =
  fixes points :: "'r \<Rightarrow> 'p set"
    and ok :: "'r \<Rightarrow> bool"
    and small :: "'r list \<Rightarrow> bool"
    and join :: "'r list \<Rightarrow> 'r join_result option"
  assumes join_reports:
    "small vec \<Longrightarrow> (\<And>p. p \<in> set vec \<Longrightarrow> ok p \<and> points p \<noteq> {}) \<Longrightarrow>
      \<exists>res. join vec = Some res \<and> join_reports points ok vec res"
begin

text \<open>A tiling of a region is always joined back to that region.\<close>

lemma join_complete:
  assumes "small vec" and "cuts points ok (points r) vec" and "ok r"
  shows "\<exists>r'. join vec = Some (REGION_JOIN_OK r') \<and> ok r' \<and> points r' = points r"
proof -
  obtain res where "join vec = Some res" "join_reports points ok vec res"
    using join_reports [OF assms(1)] assms(2) unfolding cuts_def by blast
  moreover have "disjoint_pieces points vec" "(\<Union>p \<in> set vec. points p) = points r"
    using assms(2) unfolding cuts_def by blast+
  ultimately show ?thesis
    using assms(3) by (cases res) (auto simp: join_reports_def)
qed

end

lemma sorted_wrt_move:
  assumes "\<And>a b. P a b \<longleftrightarrow> P b a"
  shows "sorted_wrt P (u @ x # v) \<longleftrightarrow> sorted_wrt P (x # u @ v)"
  using assms by (auto simp: sorted_wrt_append)

lemma disjoint_pieces_perm:
  "mset xs = mset ys \<Longrightarrow> disjoint_pieces points xs \<longleftrightarrow> disjoint_pieces points ys"
proof (induction xs arbitrary: ys)
  case Nil
  then show ?case by simp
next
  case (Cons x xs)
  then have "x \<in> set ys" by (metis list.set_intros(1) set_mset_mset)
  then obtain u v where ys: "ys = u @ x # v" by (meson split_list)
  then have "mset xs = mset (u @ v)" using Cons.prems by simp
  then have "disjoint_pieces points xs \<longleftrightarrow> disjoint_pieces points (u @ v)"
    and "set xs = set (u @ v)"
    using Cons.IH by (blast, metis set_mset_mset)
  then have "disjoint_pieces points (x # xs) \<longleftrightarrow> disjoint_pieces points (x # u @ v)"
    by (simp add: disjoint_pieces_def)
  also have "\<dots> \<longleftrightarrow> disjoint_pieces points ys"
    unfolding ys disjoint_pieces_def by (rule sorted_wrt_move [symmetric]) auto
  finally show ?case .
qed

subsection \<open>Joining key ranges\<close>

lemma region_join_cursor_ok:
  assumes "region_join_cursor c rs = REGION_JOIN_OK c'"
    and "\<And>r. r \<in> set rs \<Longrightarrow> key_range_ok r \<and> key_set r \<noteq> {}"
  shows "c \<le> c' \<and> (\<Union>r \<in> set rs. key_set r) = {k. key_ok k \<and> c \<le> Bound k \<and> Bound k < c'} \<and>
         disjoint_pieces key_set rs"
  using assms
proof (induction rs arbitrary: c)
  case Nil
  then show ?case by (auto simp: disjoint_pieces_def)
next
  case (Cons r rs)
  have r: "key_range_ok r" "key_set r \<noteq> {}" using Cons.prems(2) by auto
  have c: "c = Bound (kr_left r)" and tail: "region_join_cursor (kr_right r) rs = REGION_JOIN_OK c'"
    using Cons.prems(1) by (auto split: if_splits)
  have IH: "kr_right r \<le> c'" "disjoint_pieces key_set rs"
    "(\<Union>r \<in> set rs. key_set r) = {k. key_ok k \<and> kr_right r \<le> Bound k \<and> Bound k < c'}"
    using Cons.IH [OF tail] Cons.prems(2) by auto
  have le: "c \<le> kr_right r" using key_range_ok_left [OF r(1)] c by simp
  have set_r: "key_set r = {k. key_ok k \<and> c \<le> Bound k \<and> Bound k < kr_right r}"
    using c by (auto simp: in_key_set)
  have "(\<Union>r \<in> set (r # rs). key_set r) = {k. key_ok k \<and> c \<le> Bound k \<and> Bound k < c'}"
    using IH(1,3) le set_r by auto
  moreover have "key_set r \<inter> (\<Union>r \<in> set rs. key_set r) = {}"
    unfolding IH(3) set_r by auto
  ultimately show ?case
    using IH(1,2) le by (auto simp: disjoint_pieces_def)
qed

lemma region_join_cursor_bad_join:
  assumes "region_join_cursor (kr_right p) rs = REGION_JOIN_BAD_JOIN"
    and "sorted (map kr_left (p # rs))" and "\<And>r. r \<in> set rs \<Longrightarrow> key_range_ok r \<and> key_set r \<noteq> {}"
  shows "\<not> disjoint_pieces key_set (p # rs)"
  using assms
proof (induction rs arbitrary: p)
  case (Cons r rs)
  show ?case
  proof (cases "kr_right p > Bound (kr_left r)")
    case True
    have "kr_left r \<in> key_set r"
      using Cons.prems(3) [of r] left_in_key_set [of r] by (simp add: key_range_is_empty_iff)
    moreover have "kr_left r \<in> key_set p"
      using True Cons.prems(2) calculation by (simp add: in_key_set)
    ultimately show ?thesis by (auto simp: disjoint_pieces_def)
  next
    case False
    then have "region_join_cursor (kr_right r) rs = REGION_JOIN_BAD_JOIN"
      using Cons.prems(1) by (auto split: if_splits)
    then have "\<not> disjoint_pieces key_set (r # rs)"
      using Cons.prems by (intro Cons.IH) auto
    then show ?thesis by (simp add: disjoint_pieces_def)
  qed
qed simp

lemma region_join_cursor_gap:
  assumes "region_join_cursor (kr_right p) rs = REGION_JOIN_BAD_REGION"
    and "sorted (map kr_left (p # rs))"
    and "\<And>r. r \<in> set (p # rs) \<Longrightarrow> key_range_ok r \<and> key_set r \<noteq> {}"
  shows "\<exists>k. key_ok k \<and> kr_left p < k \<and> k \<notin> (\<Union>r \<in> set (p # rs). key_set r) \<and>
             (\<exists>b \<in> (\<Union>r \<in> set (p # rs). key_set r). k < b)"
  using assms
proof (induction rs arbitrary: p)
  case (Cons r rs)
  have p: "key_range_ok p" "kr_left p \<in> key_set p"
    and r: "kr_left r \<in> key_set r"
    using Cons.prems(3) left_in_key_set by (auto simp: key_range_is_empty_iff)
  show ?case
  proof (cases "kr_right p < Bound (kr_left r)")
    case True
    then obtain k where k: "kr_right p = Bound k" "k < kr_left r" by (cases "kr_right p") auto
    have "key_ok k" using p(1) k by (simp add: key_range_ok_def)
    moreover have "kr_left p < k" using p(2) k by (simp add: in_key_set)
    moreover have "k \<notin> (\<Union>r \<in> set (p # r # rs). key_set r)"
      using k Cons.prems(2) by (auto simp: in_key_set)
    ultimately show ?thesis using r k(2) by auto
  next
    case False
    then have right: "kr_right p = Bound (kr_left r)"
      and "region_join_cursor (kr_right r) rs = REGION_JOIN_BAD_REGION"
      using Cons.prems(1) by (auto split: if_splits)
    then have "\<exists>k. key_ok k \<and> kr_left r < k \<and> k \<notin> (\<Union>r \<in> set (r # rs). key_set r) \<and>
        (\<exists>b \<in> (\<Union>r \<in> set (r # rs). key_set r). k < b)"
      using Cons.prems by (intro Cons.IH) auto
    then obtain k b where k: "key_ok k" "kr_left r < k" "k \<notin> (\<Union>r \<in> set (r # rs). key_set r)"
      "b \<in> (\<Union>r \<in> set (r # rs). key_set r)" "k < b" by blast
    have "kr_left p \<le> kr_left r" using Cons.prems(2) by simp
    moreover have "k \<notin> key_set p" using right k(2) by (auto simp: in_key_set)
    ultimately show ?thesis using k by (intro exI [of _ k]) auto
  qed
qed simp

lemma region_join_cursor_last:
  "region_join_cursor (kr_right p) ps = REGION_JOIN_OK c \<Longrightarrow> \<exists>r \<in> set (p # ps). kr_right r = c"
proof (induction ps arbitrary: p)
  case (Cons q qs)
  then show ?case by (auto split: if_splits)
qed simp

lemma region_join_sorted_reports:
  assumes "rs \<noteq> []" and "sorted (map kr_left rs)"
    and ok: "\<And>r. r \<in> set rs \<Longrightarrow> key_range_ok r \<and> key_set r \<noteq> {}"
  shows "join_reports key_set key_range_ok rs (region_join_sorted rs)"
proof -
  obtain p ps where rs: "rs = p # ps" using assms(1) by (cases rs) auto
  have p: "key_range_ok p" "kr_left p \<in> key_set p"
    using ok [of p] left_in_key_set [of p] rs by (auto simp: key_range_is_empty_iff)
  show ?thesis
  proof (cases "region_join_cursor (kr_right p) ps")
    case (REGION_JOIN_OK c)
    then have *: "region_join_cursor (Bound (kr_left p)) rs = REGION_JOIN_OK c" by (simp add: rs)
    note facts = region_join_cursor_ok [OF * ok]
    have "key_range_ok \<lparr>kr_left = kr_left p, kr_right = c\<rparr>"
    proof (cases c)
      case (Bound k)
      obtain r where "r \<in> set rs" and "kr_right r = c"
        using region_join_cursor_last [OF REGION_JOIN_OK] rs by auto
      then have "key_ok k" using ok [of r] Bound by (simp add: key_range_ok_def)
      then show ?thesis
        using facts p(1) Bound by (simp add: key_range_ok_def)
    qed (use p(1) in \<open>simp add: key_range_ok_def\<close>)
    moreover have "key_set \<lparr>kr_left = kr_left p, kr_right = c\<rparr> = (\<Union>r \<in> set rs. key_set r)"
      using facts by (auto simp: in_key_set)
    ultimately show ?thesis
      using facts * by (simp add: region_join_sorted_def join_reports_def rs)
  next
    case REGION_JOIN_BAD_JOIN
    then show ?thesis
      using region_join_cursor_bad_join [of p ps] assms ok
      by (simp add: region_join_sorted_def join_reports_def rs)
  next
    case REGION_JOIN_BAD_REGION
    then obtain k b where k: "key_ok k" "kr_left p < k" "k \<notin> (\<Union>r \<in> set rs. key_set r)"
      "b \<in> (\<Union>r \<in> set rs. key_set r)" "k < b"
      using region_join_cursor_gap [of p ps] assms ok by (auto simp: rs)
    have "key_set r \<noteq> (\<Union>r \<in> set rs. key_set r)" for r
    proof
      assume eq: "key_set r = (\<Union>r \<in> set rs. key_set r)"
      then have "kr_left p \<in> key_set r" and "b \<in> key_set r" using p(2) k(4) rs by auto
      then have "k \<in> key_set r"
        using k(1,2,5) unfolding in_key_set by (meson less_imp_le order.trans order.strict_trans right_bound_order(1))
      with eq k(3) show False by simp
    qed
    then show ?thesis
      using REGION_JOIN_BAD_REGION by (simp add: region_join_sorted_def join_reports_def rs)
  qed
qed


lemma join_reports_perm:
  assumes "mset xs = mset ys"
  shows "join_reports points ok xs res \<longleftrightarrow> join_reports points ok ys res"
proof -
  have "set xs = set ys" using assms by (metis set_mset_mset)
  then show ?thesis
    using disjoint_pieces_perm [OF assms, of points] by (simp add: join_reports_def split: join_result.splits)
qed

interpretation keys: region_joiner key_set key_range_ok "\<lambda>_. True" "\<lambda>vec. Some (key_region_join vec)"
proof
  fix vec :: "key_range list"
  assume ok: "\<And>p. p \<in> set vec \<Longrightarrow> key_range_ok p \<and> key_set p \<noteq> {}"
  have "join_reports key_set key_range_ok vec (key_region_join vec)"
  proof (cases "vec = []")
    case True
    then show ?thesis by (simp add: key_region_join_def join_reports_def disjoint_pieces_def)
  next
    case False
    have "sort_key kr_left vec \<noteq> []" using False by (metis set_empty set_sort)
    then have "join_reports key_set key_range_ok (sort_key kr_left vec)
        (region_join_sorted (sort_key kr_left vec))"
      using ok by (intro region_join_sorted_reports) simp_all
    then show ?thesis
      using False join_reports_perm [of "sort_key kr_left vec" vec key_set key_range_ok] by (simp add: key_region_join_def)
  qed
  then show "\<exists>res. Some (key_region_join vec) = Some res \<and> join_reports key_set key_range_ok vec res"
    by blast
qed


subsection \<open>The grid of a hash region join\<close>

lemma map_unique_by:
  "map f (unique_by (\<lambda>i j. f i = f j) xs) = remdups_adj (map f xs)"
  by (induction "\<lambda>i j. f i = f j" xs rule: unique_by.induct) (simp_all add: remdups_adj_Cons')

lemma sorted_remdups_adj_strict:
  "sorted xs \<Longrightarrow> sorted_wrt (<) (remdups_adj xs)"
  by (induction xs rule: remdups_adj.induct) (auto simp: order.order_iff_strict)

definition split_values :: "(nat \<Rightarrow> 'v::linorder) \<Rightarrow> nat \<Rightarrow> 'v list" where
  "split_values lookup n = map lookup (splitpoints lookup n)"

lemma split_values_facts:
  shows "sorted_wrt (<) (split_values lookup n)" and "set (split_values lookup n) = lookup ` {0..<2 * n}"
    and "length (split_values lookup n) = length (splitpoints lookup n)"
  by (simp add: split_values_def splitpoints_def map_unique_by sorted_remdups_adj_strict,
      simp add: split_values_def splitpoints_def map_unique_by, simp add: split_values_def)

lemma pos_takeWhile:
  fixes L :: "'v::linorder list"
  assumes "sorted_wrt (<) L" and "y < length L"
  shows "L ! y < v \<longleftrightarrow> y < length (takeWhile (\<lambda>z. z < v) L)"
proof
  assume "y < length (takeWhile (\<lambda>z. z < v) L)"
  then show "L ! y < v" by (metis nth_mem set_takeWhileD takeWhile_nth)
next
  assume y: "L ! y < v"
  show "y < length (takeWhile (\<lambda>z. z < v) L)"
  proof (rule ccontr)
    let ?n = "length (takeWhile (\<lambda>z. z < v) L)"
    assume "\<not> y < ?n"
    then have "?n \<le> y" and "?n < length L" using assms(2) by auto
    then have "L ! ?n \<le> L ! y"
      using assms by (metis le_neq_implies_less less_imp_le order.refl sorted_wrt_nth_less)
    moreover have "\<not> L ! ?n < v" using \<open>?n < length L\<close> by (rule nth_length_takeWhile)
    ultimately show False using y by simp
  qed
qed

lemma splitpoint_span_iff:
  assumes "splitpoint_span lookup (splitpoints lookup n) i = (b, e)"
  shows "y \<in> {b..<e} \<longleftrightarrow>
    y < length (split_values lookup n) \<and>
    lookup (2 * i) \<le> split_values lookup n ! y \<and> split_values lookup n ! y < lookup (2 * i + 1)"
proof -
  let ?L = "split_values lookup n"
  have L: "sorted_wrt (<) ?L" by (rule split_values_facts)
  have b: "b = length (takeWhile (\<lambda>z. z < lookup (2 * i)) ?L)"
    and e: "e = b + length (takeWhile (\<lambda>z. z < lookup (2 * i + 1)) (drop b ?L))"
    using assms
    by (auto simp: splitpoint_span_def lower_bound_by_def splitpoint_less_def split_values_def
        takeWhile_map comp_def drop_map Let_def)
  have "b \<le> y \<longleftrightarrow> lookup (2 * i) \<le> ?L ! y" if "y < length ?L"
    using pos_takeWhile [OF L that, of "lookup (2 * i)"] b by (simp add: not_less [symmetric])
  moreover have "y < e \<longleftrightarrow> ?L ! y < lookup (2 * i + 1)" if "y < length ?L" and "b \<le> y"
  proof -
    have "sorted_wrt (<) (drop b ?L)" using L by (rule sorted_wrt_drop)
    from pos_takeWhile [OF this, of "y - b" "lookup (2 * i + 1)"] show ?thesis
      using that e by (auto simp: less_diff_conv2)
  qed
  moreover have "e \<le> length ?L"
    using e length_takeWhile_le [of _ "drop b ?L"] b length_takeWhile_le [of _ ?L]
    by (metis le_add_diff_inverse length_drop nat_add_left_cancel_le)
  ultimately show ?thesis by auto
qed

definition proper_regions :: "hash_region list \<Rightarrow> bool" where
  "proper_regions vec \<longleftrightarrow> (\<forall>r \<in> set vec. hash_region_ok r \<and> region_points r \<noteq> {})"

definition hash_values :: "hash_region list \<Rightarrow> u64 list" where
  "hash_values vec = split_values (double_hash_lookup vec) (length vec)"

definition key_values :: "hash_region list \<Rightarrow> right_bound list" where
  "key_values vec = split_values (double_key_lookup vec) (length vec)"

lemma image_double: "f ` {0..<2 * n} = (\<Union>i < n. {f (2 * i), f (2 * i + 1)})" for f :: "nat \<Rightarrow> 'v"
proof -
  have "{0..<2 * n} = (\<Union>i < n. {2 * i, 2 * i + 1})"
  proof (rule set_eqI)
    fix j
    have "j < 2 * n \<Longrightarrow> j div 2 < n \<and> (j = 2 * (j div 2) \<or> j = 2 * (j div 2) + 1)" by auto
    then show "j \<in> {0..<2 * n} \<longleftrightarrow> j \<in> (\<Union>i < n. {2 * i, 2 * i + 1})" by auto
  qed
  then show ?thesis by auto
qed

lemma lookup_simps [simp]:
  "double_hash_lookup vec (2 * i) = hr_beg (vec ! i)"
  "double_hash_lookup vec (Suc (2 * i)) = hr_end (vec ! i)"
  "double_key_lookup vec (2 * i) = Bound (kr_left (hr_inner (vec ! i)))"
  "double_key_lookup vec (Suc (2 * i)) = kr_right (hr_inner (vec ! i))"
  by (simp_all add: double_hash_lookup_def double_key_lookup_def Let_def)

lemma set_hash_values: "set (hash_values vec) = (\<Union>r \<in> set vec. {hr_beg r, hr_end r})"
  unfolding hash_values_def split_values_facts image_double
  by (auto simp: set_conv_nth)

lemma set_key_values:
  "set (key_values vec) = (\<Union>r \<in> set vec. {Bound (kr_left (hr_inner r)), kr_right (hr_inner r)})"
  unfolding key_values_def split_values_facts image_double
  by (auto simp: set_conv_nth)


text \<open>The lower left corner of a grid cell.\<close>

definition corner :: "hash_region list \<Rightarrow> nat \<Rightarrow> nat \<Rightarrow> u64 \<times> store_key" where
  "corner vec y x = (hash_values vec ! y, rb_key (key_values vec ! x))"

lemma proper_regionsD:
  assumes "proper_regions vec" and "r \<in> set vec"
  shows "hr_beg r < hr_end r" and "key_range_ok (hr_inner r)" and "key_set (hr_inner r) \<noteq> {}"
    and "Bound (kr_left (hr_inner r)) < kr_right (hr_inner r)" and "hash_region_ok r"
proof -
  have ok: "hash_region_ok r" and ne: "region_points r \<noteq> {}"
    using assms by (auto simp: proper_regions_def)
  from ok show r: "hr_beg r < hr_end r" "key_range_ok (hr_inner r)" "key_set (hr_inner r) \<noteq> {}"
    using ne by (cases rule: hash_region_cases; simp)+
  show "Bound (kr_left (hr_inner r)) < kr_right (hr_inner r)"
    using left_in_key_set [OF r(2)] r by (simp add: key_range_is_empty_iff in_key_set)
qed (use assms in \<open>simp add: proper_regions_def\<close>)

lemma nth_below_last:
  fixes L :: "'v::linorder list"
  assumes "sorted_wrt (<) L" and "y < length L" and "L ! y < v" and "v \<in> set L"
  shows "Suc y < length L \<and> L ! Suc y \<le> v"
proof -
  obtain j where j: "j < length L" "L ! j = v" using assms(4) by (auto simp: in_set_conv_nth)
  have "y < j"
  proof (rule ccontr)
    assume "\<not> y < j"
    then have "L ! j \<le> L ! y"
      using sorted_wrt_nth_less [OF assms(1), of j y] assms(2) by (cases "j = y") auto
    with j assms(3) show False by simp
  qed
  then show ?thesis
    using j sorted_wrt_nth_less [OF assms(1), of "Suc y" j] by (cases "Suc y = j") auto
qed

text \<open>A cell belongs to a region when its corner does; then it lies in the grid.\<close>

definition region_grid :: "hash_region list \<Rightarrow> hash_region \<Rightarrow> (nat \<times> nat) set" where
  "region_grid vec r =
     {(y, x). y < length (hash_values vec) \<and> x < length (key_values vec) \<and>
        hr_beg r \<le> hash_values vec ! y \<and> hash_values vec ! y < hr_end r \<and>
        Bound (kr_left (hr_inner r)) \<le> key_values vec ! x \<and>
        key_values vec ! x < kr_right (hr_inner r)}"

lemma key_values_ok:
  assumes "proper_regions vec" and "Bound k \<in> set (key_values vec)"
  shows "key_ok k"
proof -
  obtain r where r: "r \<in> set vec" and "Bound k = Bound (kr_left (hr_inner r)) \<or> Bound k = kr_right (hr_inner r)"
    using assms(2) by (auto simp: set_key_values)
  then show ?thesis
    using proper_regionsD(2) [OF assms(1) r]
    by (cases "kr_right (hr_inner r)") (auto simp: key_range_ok_def)
qed

lemma region_grid_corner:
  assumes "proper_regions vec" and "y < length (hash_values vec)" and "Suc x < length (key_values vec)"
  shows "(y, x) \<in> region_grid vec r \<longleftrightarrow> corner vec y x \<in> region_points r"
proof -
  have "sorted_wrt (<) (key_values vec)" by (simp add: key_values_def split_values_facts)
  then have "key_values vec ! x < key_values vec ! Suc x"
    using assms(3) by (simp add: sorted_wrt_nth_less)
  then obtain k where k: "key_values vec ! x = Bound k" by (cases "key_values vec ! x") auto
  then have "key_ok k" using key_values_ok [OF assms(1)] assms(3) by (metis Suc_lessD nth_mem)
  then show ?thesis
    using assms k by (auto simp: region_grid_def corner_def region_points_def in_key_set)
qed

lemma region_grid_bounds:
  assumes "r \<in> set vec" and "(y, x) \<in> region_grid vec r"
  shows "y < length (hash_values vec) - 1" and "x < length (key_values vec) - 1"
proof -
  have "sorted_wrt (<) (hash_values vec)" "sorted_wrt (<) (key_values vec)"
    by (simp_all add: hash_values_def key_values_def split_values_facts)
  moreover have "hr_end r \<in> set (hash_values vec)" "kr_right (hr_inner r) \<in> set (key_values vec)"
    using assms(1) by (auto simp: set_hash_values set_key_values)
  ultimately show "y < length (hash_values vec) - 1" and "x < length (key_values vec) - 1"
    using assms(2) nth_below_last [of "hash_values vec" y "hr_end r"]
      nth_below_last [of "key_values vec" x "kr_right (hr_inner r)"]
    by (auto simp: region_grid_def)
qed

definition grid_cells :: "hash_region list \<Rightarrow> nat \<Rightarrow> nat \<Rightarrow> nat list" where
  "grid_cells vec w i =
     region_cells vec (splitpoints (double_hash_lookup vec) (length vec))
       (splitpoints (double_key_lookup vec) (length vec)) w i"

lemma grid_cells_product:
  "\<exists>ys xs. grid_cells vec w i = map (\<lambda>(y, x). y * w + x) (List.product ys xs) \<and>
           distinct ys \<and> distinct xs \<and> set ys \<times> set xs = region_grid vec (vec ! i)"
proof -
  obtain b e where be: "splitpoint_span (double_hash_lookup vec)
      (splitpoints (double_hash_lookup vec) (length vec)) i = (b, e)" by (meson surj_pair)
  obtain l r where lr: "splitpoint_span (double_key_lookup vec)
      (splitpoints (double_key_lookup vec) (length vec)) i = (l, r)" by (meson surj_pair)
  have "(y, x) \<in> region_grid vec (vec ! i) \<longleftrightarrow> y \<in> {b..<e} \<and> x \<in> {l..<r}" for y x
    unfolding splitpoint_span_iff [OF be] splitpoint_span_iff [OF lr]
    by (auto simp: region_grid_def hash_values_def key_values_def)
  then have "set [b..<e] \<times> set [l..<r] = region_grid vec (vec ! i)" by auto
  moreover have "grid_cells vec w i = map (\<lambda>(y, x). y * w + x) (List.product [b..<e] [l..<r])"
    by (simp add: grid_cells_def region_cells_def be lr product_concat_map map_concat comp_def)
  ultimately show ?thesis by (metis distinct_upt)
qed

lemma grid_cells_set: "set (grid_cells vec w i) = (\<lambda>(y, x). y * w + x) ` region_grid vec (vec ! i)"
  using grid_cells_product [of vec w i] by auto

lemma cell_index: "x < w \<Longrightarrow> (y * w + x) div w = y \<and> (y * w + x) mod w = (x :: nat)"
  by simp

lemma grid_cells_distinct:
  assumes "i < length vec" and "w = length (key_values vec) - 1"
  shows "distinct (grid_cells vec w i)"
proof -
  obtain ys xs where *: "grid_cells vec w i = map (\<lambda>(y, x). y * w + x) (List.product ys xs)"
    "distinct ys" "distinct xs" "set ys \<times> set xs = region_grid vec (vec ! i)"
    using grid_cells_product by blast
  have "x < w" if "(y, x) \<in> region_grid vec (vec ! i)" for y x
    using region_grid_bounds(2) [of "vec ! i" vec] assms that by simp
  then have "inj_on (\<lambda>(y, x). y * w + x) (region_grid vec (vec ! i))"
    using cell_index [of _ w] by (intro inj_onI) (clarify, metis)
  then show ?thesis
    unfolding *(1) using *(2-4) by (simp add: distinct_map distinct_product)
qed


lemma fold_opt_concat:
  "fold_opt (\<lambda>i. fold_opt f (g i)) xs s = fold_opt f (concat (map g xs)) s"
proof (induction xs arbitrary: s)
  case (Cons x xs)
  then have "fold_opt (\<lambda>i. fold_opt f (g i)) xs = fold_opt f (concat (map g xs))" by auto
  then show ?case by (simp add: fold_opt_append)
qed simp

lemma cover_cells:
  assumes "\<And>ix. ix \<in> set ixs \<Longrightarrow> ix < length covered"
  shows "if distinct ixs \<and> (\<forall>ix \<in> set ixs. \<not> covered ! ix)
         then \<exists>c. fold_opt cover_cell ixs (covered, n) = Some (c, n + length ixs)
         else fold_opt cover_cell ixs (covered, n) = None"
  using assms
proof (induction ixs arbitrary: covered n)
  case (Cons ix ixs)
  show ?case
  proof (cases "covered ! ix")
    case True
    then show ?thesis by (simp add: cover_cell_def)
  next
    case False
    let ?c = "covered[ix := True]"
    have IH: "if distinct ixs \<and> (\<forall>j \<in> set ixs. \<not> ?c ! j)
         then \<exists>c. fold_opt cover_cell ixs (?c, n + 1) = Some (c, n + 1 + length ixs)
         else fold_opt cover_cell ixs (?c, n + 1) = None"
      using Cons.prems by (intro Cons.IH) auto
    have "ix < length covered" using Cons.prems by simp
    then have "distinct ixs \<and> (\<forall>j \<in> set ixs. \<not> ?c ! j) \<longleftrightarrow>
        distinct (ix # ixs) \<and> (\<forall>j \<in> set (ix # ixs). \<not> covered ! j)"
      using False by (auto simp: nth_list_update)
    moreover have "cover_cell ix (covered, n) = Some (?c, n + 1)"
      using False by (simp add: cover_cell_def)
    ultimately show ?thesis
      using IH by (cases "distinct ixs \<and> (\<forall>j \<in> set ixs. \<not> ?c ! j)") simp_all
  qed
qed simp

lemma distinct_concat_map:
  "distinct (concat (map g xs)) \<longleftrightarrow>
     (\<forall>x \<in> set xs. distinct (g x)) \<and> sorted_wrt (\<lambda>a b. set (g a) \<inter> set (g b) = {}) xs"
  by (induction xs) auto

lemma sorted_wrt_upt: "sorted_wrt P [0..<n] \<longleftrightarrow> (\<forall>j < n. \<forall>i < j. P i j)"
  by (auto simp: sorted_wrt_iff_nth_less)

lemma grids_disjoint_iff:
  assumes vec: "proper_regions vec" and a: "a \<in> set vec" and b: "b \<in> set vec"
  shows "region_grid vec a \<inter> region_grid vec b = {} \<longleftrightarrow> region_points a \<inter> region_points b = {}"
proof
  assume none: "region_points a \<inter> region_points b = {}"
  show "region_grid vec a \<inter> region_grid vec b = {}"
  proof (rule ccontr)
    assume "region_grid vec a \<inter> region_grid vec b \<noteq> {}"
    then obtain y x where yx: "(y, x) \<in> region_grid vec a" "(y, x) \<in> region_grid vec b" by auto
    then have "y < length (hash_values vec)" "Suc x < length (key_values vec)"
      using region_grid_bounds [OF a yx(1)] by auto
    then have "corner vec y x \<in> region_points a \<inter> region_points b"
      using yx region_grid_corner [OF vec] by blast
    with none show False by simp
  qed
next
  assume none: "region_grid vec a \<inter> region_grid vec b = {}"
  show "region_points a \<inter> region_points b = {}"
  proof (rule ccontr)
    assume "region_points a \<inter> region_points b \<noteq> {}"
    then obtain h k where p: "(h, k) \<in> region_points a" "(h, k) \<in> region_points b" by auto
    have "max (hr_beg a) (hr_beg b) \<in> set (hash_values vec)"
      and "Bound (max (kr_left (hr_inner a)) (kr_left (hr_inner b))) \<in> set (key_values vec)"
      using a b by (auto simp: set_hash_values set_key_values max_def)
    then obtain y x where "y < length (hash_values vec)" "x < length (key_values vec)"
      "hash_values vec ! y = max (hr_beg a) (hr_beg b)"
      "key_values vec ! x = Bound (max (kr_left (hr_inner a)) (kr_left (hr_inner b)))"
      by (metis in_set_conv_nth)
    moreover have "max (hr_beg a) (hr_beg b) \<le> h" "max (kr_left (hr_inner a)) (kr_left (hr_inner b)) \<le> k"
      and "h < hr_end a" "h < hr_end b" "Bound k < kr_right (hr_inner a)" "Bound k < kr_right (hr_inner b)"
      using p by (auto simp: region_points_def in_key_set)
    moreover have "Bound (max (kr_left (hr_inner a)) (kr_left (hr_inner b))) < kr_right (hr_inner a)"
      and "Bound (max (kr_left (hr_inner a)) (kr_left (hr_inner b))) < kr_right (hr_inner b)"
      using calculation(6,9,10) by (metis order.strict_trans1 right_bound_order(4))+
    ultimately have "(y, x) \<in> region_grid vec a" "(y, x) \<in> region_grid vec b"
      unfolding region_grid_def by (auto intro: order.strict_trans1)
    with none show False by blast
  qed
qed

definition grid_width :: "hash_region list \<Rightarrow> nat" where
  "grid_width vec = length (key_values vec) - 1"

definition grid_height :: "hash_region list \<Rightarrow> nat" where
  "grid_height vec = length (hash_values vec) - 1"

definition all_cells :: "hash_region list \<Rightarrow> nat list" where
  "all_cells vec = concat (map (grid_cells vec (grid_width vec)) [0..<length vec])"

lemma all_cells_distinct:
  assumes "proper_regions vec"
  shows "distinct (all_cells vec) \<longleftrightarrow> disjoint_pieces region_points vec"
proof -
  let ?f = "\<lambda>(y, x). y * grid_width vec + x"
  have inj: "inj_on ?f (region_grid vec a \<union> region_grid vec b)" if "a \<in> set vec" "b \<in> set vec" for a b
  proof (rule inj_onI, clarify)
    fix y x y' x'
    assume "(y, x) \<in> region_grid vec a \<union> region_grid vec b"
      "(y', x') \<in> region_grid vec a \<union> region_grid vec b"
      and eq: "y * grid_width vec + x = y' * grid_width vec + x'"
    then have "x < grid_width vec" "x' < grid_width vec"
      using region_grid_bounds(2) [OF that(1)] region_grid_bounds(2) [OF that(2)]
      unfolding grid_width_def by blast+
    then show "y = y' \<and> x = x'"
      using eq cell_index [of x "grid_width vec" y] cell_index [of x' "grid_width vec" y'] by metis
  qed
  have "set (grid_cells vec (grid_width vec) i) \<inter> set (grid_cells vec (grid_width vec) j) = {} \<longleftrightarrow>
      region_points (vec ! i) \<inter> region_points (vec ! j) = {}"
    if "i < length vec" "j < length vec" for i j
  proof -
    let ?A = "region_grid vec (vec ! i)" and ?B = "region_grid vec (vec ! j)"
    have "inj_on ?f (?A \<union> ?B)" using inj that by simp
    then have "?f ` ?A \<inter> ?f ` ?B = ?f ` (?A \<inter> ?B)" by (simp add: inj_on_image_Int)
    then show ?thesis
      using grids_disjoint_iff [OF assms, of "vec ! i" "vec ! j"] that by (simp add: grid_cells_set)
  qed
  then have "sorted_wrt (\<lambda>i j. set (grid_cells vec (grid_width vec) i) \<inter>
        set (grid_cells vec (grid_width vec) j) = {}) [0..<length vec] \<longleftrightarrow>
      sorted_wrt (\<lambda>i j. region_points (vec ! i) \<inter> region_points (vec ! j) = {}) [0..<length vec]"
    unfolding sorted_wrt_upt by (meson order.strict_trans)
  also have "\<dots> \<longleftrightarrow> disjoint_pieces region_points (map ((!) vec) [0..<length vec])"
    by (simp add: disjoint_pieces_def sorted_wrt_map)
  finally show ?thesis
    unfolding all_cells_def distinct_concat_map map_nth
    using grid_cells_distinct [of _ vec "grid_width vec"] by (simp add: grid_width_def)
qed


lemma all_cells_set:
  "set (all_cells vec) = (\<lambda>(y, x). y * grid_width vec + x) ` (\<Union>r \<in> set vec. region_grid vec r)"
proof -
  have "set (all_cells vec) =
      (\<Union>i < length vec. (\<lambda>(y, x). y * grid_width vec + x) ` region_grid vec (vec ! i))"
    by (simp add: all_cells_def grid_cells_set atLeast0LessThan)
  then show ?thesis by (force simp: set_conv_nth)
qed

lemma all_cells_bound:
  assumes "ix \<in> set (all_cells vec)"
  shows "ix < grid_width vec * grid_height vec"
proof -
  obtain r y x where r: "r \<in> set vec" "(y, x) \<in> region_grid vec r" "ix = y * grid_width vec + x"
    using assms unfolding all_cells_set by auto
  have "x < grid_width vec" "y < grid_height vec"
    using region_grid_bounds [OF r(1,2)] by (simp_all add: grid_width_def grid_height_def)
  then have "y * grid_width vec + x < Suc y * grid_width vec" by simp
  also have "\<dots> \<le> grid_height vec * grid_width vec"
    using \<open>y < grid_height vec\<close> by (intro mult_right_mono) simp_all
  finally show ?thesis using r(3) by (simp add: mult.commute)
qed

lemma cover_regions_spec:
  assumes "proper_regions vec"
  shows "if disjoint_pieces region_points vec
         then \<exists>c. cover_regions vec (splitpoints (double_hash_lookup vec) (length vec))
                (splitpoints (double_key_lookup vec) (length vec)) (grid_width vec) (grid_height vec) =
              Some (c, card (set (all_cells vec)))
         else cover_regions vec (splitpoints (double_hash_lookup vec) (length vec))
                (splitpoints (double_key_lookup vec) (length vec)) (grid_width vec) (grid_height vec) = None"
proof -
  have "cover_regions vec (splitpoints (double_hash_lookup vec) (length vec))
      (splitpoints (double_key_lookup vec) (length vec)) (grid_width vec) (grid_height vec) =
      fold_opt cover_cell (all_cells vec) (replicate (grid_width vec * grid_height vec) False, 0)"
    unfolding cover_regions_def all_cells_def fold_opt_concat grid_cells_def [abs_def] ..
  moreover have "\<forall>ix \<in> set (all_cells vec).
      \<not> replicate (grid_width vec * grid_height vec) False ! ix"
    using all_cells_bound by simp
  ultimately show ?thesis
    using cover_cells [of "all_cells vec" "replicate (grid_width vec * grid_height vec) False" 0]
      all_cells_bound all_cells_distinct [OF assms] distinct_card [of "all_cells vec"]
    by (cases "distinct (all_cells vec)") simp_all
qed

text \<open>The grid is full exactly when the pieces cover the box around them.\<close>

definition box :: "hash_region list \<Rightarrow> (u64 \<times> store_key) set" where
  "box vec =
     {(h, k). hd (hash_values vec) \<le> h \<and> h < last (hash_values vec) \<and> key_ok k \<and>
        hd (key_values vec) \<le> Bound k \<and> Bound k < last (key_values vec)}"

lemma nth_cell:
  fixes L :: "'v::linorder list"
  assumes "sorted_wrt (<) L" and "L \<noteq> []" and "hd L \<le> v" and "v < last L"
  shows "\<exists>y. Suc y < length L \<and> L ! y \<le> v \<and> v < L ! Suc y"
  using assms
proof (induction L)
  case (Cons a L)
  show ?case
  proof (cases "L = [] \<or> v < hd L")
    case True
    then have "L \<noteq> []" using Cons.prems by auto
    then show ?thesis
      using True Cons.prems by (intro exI [of _ 0]) (auto simp: hd_conv_nth)
  next
    case False
    then obtain y where "Suc y < length L" "L ! y \<le> v" "v < L ! Suc y"
      using Cons by (auto simp: not_less)
    then show ?thesis by (intro exI [of _ "Suc y"]) simp
  qed
qed simp

lemma hd_last_bounds:
  fixes L :: "'v::linorder list"
  assumes "sorted_wrt (<) L" and "v \<in> set L"
  shows "hd L \<le> v \<and> v \<le> last L"
proof -
  obtain j where j: "j < length L" "L ! j = v" using assms(2) by (auto simp: in_set_conv_nth)
  have "sorted L" using assms(1) by (rule strict_sorted_imp_sorted)
  then have "L ! 0 \<le> v" and "v \<le> L ! (length L - 1)"
    using j sorted_nth_mono [of L 0 j] sorted_nth_mono [of L j "length L - 1"] by auto
  moreover have "L \<noteq> []" using assms(2) by auto
  ultimately show ?thesis by (simp add: hd_conv_nth last_conv_nth)
qed

lemma values_sorted [simp]:
  "sorted_wrt (<) (hash_values vec)" "sorted_wrt (<) (key_values vec)"
  by (simp_all add: hash_values_def key_values_def split_values_facts)

lemma points_in_box:
  assumes "r \<in> set vec" and "p \<in> region_points r"
  shows "p \<in> box vec"
proof -
  obtain h k where p: "p = (h, k)" by (cases p)
  have "hr_beg r \<in> set (hash_values vec)" "hr_end r \<in> set (hash_values vec)"
    "Bound (kr_left (hr_inner r)) \<in> set (key_values vec)" "kr_right (hr_inner r) \<in> set (key_values vec)"
    using assms(1) by (auto simp: set_hash_values set_key_values)
  then have "hd (hash_values vec) \<le> hr_beg r" "hr_end r \<le> last (hash_values vec)"
    "hd (key_values vec) \<le> Bound (kr_left (hr_inner r))" "kr_right (hr_inner r) \<le> last (key_values vec)"
    using hd_last_bounds values_sorted by blast+
  then show ?thesis
    using assms(2) unfolding p box_def region_points_def
    by (auto simp: in_key_set) (meson order.trans right_bound_order(4))
qed

lemma values_nonempty:
  assumes "vec \<noteq> []"
  shows "hash_values vec \<noteq> []" and "key_values vec \<noteq> []"
proof -
  have "hr_beg (hd vec) \<in> set (hash_values vec)"
    and "Bound (kr_left (hr_inner (hd vec))) \<in> set (key_values vec)"
    using assms by (auto simp: set_hash_values set_key_values)
  then show "hash_values vec \<noteq> []" and "key_values vec \<noteq> []" by auto
qed

lemma full_grid_covers:
  assumes vec: "proper_regions vec" "vec \<noteq> []"
    and full: "\<And>y x. y < grid_height vec \<Longrightarrow> x < grid_width vec \<Longrightarrow> \<exists>r \<in> set vec. (y, x) \<in> region_grid vec r"
  shows "box vec \<subseteq> (\<Union>r \<in> set vec. region_points r)"
proof
  fix p assume "p \<in> box vec"
  then obtain h k where p: "p = (h, k)" "hd (hash_values vec) \<le> h" "h < last (hash_values vec)" "key_ok k"
    "hd (key_values vec) \<le> Bound k" "Bound k < last (key_values vec)"
    by (auto simp: box_def)
  note ne = values_nonempty [OF vec(2)]
  obtain y where y: "Suc y < length (hash_values vec)" "hash_values vec ! y \<le> h" "h < hash_values vec ! Suc y"
    using nth_cell [OF values_sorted(1) ne(1) p(2,3)] by blast
  obtain x where x: "Suc x < length (key_values vec)" "key_values vec ! x \<le> Bound k"
    "Bound k < key_values vec ! Suc x"
    using nth_cell [OF values_sorted(2) ne(2) p(5,6)] by blast
  obtain r where r: "r \<in> set vec" "(y, x) \<in> region_grid vec r"
    using full [of y x] y(1) x(1) by (auto simp: grid_height_def grid_width_def less_diff_conv)
  have "hash_values vec ! Suc y \<le> hr_end r"
    using nth_below_last [of "hash_values vec" y "hr_end r"] r y(1)
    by (auto simp: region_grid_def set_hash_values)
  moreover have "key_values vec ! Suc x \<le> kr_right (hr_inner r)"
    using nth_below_last [of "key_values vec" x "kr_right (hr_inner r)"] r x(1)
    by (auto simp: region_grid_def set_key_values)
  moreover have "Bound (kr_left (hr_inner r)) \<le> key_values vec ! x"
    using r(2) by (simp add: region_grid_def)
  from order.trans [OF this x(2)] have "kr_left (hr_inner r) \<le> k" by simp
  ultimately have "(h, k) \<in> region_points r"
    using r(2) x(2,3) y(2,3) p(4)
    unfolding region_grid_def region_points_def by (auto simp: in_key_set)
  then show "p \<in> (\<Union>r \<in> set vec. region_points r)" using r(1) p(1) by blast
qed


lemma grid_full_iff:
  assumes "card (set (all_cells vec)) \<ge> grid_width vec * grid_height vec"
    and "y < grid_height vec" and "x < grid_width vec"
  shows "\<exists>r \<in> set vec. (y, x) \<in> region_grid vec r"
proof -
  have sub: "set (all_cells vec) \<subseteq> {..<grid_width vec * grid_height vec}"
    using all_cells_bound by blast
  then have "set (all_cells vec) = {..<grid_width vec * grid_height vec}"
    using assms(1) by (intro card_subset_eq) (auto intro: antisym card_mono [OF _ sub, simplified])
  moreover have "y * grid_width vec + x < grid_width vec * grid_height vec"
  proof -
    have "y * grid_width vec + x < Suc y * grid_width vec" using assms(3) by simp
    also have "\<dots> \<le> grid_height vec * grid_width vec"
      using assms(2) by (intro mult_right_mono) simp_all
    finally show ?thesis by (simp add: mult.commute)
  qed
  ultimately have "y * grid_width vec + x \<in> set (all_cells vec)" by blast
  then obtain r y' x' where r: "r \<in> set vec" "(y', x') \<in> region_grid vec r"
    "y * grid_width vec + x = y' * grid_width vec + x'"
    unfolding all_cells_set by auto
  have "x' < grid_width vec" using region_grid_bounds(2) [OF r(1,2)] by (simp add: grid_width_def)
  then have "y = y' \<and> x = x'"
    using r(3) cell_index [OF assms(3), of y] cell_index [of x' "grid_width vec" y'] by metis
  with r show ?thesis by blast
qed

lemma uncovered_corner:
  assumes vec: "proper_regions vec"
    and few: "card (set (all_cells vec)) < grid_width vec * grid_height vec"
  shows "\<exists>y < grid_height vec. \<exists>x < grid_width vec. \<forall>p \<in> set vec. corner vec y x \<notin> region_points p"
proof -
  have "\<not> {..<grid_width vec * grid_height vec} \<subseteq> set (all_cells vec)"
    using few card_mono [OF finite_set, of "{..<grid_width vec * grid_height vec}" "all_cells vec"]
    by auto
  then obtain ix where ix: "ix < grid_width vec * grid_height vec" "ix \<notin> set (all_cells vec)" by blast
  define y x where "y = ix div grid_width vec" and "x = ix mod grid_width vec"
  have "0 < grid_width vec" using ix(1) by (cases "grid_width vec") auto
  then have xy: "x < grid_width vec" "y < grid_height vec" "ix = y * grid_width vec + x"
    using ix(1) by (simp_all add: x_def y_def less_mult_imp_div_less mult.commute)
  have "corner vec y x \<notin> region_points p" if "p \<in> set vec" for p
  proof
    assume "corner vec y x \<in> region_points p"
    then have "(y, x) \<in> region_grid vec p"
      using region_grid_corner [OF vec] xy(1,2) by (simp add: grid_width_def grid_height_def)
    then have "ix \<in> set (all_cells vec)" using that xy(3) unfolding all_cells_set by force
    with ix(2) show False by simp
  qed
  with xy show ?thesis by blast
qed

lemma superset_ends:
  assumes "proper_regions vec" and "p \<in> set vec" and "hash_region_ok r"
    and "region_points p \<subseteq> region_points r"
  shows "hr_beg r \<le> hr_beg p" and "hr_end p \<le> hr_end r"
    and "Bound (kr_left (hr_inner r)) \<le> Bound (kr_left (hr_inner p))"
    and "kr_right (hr_inner p) \<le> kr_right (hr_inner r)"
proof -
  have "region_is_superset r p"
    using region_is_superset_iff [OF assms(3) proper_regionsD(5) [OF assms(1,2)]] assms(4) by blast
  then show "hr_beg r \<le> hr_beg p" and "hr_end p \<le> hr_end r"
    and "Bound (kr_left (hr_inner r)) \<le> Bound (kr_left (hr_inner p))"
    and "kr_right (hr_inner p) \<le> kr_right (hr_inner r)"
    using proper_regionsD [OF assms(1,2)]
    by (auto simp: region_is_superset_def region_is_empty_def key_range_is_superset_def
        key_range_is_empty_iff split: if_splits)
qed

text \<open>A region that contains every piece contains every grid corner.\<close>

lemma superset_corner:
  assumes vec: "proper_regions vec" and r: "hash_region_ok r"
    and sup: "\<And>p. p \<in> set vec \<Longrightarrow> region_points p \<subseteq> region_points r"
    and yx: "y < grid_height vec" "x < grid_width vec"
  shows "corner vec y x \<in> region_points r"
proof -
  note ends = superset_ends [OF vec _ r sup]
  have hs: "hr_beg r \<le> v \<and> v \<le> hr_end r" if v: "v \<in> set (hash_values vec)" for v
  proof -
    obtain p where p: "p \<in> set vec" "v = hr_beg p \<or> v = hr_end p"
      using v by (auto simp: set_hash_values)
    with ends(1,2) [OF p(1) p(1)] proper_regionsD(1) [OF vec p(1)] show ?thesis by force
  qed
  have ks: "Bound (kr_left (hr_inner r)) \<le> v \<and> v \<le> kr_right (hr_inner r)"
    if v: "v \<in> set (key_values vec)" for v
  proof -
    obtain p where p: "p \<in> set vec" "v = Bound (kr_left (hr_inner p)) \<or> v = kr_right (hr_inner p)"
      using v by (auto simp: set_key_values)
    with ends [OF p(1) p(1)] proper_regionsD(4) [OF vec p(1)] show ?thesis
      by (metis less_imp_le order.trans)
  qed
  have len: "Suc y < length (hash_values vec)" "Suc x < length (key_values vec)"
    using yx by (simp_all add: grid_width_def grid_height_def)
  then have "hash_values vec ! y < hash_values vec ! Suc y" "key_values vec ! x < key_values vec ! Suc x"
    using values_sorted [of vec] by (simp_all add: sorted_wrt_nth_less)
  moreover have "hash_values vec ! y \<in> set (hash_values vec)" "hash_values vec ! Suc y \<in> set (hash_values vec)"
    "key_values vec ! x \<in> set (key_values vec)" "key_values vec ! Suc x \<in> set (key_values vec)"
    using len by simp_all
  ultimately have "hr_beg r \<le> hash_values vec ! y" "hash_values vec ! y < hr_end r"
    "Bound (kr_left (hr_inner r)) \<le> key_values vec ! x" "key_values vec ! x < kr_right (hr_inner r)"
    using hs ks by (meson order.strict_trans2)+
  then have "(y, x) \<in> region_grid vec r"
    using len by (simp add: region_grid_def)
  then show ?thesis
    using region_grid_corner [OF vec] len by simp
qed

lemma region_join_output_box:
  assumes vec: "proper_regions vec" "vec \<noteq> []"
  shows "\<exists>r. region_join_output vec (splitpoints (double_hash_lookup vec) (length vec))
               (splitpoints (double_key_lookup vec) (length vec)) = Some r \<and>
             hash_region_ok r \<and> region_points r = box vec"
proof -
  let ?hs = "splitpoints (double_hash_lookup vec) (length vec)"
  let ?ks = "splitpoints (double_key_lookup vec) (length vec)"
  note ne = values_nonempty [OF vec(2)]
  have "?hs \<noteq> []" "?ks \<noteq> []"
    using ne by (auto simp: hash_values_def key_values_def split_values_def)
  then have ends: "double_hash_lookup vec (hd ?hs) = hd (hash_values vec)"
    "double_hash_lookup vec (last ?hs) = last (hash_values vec)"
    "double_key_lookup vec (hd ?ks) = hd (key_values vec)"
    "double_key_lookup vec (last ?ks) = last (key_values vec)"
    by (simp_all add: hash_values_def key_values_def split_values_def hd_map last_map)
  obtain p where p: "p \<in> set vec" using vec(2) by (cases vec) auto
  have le: "hd (hash_values vec) \<le> hr_beg p" "hr_end p \<le> last (hash_values vec)"
    "hd (key_values vec) \<le> Bound (kr_left (hr_inner p))" "kr_right (hr_inner p) \<le> last (key_values vec)"
    using p by (auto intro!: hd_last_bounds [THEN conjunct1] hd_last_bounds [THEN conjunct2]
        simp: set_hash_values set_key_values)
  then have lt: "hd (hash_values vec) < last (hash_values vec)" "hd (key_values vec) < last (key_values vec)"
    using proper_regionsD(1,4) [OF vec(1) p] by (meson order.strict_trans1 order.strict_trans2)+
  then obtain k where k: "hd (key_values vec) = Bound k" by (cases "hd (key_values vec)") auto
  have k_ok: "key_ok k" using key_values_ok [OF vec(1), of k] k ne(2) by (metis list.set_sel(1))
  let ?i = "\<lparr>kr_left = k, kr_right = last (key_values vec)\<rparr>"
  have i: "key_range_ok ?i" "k \<in> key_set ?i"
    using k_ok lt(2) k key_values_ok [OF vec(1)] last_in_set [OF ne(2)]
    by (auto simp: key_range_ok_def in_key_set split: right_bound.splits)
  have "region_join_output vec ?hs ?ks = hash_region_make (hd (hash_values vec)) (last (hash_values vec)) ?i"
    using k by (cases "last (key_values vec)")
      (simp_all add: region_join_output_def ends key_range_init_def key_range_init_left_def
        key_range_init_right_def Let_def)
  moreover have "box vec = {h. hd (hash_values vec) \<le> h \<and> h < last (hash_values vec)} \<times> key_set ?i"
    by (auto simp: box_def k in_key_set)
  ultimately show ?thesis
    using hash_region_make_ok [OF lt(1) i(1)] i(2) by auto
qed


lemma split_values_length: "length (split_values lookup n) \<le> 2 * n"
proof -
  have "distinct (split_values lookup n)"
    using split_values_facts(1) [of lookup n] by (simp add: strict_sorted_iff)
  then have "length (split_values lookup n) = card (lookup ` {0..<2 * n})"
    by (metis distinct_card split_values_facts(2))
  also have "\<dots> \<le> 2 * n" using card_image_le [of "{0..<2 * n}" lookup] by simp
  finally show ?thesis .
qed

lemma grid_size:
  assumes "proper_regions vec" and "vec \<noteq> []" and "length vec \<le> 2 ^ 14"
  shows "0 < grid_width vec" and "0 < grid_height vec"
    and "int (grid_width vec) < INT_MAX div int (grid_height vec)"
proof -
  obtain p where p: "p \<in> set vec" using assms(2) by (cases vec) auto
  have "\<exists>y x. (y, x) \<in> region_grid vec p"
  proof -
    obtain y where "y < length (hash_values vec)" "hash_values vec ! y = hr_beg p"
      using p by (metis (no_types, lifting) UN_iff in_set_conv_nth insertI1 set_hash_values)
    moreover obtain x where "x < length (key_values vec)"
      "key_values vec ! x = Bound (kr_left (hr_inner p))"
      using p by (metis (no_types, lifting) UN_iff in_set_conv_nth insertI1 set_key_values)
    ultimately have "(y, x) \<in> region_grid vec p"
      using proper_regionsD(1,4) [OF assms(1) p] by (simp add: region_grid_def)
    then show ?thesis by blast
  qed
  then show pos: "0 < grid_width vec" "0 < grid_height vec"
    using region_grid_bounds [OF p] by (fastforce simp: grid_width_def grid_height_def)+
  have "grid_width vec \<le> 32767" "grid_height vec \<le> 32767"
    using assms(3) split_values_length [of "double_hash_lookup vec" "length vec"]
      split_values_length [of "double_key_lookup vec" "length vec"]
    by (simp_all add: grid_width_def grid_height_def hash_values_def key_values_def)
  moreover have "INT_MAX div 32767 \<le> INT_MAX div int (grid_height vec)"
    using pos(2) calculation(2) by (intro zdiv_mono2) (simp_all add: INT_MAX_def)
  ultimately show "int (grid_width vec) < INT_MAX div int (grid_height vec)"
    by (simp add: INT_MAX_def)
qed

lemma region_join_reports:
  assumes vec: "proper_regions vec" and "length vec \<le> 2 ^ 14"
  shows "\<exists>res. region_join vec = Some res \<and> join_reports region_points hash_region_ok vec res"
proof (cases "vec = []")
  case True
  then show ?thesis
    by (simp add: region_join_def splitpoints_def join_reports_def disjoint_pieces_def)
next
  case ne: False
  let ?hs = "splitpoints (double_hash_lookup vec) (length vec)"
  let ?ks = "splitpoints (double_key_lookup vec) (length vec)"
  let ?n = "card (set (all_cells vec))"
  have len: "length ?ks - 1 = grid_width vec" "length ?hs - 1 = grid_height vec"
    by (simp_all add: grid_width_def grid_height_def hash_values_def key_values_def split_values_facts)
  obtain out where out: "region_join_output vec ?hs ?ks = Some out" "hash_region_ok out"
    "region_points out = box vec"
    using region_join_output_box [OF vec ne] by blast
  have join: "region_join vec =
      (case cover_regions vec ?hs ?ks (grid_width vec) (grid_height vec) of
         None \<Rightarrow> Some REGION_JOIN_BAD_JOIN
       | Some (covered, num_covered) \<Rightarrow>
           if num_covered < grid_width vec * grid_height vec then Some REGION_JOIN_BAD_REGION
           else Some (REGION_JOIN_OK out))"
    unfolding region_join_def Let_def len out(1)
    using grid_size [OF vec ne assms(2)] by (simp split: option.splits)
  show ?thesis
  proof (cases "disjoint_pieces region_points vec")
    case False
    then show ?thesis
      using cover_regions_spec [OF vec] join by (simp add: join_reports_def)
  next
    case True
    then have join': "region_join vec =
        (if ?n < grid_width vec * grid_height vec then Some REGION_JOIN_BAD_REGION
         else Some (REGION_JOIN_OK out))"
      using cover_regions_spec [OF vec] join by auto
    show ?thesis
    proof (cases "?n < grid_width vec * grid_height vec")
      case few: True
      then obtain y x where "y < grid_height vec" "x < grid_width vec"
        "\<forall>p \<in> set vec. corner vec y x \<notin> region_points p"
        using uncovered_corner [OF vec] by blast
      then have "region_points r \<noteq> (\<Union>p \<in> set vec. region_points p)" if "hash_region_ok r" for r
        using superset_corner [OF vec that, of y x] by blast
      with few show ?thesis by (auto simp: join' join_reports_def)
    next
      case False
      then have "box vec \<subseteq> (\<Union>p \<in> set vec. region_points p)"
        using grid_full_iff [of vec] by (intro full_grid_covers [OF vec ne]) simp
      moreover have "(\<Union>p \<in> set vec. region_points p) \<subseteq> box vec"
        using points_in_box by blast
      ultimately have "region_points out = (\<Union>p \<in> set vec. region_points p)"
        using out(3) by simp
      with False True out(2) show ?thesis by (simp add: join' join_reports_def)
    qed
  qed
qed

interpretation hash: region_joiner region_points hash_region_ok "\<lambda>vec. length vec \<le> 2 ^ 14" region_join
  by unfold_locales (rule region_join_reports, simp add: proper_regions_def)

section \<open>The hash function\<close>

lemma hash_region_hasher_bound: "hash_region_hasher k < HASH_REGION_HASH_SIZE"
proof -
  have "x AND 0x7fffffffffffffff = take_bit 63 x" for x :: u64
    by (simp add: take_bit_eq_mask mask_eq_exp_minus_1)
  then show ?thesis
    using take_bit_nat_less_exp [of 63]
    by (simp add: hash_region_hasher_def HASH_REGION_HASH_SIZE_def word_less_nat_alt unsigned_take_bit_eq)
qed


text \<open>The multiplications of \<open>hash_region_hasher\<close> put the bits of the character, mirrored, at 55 to 62.\<close>

lemma hash_spread_bits_all:
  "list_all (\<lambda>n. list_all (\<lambda>i. bit (hash_spread (word_of_nat n)) (62 - i) = bit (word_of_nat n :: u8) i)
     [0..<8]) [0..<256]"
  by code_simp

lemma hash_spread_mirrors:
  assumes "i < 8"
  shows "bit (hash_spread ch) (62 - i) = bit ch i"
proof -
  have "\<forall>n \<in> {0..<256}. \<forall>i \<in> {0..<8}.
      bit (hash_spread (word_of_nat n)) (62 - i) = bit (word_of_nat n :: u8) i"
    using hash_spread_bits_all by (simp add: list_all_iff)
  from bspec [OF this, of "unat ch"] show ?thesis
    using assms unsigned_less [of ch, where ?'a = nat] by simp
qed

section \<open>The wire format\<close>

interpretation intervalc: codec_pair serialize_u64 deserialize_u64 "\<lambda>_. True"
  serialize_u64 deserialize_u64 "\<lambda>_. True" ..

lemma deserialize_hash_region_seq:
  "deserialize_hash_region s =
     (case seq_deser deserialize_u64 deserialize_u64 s of
        (Inl e, s') \<Rightarrow> (Inl e, s')
      | (Inr (b, e), s') \<Rightarrow>
          (if \<not> (0 = e \<and> 0 = b \<or> b < e) then (Inl RANGE_ERROR, s')
           else
             (case deserialize_key_range s' of
                (Inl er, s3) \<Rightarrow> (Inl er, s3)
              | (Inr inner, s3) \<Rightarrow> (Inr \<lparr>hr_beg = b, hr_end = e, hr_inner = inner\<rparr>, s3))))"
  by (auto simp: deserialize_hash_region_def seq_deser_def split: prod.splits sum.splits)

lemma hash_region_roundtrip:
  assumes ok: "hash_region_ok r" and "key_ok j" and data: "rs_data s = serialize_hash_region j r @ rest"
  shows "\<exists>s'. deserialize_hash_region s = (Inr r, s') \<and> rs_data s' = rest"
proof -
  have inner: "key_range_ok (hr_inner r)" and range: "0 = hr_end r \<and> 0 = hr_beg r \<or> hr_beg r < hr_end r"
    using ok by (auto simp: hash_region_ok_def hash_region_empty_def)
  obtain s1 where s1: "seq_deser deserialize_u64 deserialize_u64 s = (Inr (hr_beg r, hr_end r), s1)"
    "rs_data s1 = serialize_key_range j (hr_inner r) @ rest"
    using intervalc.seq.deser_ser [where x = "(hr_beg r, hr_end r)" and s = s
        and rest = "serialize_key_range j (hr_inner r) @ rest"] data
    by (auto simp: serialize_hash_region_def seq_ser_def)
  obtain s2 where "deserialize_key_range s1 = (Inr (hr_inner r), s2)" "rs_data s2 = rest"
    using metainfo_range.deser_ser [of "hr_inner r" j s1 rest] inner assms(2) s1(2) by blast
  with s1(1) range show ?thesis
    by (simp add: deserialize_hash_region_seq)
qed

lemma deserialize_hash_region_interval:
  assumes "deserialize_hash_region s = (Inr r, s')"
  shows "hr_beg r = 0 \<and> hr_end r = 0 \<or> hr_beg r < hr_end r"
  using assms by (auto simp: deserialize_hash_region_def split: prod.splits sum.splits if_splits)


section \<open>Properties\<close>

text \<open>
  Property C14. Joining hash regions (\<open>region_join\<close>): for up to 16384 well-formed non-empty
  regions the grid algorithm does not abort; it reports a region exactly when the pieces are
  disjoint and tile it, reports an overlap only when two pieces overlap, and reports a bad region
  only when no region at all is the union of the pieces.
\<close>

theorem region_join_correct:
  assumes "length vec \<le> 2 ^ 14"
    and "\<And>p. p \<in> set vec \<Longrightarrow> hash_region_ok p \<and> region_points p \<noteq> {}"
  shows "\<exists>res. region_join vec = Some res \<and>
    (case res of
       REGION_JOIN_OK r \<Rightarrow>
         hash_region_ok r \<and> region_points r = (\<Union>p \<in> set vec. region_points p) \<and>
         disjoint_pieces region_points vec
     | REGION_JOIN_BAD_JOIN \<Rightarrow> \<not> disjoint_pieces region_points vec
     | REGION_JOIN_BAD_REGION \<Rightarrow>
         \<not> (\<exists>r. hash_region_ok r \<and> region_points r = (\<Union>p \<in> set vec. region_points p)))"
  using hash.join_reports [OF assms] unfolding join_reports_def .

text \<open>Two regions side by side in the hash dimension.\<close>

definition example_low :: hash_region where
  "example_low = \<lparr>hr_beg = 0, hr_end = 8, hr_inner = \<lparr>kr_left = Store_key [1], kr_right = Unbounded\<rparr>\<rparr>"

definition example_high :: hash_region where
  "example_high = \<lparr>hr_beg = 8, hr_end = 20, hr_inner = \<lparr>kr_left = Store_key [1], kr_right = Unbounded\<rparr>\<rparr>"

lemma example_regions_ok:
  "hash_region_ok example_low" "region_points example_low \<noteq> {}"
  "hash_region_ok example_high" "region_points example_high \<noteq> {}"
proof -
  show ok: "hash_region_ok example_low" "hash_region_ok example_high" by code_simp+
  have "\<not> region_is_empty example_low" "\<not> region_is_empty example_high" by code_simp+
  then show "region_points example_low \<noteq> {}" "region_points example_high \<noteq> {}"
    using ok by (simp_all add: hash.empty_iff)
qed

theorem region_join_correct_witness:
  "disjoint_pieces region_points [example_low, example_high] \<and>
   region_join [example_low, example_high] =
     Some (REGION_JOIN_OK (example_low\<lparr>hr_end := 20\<rparr>))"
proof -
  have "region_join [example_low, example_high] =
      Some (REGION_JOIN_OK (example_low\<lparr>hr_end := 20\<rparr>))" by code_simp
  then show ?thesis
    using region_join_correct [of "[example_low, example_high]"] example_regions_ok by auto
qed

text \<open>
  Property C18. Subtracting hash regions (\<open>region_subtract_many\<close>): from a non-empty region any
  list of regions can be subtracted without an abort, and the result is a list of non-empty,
  pairwise disjoint, well-formed regions that cover exactly what is left.
\<close>

theorem region_subtract_many_correct:
  assumes "hash_region_ok m" and "region_points m \<noteq> {}"
    and "\<And>s. s \<in> set subtrahends \<Longrightarrow> hash_region_ok s"
  shows "\<exists>ps. region_subtract_many m subtrahends = Some ps \<and>
    (\<forall>p \<in> set ps. hash_region_ok p \<and> region_points p \<noteq> {}) \<and>
    (\<Union>p \<in> set ps. region_points p) =
      region_points m - (\<Union>s \<in> set subtrahends. region_points s) \<and>
    disjoint_pieces region_points ps"
  using hash.diff_many_one [OF assms] unfolding region_subtract_many_def cuts_def .

theorem region_subtract_many_correct_witness:
  "\<exists>ps. region_subtract_many example_low
       [\<lparr>hr_beg = 2, hr_end = 5, hr_inner = \<lparr>kr_left = Store_key [3], kr_right = Bound (Store_key [4])\<rparr>\<rparr>] =
     Some ps \<and> length ps = 4 \<and> disjoint_pieces region_points ps"
proof -
  let ?s = "\<lparr>hr_beg = 2, hr_end = 5, hr_inner = \<lparr>kr_left = Store_key [3], kr_right = Bound (Store_key [4])\<rparr>\<rparr>"
  have "hash_region_ok ?s" by code_simp
  then obtain ps where "region_subtract_many example_low [?s] = Some ps"
    "disjoint_pieces region_points ps"
    using region_subtract_many_correct [OF example_regions_ok(1,2), of "[?s]"] by auto
  moreover have "map_option length (region_subtract_many example_low [?s]) = Some 4" by code_simp
  ultimately show ?thesis by auto
qed

text \<open>
  Property C19. On well-formed hash regions \<open>region_is_empty\<close>, \<open>region_is_superset\<close>,
  \<open>region_overlaps\<close> and \<open>region_intersection\<close> agree with the sets of points, and the
  intersection never runs into the \<open>guarantee\<close>s of the constructor.
\<close>

theorem hash_region_algebra:
  assumes "hash_region_ok a" and "hash_region_ok b"
  shows "(region_is_empty a \<longleftrightarrow> region_points a = {}) \<and>
         (region_is_superset a b \<longleftrightarrow> region_points b \<subseteq> region_points a) \<and>
         (region_overlaps a b \<longleftrightarrow> region_points a \<inter> region_points b \<noteq> {}) \<and>
         (\<exists>c. region_intersection a b = Some c \<and> hash_region_ok c \<and>
              region_points c = region_points a \<inter> region_points b)"
  using assms by (simp add: hash.empty_iff hash.superset_iff hash.overlaps_iff hash.inter_points)

theorem hash_region_algebra_witness:
  "hash_region_ok example_low \<and> hash_region_ok example_high \<and>
   region_intersection example_low example_high = Some hash_region_empty \<and>
   region_points example_low \<inter> region_points example_high = {}"
proof -
  have "region_intersection example_low example_high = Some hash_region_empty" by code_simp
  then show ?thesis
    using hash_region_algebra [OF example_regions_ok(1,3)] example_regions_ok by auto
qed

text \<open>
  Joining key ranges (the overload of \<open>region_join\<close> for \<open>key_range_t\<close>) on
  non-empty ranges: in whatever order \<open>std::sort\<close> leaves ranges with the same left end, the
  result names the tiled range, an overlap, or that no range is the union.
\<close>

theorem key_region_join_correct:
  assumes "vec \<noteq> []" and "\<And>r. r \<in> set vec \<Longrightarrow> key_range_ok r \<and> key_set r \<noteq> {}"
    and "mset rs = mset vec" and "sorted (map kr_left rs)"
  shows "case region_join_sorted rs of
       REGION_JOIN_OK r \<Rightarrow>
         key_range_ok r \<and> key_set r = (\<Union>p \<in> set vec. key_set p) \<and> disjoint_pieces key_set vec
     | REGION_JOIN_BAD_JOIN \<Rightarrow> \<not> disjoint_pieces key_set vec
     | REGION_JOIN_BAD_REGION \<Rightarrow>
         \<not> (\<exists>r. key_range_ok r \<and> key_set r = (\<Union>p \<in> set vec. key_set p))"
proof -
  have "rs \<noteq> []" and "set rs = set vec"
    using assms(1,3) by (metis mset_zero_iff, metis set_mset_mset)
  then have "join_reports key_set key_range_ok rs (region_join_sorted rs)"
    using assms(2,4) by (intro region_join_sorted_reports) auto
  then show ?thesis
    using join_reports_perm [OF assms(3), of key_set key_range_ok] unfolding join_reports_def by blast
qed

text \<open>
  The metainfo format of a hash region round-trips, and a reader that accepts a
  region has checked its hash interval: it is proper, or both ends are zero.
\<close>

theorem hash_region_metainfo_roundtrip:
  assumes "hash_region_ok r" and "key_ok j"
  shows "(\<exists>s'. deserialize_hash_region (stream_of (serialize_hash_region j r @ rest)) = (Inr r, s') \<and>
               rs_data s' = rest) \<and>
         (\<forall>s x s'. deserialize_hash_region s = (Inr x, s') \<longrightarrow>
             hr_beg x = 0 \<and> hr_end x = 0 \<or> hr_beg x < hr_end x)"
  using hash_region_roundtrip [OF assms, of "stream_of (serialize_hash_region j r @ rest)" rest]
    deserialize_hash_region_interval by (auto simp: stream_of_def)

text \<open>
  \<open>hash_region_hasher\<close> returns values below \<open>HASH_REGION_HASH_SIZE\<close>, so that the
  hash interval of an unsharded region contains the hash of every key, and the spreading step
  mirrors the eight bits of a character into bits 62 to 55, as its comment says.
\<close>

theorem hasher_range_and_spread:
  "hash_region_hasher k < HASH_REGION_HASH_SIZE \<and>
   map (\<lambda>i. bit (hash_spread ch) (62 - i)) [0..<8] = map (bit ch) [0..<8]"
  using hash_region_hasher_bound hash_spread_mirrors by simp

end
