(* ===== verification/Range_Map.thy ===== *)
theory Range_Map
  imports Rdb_Prelude
begin

text \<open>
  \<open>containers/range_map.hpp\<close>: maps from contiguous ranges of edges to values. A zone is stored
  under its right edge; the left edge of the first zone is kept separately. Dereferencing the
  end iterator is \<open>None\<close>; the theorems show that this cannot happen inside the domain. Callbacks
  are functions that may themselves abort.
\<close>

section \<open>The data structure\<close>

record ('e, 'v) range_map =
  rm_left :: 'e
  rm_zones :: "('e, 'v) omap"

definition range_map_point :: "'e \<Rightarrow> ('e::linorder, 'v) range_map" where
  "range_map_point l_and_r = \<lparr>rm_left = l_and_r, rm_zones = []\<rparr>"

definition range_map_of :: "'e \<Rightarrow> 'e \<Rightarrow> 'v \<Rightarrow> ('e::linorder, 'v) range_map" where
  "range_map_of l r v = \<lparr>rm_left = l, rm_zones = (if r \<noteq> l then [(r, v)] else [])\<rparr>"

definition left_edge :: "('e::linorder, 'v) range_map \<Rightarrow> 'e" where
  "left_edge m = rm_left m"

definition right_edge :: "('e::linorder, 'v) range_map \<Rightarrow> 'e" where
  "right_edge m = (if rm_zones m \<noteq> [] then fst (last (rm_zones m)) else rm_left m)"

definition empty_domain :: "('e::linorder, 'v) range_map \<Rightarrow> bool" where
  "empty_domain m \<longleftrightarrow> rm_zones m = []"

definition rm_lookup :: "('e::linorder, 'v) range_map \<Rightarrow> 'e \<Rightarrow> 'v option" where
  "rm_lookup m before_point =
     (case omap_upper_bound before_point (rm_zones m) of [] \<Rightarrow> None | (e, v) # _ \<Rightarrow> Some v)"

section \<open>Visiting\<close>

text \<open>The calls of the callback, in order.\<close>

fun visit_loop :: "'e::linorder \<Rightarrow> 'e \<Rightarrow> ('e, 'v) omap \<Rightarrow> ('e \<times> 'e \<times> 'v) list option" where
  "visit_loop prev r [] = None"
| "visit_loop prev r ((e, v) # it) =
     (if e < r then map_option ((#) (prev, e, v)) (visit_loop e r it)
      else Some [(prev, r, v)])"

definition rm_visit :: "('e::linorder, 'v) range_map \<Rightarrow> 'e \<Rightarrow> 'e \<Rightarrow> ('e \<times> 'e \<times> 'v) list option" where
  "rm_visit m l r =
     (if l = r then Some [] else visit_loop l r (omap_upper_bound l (rm_zones m)))"

section \<open>Coalescing\<close>

definition coalesce_at :: "'e \<Rightarrow> ('e::linorder, 'v) omap \<Rightarrow> ('e, 'v) omap option" where
  "coalesce_at edge zones =
     (case dropWhile (\<lambda>(e, v). e \<noteq> edge) zones of
        (e, v) # (e', w) # _ \<Rightarrow> Some (if v = w then omap_erase edge zones else zones)
      | _ \<Rightarrow> None)"

fun coalesce_loop :: "'e::linorder \<Rightarrow> ('e, 'v) omap \<Rightarrow> ('e, 'v) omap" where
  "coalesce_loop r ((e, v) # (e', w) # zones) =
     (if e \<le> r then
        (if v = w then coalesce_loop r ((e', w) # zones)
         else (e, v) # coalesce_loop r ((e', w) # zones))
      else (e, v) # (e', w) # zones)"
| "coalesce_loop r zones = zones"

definition coalesce_range :: "'e \<Rightarrow> 'e \<Rightarrow> ('e::linorder, 'v) range_map \<Rightarrow> ('e, 'v) range_map" where
  "coalesce_range l r m =
     (if l = rm_left m then m\<lparr>rm_zones := coalesce_loop r (rm_zones m)\<rparr>
      else m\<lparr>rm_zones := takeWhile (\<lambda>(e, v). e \<noteq> l) (rm_zones m) @
                         coalesce_loop r (dropWhile (\<lambda>(e, v). e \<noteq> l) (rm_zones m))\<rparr>)"

section \<open>Extending\<close>

definition extend_right :: "('e::linorder, 'v) range_map \<Rightarrow> ('e, 'v) range_map \<Rightarrow> ('e, 'v) range_map option" where
  "extend_right m other =
     (if empty_domain other then Some m
      else
        (let empty_before = empty_domain m;
             zones = omap_insert_all (rm_zones other) (rm_zones m)
         in if \<not> empty_before
            then map_option (\<lambda>z. m\<lparr>rm_zones := z\<rparr>) (coalesce_at (rm_left other) zones)
            else Some (m\<lparr>rm_zones := zones\<rparr>)))"

definition extend_right_value :: "'e \<Rightarrow> 'e \<Rightarrow> 'v \<Rightarrow> ('e::linorder, 'v) range_map \<Rightarrow> ('e, 'v) range_map option" where
  "extend_right_value l r v m =
     (if l = r then Some m
      else
        (let empty_before = empty_domain m;
             zones = omap_insert r v (rm_zones m)
         in if \<not> empty_before
            then map_option (\<lambda>z. m\<lparr>rm_zones := z\<rparr>) (coalesce_at l zones)
            else Some (m\<lparr>rm_zones := zones\<rparr>)))"

definition extend_left :: "('e::linorder, 'v) range_map \<Rightarrow> ('e, 'v) range_map \<Rightarrow> ('e, 'v) range_map option" where
  "extend_left m other =
     (if empty_domain other then Some m
      else
        (let empty_before = empty_domain m;
             zones = omap_insert_all (rm_zones other) (rm_zones m)
         in map_option (\<lambda>z. \<lparr>rm_left = rm_left other, rm_zones = z\<rparr>)
              (if \<not> empty_before then coalesce_at (rm_left m) zones else Some zones)))"

definition extend_left_value :: "'e \<Rightarrow> 'e \<Rightarrow> 'v \<Rightarrow> ('e::linorder, 'v) range_map \<Rightarrow> ('e, 'v) range_map option" where
  "extend_left_value l r v m =
     (if l = r then Some m
      else
        (let empty_before = empty_domain m;
             zones = omap_insert r v (rm_zones m)
         in map_option (\<lambda>z. \<lparr>rm_left = l, rm_zones = z\<rparr>)
              (if \<not> empty_before then coalesce_at r zones else Some zones)))"

section \<open>Deriving maps\<close>

definition rm_map :: "('v \<Rightarrow> 'w option) \<Rightarrow> ('e::linorder, 'v) range_map \<Rightarrow> 'e \<Rightarrow> 'e \<Rightarrow> ('e, 'w) range_map option" where
  "rm_map cb m l r =
     do {
       calls \<leftarrow> rm_visit m l r;
       fold_opt (\<lambda>(l2, r2, v) res. do { w \<leftarrow> cb v; extend_right_value l2 r2 w res }) calls
         (range_map_point l)
     }"

definition rm_map_multi ::
  "('e \<Rightarrow> 'e \<Rightarrow> 'v \<Rightarrow> ('e, 'w) range_map option) \<Rightarrow> ('e::linorder, 'v) range_map \<Rightarrow> 'e \<Rightarrow> 'e \<Rightarrow>
     ('e, 'w) range_map option" where
  "rm_map_multi cb m l r =
     do {
       calls \<leftarrow> rm_visit m l r;
       fold_opt (\<lambda>(l2, r2, v) res. do { frags \<leftarrow> cb l2 r2 v; extend_right res frags }) calls
         (range_map_point l)
     }"

definition rm_mask :: "('e::linorder, 'v) range_map \<Rightarrow> 'e \<Rightarrow> 'e \<Rightarrow> ('e, 'v) range_map option" where
  "rm_mask m l r =
     do {
       calls \<leftarrow> rm_visit m l r;
       fold_opt (\<lambda>(l2, r2, v) res. extend_right_value l2 r2 v res) calls (range_map_point l)
     }"

section \<open>Overwriting\<close>

text \<open>Splitting the zone that spans the left edge of the new values.\<close>

definition update_split :: "'e \<Rightarrow> ('e::linorder, 'v) range_map \<Rightarrow> ('e, 'v) omap option" where
  "update_split edge m =
     (if edge \<noteq> rm_left m then
        (case omap_lower_bound edge (rm_zones m) of
           [] \<Rightarrow> None
         | (e, v) # _ \<Rightarrow>
             Some (if e = edge then rm_zones m else omap_insert edge v (rm_zones m)))
      else Some (rm_zones m))"

text \<open>Erasing the zones whose right edge lies in \<open>(l, r]\<close>, from \<open>upper_bound(l)\<close> to \<open>end\<close>.\<close>

definition update_erase :: "'e \<Rightarrow> 'e \<Rightarrow> ('e::linorder, 'v) omap \<Rightarrow> ('e, 'v) omap option" where
  "update_erase l r zones =
     (case omap_lower_bound r zones of
        [] \<Rightarrow> None
      | (e, v) # rest \<Rightarrow>
          Some (takeWhile (\<lambda>(e, v). e \<le> l) zones @ (if e = r then rest else (e, v) # rest)))"

definition coalesce_unless :: "bool \<Rightarrow> 'e \<Rightarrow> ('e::linorder, 'v) range_map \<Rightarrow> ('e, 'v) range_map option" where
  "coalesce_unless skip edge m =
     (if skip then Some m else map_option (\<lambda>z. m\<lparr>rm_zones := z\<rparr>) (coalesce_at edge (rm_zones m)))"

definition rm_update :: "('e::linorder, 'v) range_map \<Rightarrow> ('e, 'v) range_map \<Rightarrow> ('e, 'v) range_map option" where
  "rm_update m other =
     (if empty_domain other then Some m
      else
        do {
          zones1 \<leftarrow> update_split (left_edge other) m;
          zones2 \<leftarrow> update_erase (left_edge other) (right_edge other) zones1;
          let m3 = m\<lparr>rm_zones := omap_insert_all (rm_zones other) zones2\<rparr>;
          m4 \<leftarrow> coalesce_unless (left_edge m3 = left_edge other) (left_edge other) m3;
          coalesce_unless (right_edge m4 = right_edge other) (right_edge other) m4
        })"

definition rm_update_value :: "'e \<Rightarrow> 'e \<Rightarrow> 'v \<Rightarrow> ('e::linorder, 'v) range_map \<Rightarrow> ('e, 'v) range_map option" where
  "rm_update_value l r v m = rm_update m (range_map_of l r v)"

text \<open>
  The loop of \<open>visit_mutable\<close> over the zones right of \<open>l\<close>; the zone that spans \<open>r\<close> is split
  there.
\<close>

fun mutate_loop ::
  "('e \<Rightarrow> 'e \<Rightarrow> 'v \<Rightarrow> 'v option) \<Rightarrow> 'e::linorder \<Rightarrow> 'e \<Rightarrow> ('e, 'v) omap \<Rightarrow> ('e, 'v) omap option" where
  "mutate_loop cb prev r [] = None"
| "mutate_loop cb prev r ((e, v) # it) =
     (if e < r then
        do { w \<leftarrow> cb prev e v; rest \<leftarrow> mutate_loop cb e r it; Some ((e, w) # rest) }
      else if e \<noteq> r then do { w \<leftarrow> cb prev r v; Some ((r, w) # (e, v) # it) }
      else do { w \<leftarrow> cb prev r v; Some ((e, w) # it) })"

definition rm_visit_mutable ::
  "('e \<Rightarrow> 'e \<Rightarrow> 'v \<Rightarrow> 'v option) \<Rightarrow> 'e \<Rightarrow> 'e \<Rightarrow> ('e::linorder, 'v) range_map \<Rightarrow> ('e, 'v) range_map option" where
  "rm_visit_mutable cb l r m =
     (if l = r then Some m
      else
        (let it = omap_upper_bound l (rm_zones m);
             before = takeWhile (\<lambda>(e, v). e \<le> l) (rm_zones m)
         in do {
              chopped \<leftarrow>
                (if l \<noteq> rm_left m \<and> l \<notin> fst ` set (rm_zones m)
                 then (case it of [] \<Rightarrow> None | (e, v) # _ \<Rightarrow> Some [(l, v)])
                 else Some []);
              after \<leftarrow> mutate_loop cb l r it;
              Some (coalesce_range l r (m\<lparr>rm_zones := before @ chopped @ after\<rparr>))
            }))"


section \<open>The meaning of a range map\<close>

definition zval :: "('e::linorder, 'v) omap \<Rightarrow> 'e \<Rightarrow> 'v option" where
  "zval zs e = (case omap_upper_bound e zs of [] \<Rightarrow> None | (k, v) # _ \<Rightarrow> Some v)"

definition coalesced :: "('e, 'v) omap \<Rightarrow> bool" where
  "coalesced zs \<longleftrightarrow> successively (\<lambda>a b. snd a \<noteq> snd b) zs"

text \<open>The invariant \<open>validate()\<close> checks, and the order of the zones.\<close>

definition rm_ok :: "('e::linorder, 'v) range_map \<Rightarrow> bool" where
  "rm_ok m \<longleftrightarrow> omap_ok (rm_zones m) \<and> (\<forall>k \<in> fst ` set (rm_zones m). rm_left m < k) \<and> coalesced (rm_zones m)"

text \<open>\<open>rm_at m\<close>: the value right of each edge of the domain.\<close>

definition rm_at :: "('e::linorder, 'v) range_map \<Rightarrow> 'e \<Rightarrow> 'v option" where
  "rm_at m e = (if rm_left m \<le> e then zval (rm_zones m) e else None)"

lemma zval_simps [simp]:
  "zval [] e = None"
  "zval ((k, v) # zs) e = (if k \<le> e then zval zs e else Some v)"
  by (simp_all add: zval_def omap_upper_bound_def)

lemma zval_append: "zval (xs @ ys) e = (case zval xs e of None \<Rightarrow> zval ys e | Some v \<Rightarrow> Some v)"
  by (induction xs) auto

lemma zval_None: "zval zs e = None \<longleftrightarrow> (\<forall>k \<in> fst ` set zs. k \<le> e)"
  by (induction zs) (auto split: if_splits)

lemma zval_Some_in: "zval zs e = Some v \<Longrightarrow> v \<in> snd ` set zs"
  by (induction zs) (auto split: if_splits)

lemma omap_ok_last:
  assumes "omap_ok zs" and "k \<in> fst ` set zs"
  shows "k \<le> fst (last zs)"
proof -
  have "zs \<noteq> []" using assms(2) by auto
  then obtain ys y where zs: "zs = ys @ [y]" by (metis rev_exhaust)
  then show ?thesis using assms by (auto simp: omap_ok_append omap_ok_def sorted_wrt_append less_imp_le)
qed

lemma rm_at_dom:
  assumes "rm_ok m"
  shows "rm_at m e \<noteq> None \<longleftrightarrow> rm_left m \<le> e \<and> e < right_edge m"
proof (cases "rm_zones m = []")
  case True
  then show ?thesis by (auto simp: rm_at_def right_edge_def)
next
  case False
  then have "fst (last (rm_zones m)) \<in> fst ` set (rm_zones m)" by simp
  moreover have "k \<le> fst (last (rm_zones m))" if "k \<in> fst ` set (rm_zones m)" for k
    using assms that by (auto simp: rm_ok_def intro: omap_ok_last)
  ultimately have "zval (rm_zones m) e = None \<longleftrightarrow> fst (last (rm_zones m)) \<le> e"
    unfolding zval_None by (meson order.trans)
  then show ?thesis
    using False by (auto simp: rm_at_def right_edge_def not_le [symmetric])
qed

lemma left_le_right: "rm_ok m \<Longrightarrow> rm_left m \<le> right_edge m"
  by (auto simp: rm_ok_def right_edge_def less_imp_le)

lemma rm_ok_point [simp]: "rm_ok (range_map_point l)"
  by (simp add: rm_ok_def range_map_point_def coalesced_def)

lemma rm_ok_of: "l \<le> r \<Longrightarrow> rm_ok (range_map_of l r v)"
  by (auto simp: rm_ok_def range_map_of_def coalesced_def)

lemma edges_simps [simp]:
  "rm_left (range_map_point l) = l" "right_edge (range_map_point l) = l"
  "rm_left (range_map_of l r v) = l" "right_edge (range_map_of l r v) = r"
  by (simp_all add: range_map_point_def range_map_of_def right_edge_def)

lemma rm_at_of: "rm_at (range_map_of l r v) e = (if l \<le> e \<and> e < r then Some v else None)"
  by (auto simp: rm_at_def range_map_of_def)

lemma rm_at_point [simp]: "rm_at (range_map_point l) e = None"
  by (simp add: rm_at_def range_map_point_def)

subsection \<open>Coalescing keeps the meaning\<close>

text \<open>Two adjacent blocks of zones, with the zones at the seam merged when they agree.\<close>

definition zjoin :: "('e, 'v) omap \<Rightarrow> ('e, 'v) omap \<Rightarrow> ('e, 'v) omap" where
  "zjoin xs ys =
     (if xs \<noteq> [] \<and> ys \<noteq> [] \<and> snd (last xs) = snd (hd ys) then butlast xs @ ys else xs @ ys)"

lemma zjoin_Nil [simp]: "zjoin [] ys = ys" "zjoin xs [] = xs"
  by (simp_all add: zjoin_def)

lemma zval_merge:
  "k < k' \<Longrightarrow> zval (xs @ (k, v) # (k', v) # ys) = zval (xs @ (k', v) # ys)"
  by (rule ext) (auto simp: zval_append split: option.splits)

lemma zjoin_cases:
  assumes "xs \<noteq> []" and "ys \<noteq> []"
  obtains (merge) us k k' v vs where "xs = us @ [(k, v)]" "ys = (k', v) # vs" "zjoin xs ys = us @ (k', v) # vs"
  | (keep) "snd (last xs) \<noteq> snd (hd ys)" "zjoin xs ys = xs @ ys"
proof (cases "snd (last xs) = snd (hd ys)")
  case True
  obtain us k v where xs: "xs = us @ [(k, v)]" using assms(1) by (metis rev_exhaust surj_pair)
  obtain k' w vs where ys: "ys = (k', w) # vs" using assms(2) by (metis neq_Nil_conv surj_pair)
  show thesis using True xs ys by (intro merge) (auto simp: zjoin_def)
next
  case False
  then show thesis using assms by (intro keep) (simp_all add: zjoin_def)
qed

lemma zval_zjoin:
  assumes "omap_ok (xs @ ys)"
  shows "zval (zjoin xs ys) = zval (xs @ ys)"
proof (cases "xs = [] \<or> ys = []")
  case False
  then have "xs \<noteq> []" "ys \<noteq> []" by auto
  then show ?thesis
  proof (cases rule: zjoin_cases)
    case (merge us k k' v vs)
    then have "k < k'" using assms by (auto simp: omap_ok_append omap_ok_Cons)
    with merge show ?thesis by (simp add: zval_merge)
  qed simp
qed auto

lemma zjoin_ok:
  assumes "omap_ok (xs @ ys)"
  shows "omap_ok (zjoin xs ys)"
proof (cases "xs = [] \<or> ys = []")
  case True
  then show ?thesis using assms by auto
next
  case False
  then have "xs \<noteq> []" "ys \<noteq> []" by auto
  then show ?thesis
  proof (cases rule: zjoin_cases)
    case (merge us k k' v vs)
    with assms show ?thesis by (auto simp: omap_ok_append omap_ok_Cons)
  qed (use assms in simp)
qed

lemma zjoin_coalesced:
  assumes "coalesced xs" and "coalesced ys"
  shows "coalesced (zjoin xs ys)"
proof (cases "xs = [] \<or> ys = []")
  case True
  then show ?thesis using assms by auto
next
  case False
  then have "xs \<noteq> []" "ys \<noteq> []" by auto
  then show ?thesis
  proof (cases rule: zjoin_cases)
    case (merge us k k' v vs)
    with assms show ?thesis by (auto simp: coalesced_def successively_append_iff)
  next
    case keep
    with assms show ?thesis by (simp add: coalesced_def successively_append_iff)
  qed
qed

lemma zjoin_keys: "fst ` set (zjoin xs ys) \<subseteq> fst ` set xs \<union> fst ` set ys"
  by (auto simp: zjoin_def dest: in_set_butlastD)

lemma zjoin_last: "ys \<noteq> [] \<Longrightarrow> last (zjoin xs ys) = last ys"
  by (simp add: zjoin_def)

lemma zjoin_eq_Nil [simp]: "zjoin xs ys = [] \<longleftrightarrow> xs = [] \<and> ys = []"
  by (auto simp: zjoin_def)

lemma coalesce_at_seam:
  assumes "omap_ok (xs @ ys)" and "xs \<noteq> []" and "ys \<noteq> []"
  shows "coalesce_at (fst (last xs)) (xs @ ys) = Some (zjoin xs ys)"
proof -
  obtain us k v where xs: "xs = us @ [(k, v)]" using assms(2) by (metis rev_exhaust surj_pair)
  obtain k' w vs where ys: "ys = (k', w) # vs" using assms(3) by (metis neq_Nil_conv surj_pair)
  have other: "e \<noteq> k" if "(e, x) \<in> set us \<union> set ys" for e x
    using assms(1) that by (force simp: xs omap_ok_append omap_ok_Cons)
  then have drop: "dropWhile (\<lambda>(e, v). e \<noteq> k) (xs @ ys) = (k, v) # ys"
    by (subst xs, simp, subst dropWhile_append2) auto
  have "omap_erase k (xs @ ys) = us @ ys"
  proof -
    have "filter (\<lambda>(e, v). e \<noteq> k) us = us" "filter (\<lambda>(e, v). e \<noteq> k) ys = ys"
      using other by (auto intro!: filter_True)
    then show ?thesis by (simp add: omap_erase_def xs)
  qed
  with drop show ?thesis
    unfolding coalesce_at_def by (auto simp: xs ys zjoin_def)
qed


lemma coalesce_loop_hd: "zs \<noteq> [] \<Longrightarrow> coalesce_loop r zs \<noteq> [] \<and> snd (hd (coalesce_loop r zs)) = snd (hd zs)"
  by (induction r zs rule: coalesce_loop.induct) auto

lemma coalesce_loop_keys: "fst ` set (coalesce_loop r zs) \<subseteq> fst ` set zs"
  by (induction r zs rule: coalesce_loop.induct) auto

lemma coalesce_loop_ok: "omap_ok zs \<Longrightarrow> omap_ok (coalesce_loop r zs) \<and> zval (coalesce_loop r zs) = zval zs"
proof (induction r zs rule: coalesce_loop.induct)
  case (1 r e v e' w zs)
  have less: "e < e'" and tail: "omap_ok ((e', w) # zs)"
    using "1.prems" by (auto simp: omap_ok_Cons)
  have above: "e < k" if "k \<in> fst ` set (coalesce_loop r ((e', w) # zs))" for k
    using subsetD [OF coalesce_loop_keys that] "1.prems" by (auto simp: omap_ok_Cons)
  have merge: "zval ((e, w) # (e', w) # zs) = zval ((e', w) # zs)"
    using zval_merge [OF less, of "[]" w zs] by (simp del: zval_simps)
  consider (stop) "\<not> e \<le> r" | (same) "e \<le> r" "v = w" | (differ) "e \<le> r" "v \<noteq> w" by blast
  then show ?case
  proof cases
    case stop
    then show ?thesis using "1.prems" by simp
  next
    case same
    then show ?thesis using "1.IH"(1) tail merge by (simp del: zval_simps)
  next
    case differ
    then have IH: "omap_ok (coalesce_loop r ((e', w) # zs))"
      "zval (coalesce_loop r ((e', w) # zs)) = zval ((e', w) # zs)"
      using "1.IH"(2) tail by auto
    then have "zval ((e, v) # coalesce_loop r ((e', w) # zs)) = zval ((e, v) # (e', w) # zs)"
      by (intro ext) (simp only: zval_simps(2))
    with differ IH(1) above show ?thesis by (auto simp: omap_ok_Cons simp del: zval_simps)
  qed
qed simp_all

lemma coalesce_loop_last: "zs \<noteq> [] \<Longrightarrow> last (coalesce_loop r zs) = last zs"
proof (induction r zs rule: coalesce_loop.induct)
  case (1 r e v e' w zs)
  then show ?case using coalesce_loop_hd [of "(e', w) # zs" r] by auto
qed simp_all

lemma coalesce_loop_coalesced:
  assumes "omap_ok zs" and "coalesced (dropWhile (\<lambda>(e, v). e \<le> r) zs)"
  shows "coalesced (coalesce_loop r zs)"
  using assms
proof (induction r zs rule: coalesce_loop.induct)
  case (1 r e v e' w zs)
  have tail: "omap_ok ((e', w) # zs)" using "1.prems"(1) by (auto simp: omap_ok_Cons)
  show ?case
  proof (cases "e \<le> r")
    case True
    obtain h t where loop: "coalesce_loop r ((e', w) # zs) = h # t" "snd h = w"
      using coalesce_loop_hd [of "(e', w) # zs" r] by (cases "coalesce_loop r ((e', w) # zs)") auto
    then show ?thesis
      using True "1.IH" tail "1.prems"(2) by (cases "v = w") (auto simp: coalesced_def)
  next
    case False
    then show ?thesis using "1.prems"(2) by simp
  qed
qed (auto simp: coalesced_def)

subsection \<open>Extending\<close>

lemma extend_right_zones:
  assumes "rm_ok m" and "rm_ok other" and "right_edge m = rm_left other"
  shows "extend_right m other = Some (m\<lparr>rm_zones := zjoin (rm_zones m) (rm_zones other)\<rparr>)"
    and "omap_ok (rm_zones m @ rm_zones other)"
proof -
  have keys: "a < b" if "a \<in> fst ` set (rm_zones m)" "b \<in> fst ` set (rm_zones other)" for a b
  proof -
    have "a \<le> right_edge m"
      using that(1) assms(1) omap_ok_last by (auto simp: right_edge_def rm_ok_def)
    with that(2) assms show ?thesis by (auto simp: rm_ok_def)
  qed
  with assms show ok: "omap_ok (rm_zones m @ rm_zones other)"
    by (auto simp: omap_ok_append rm_ok_def)
  have ins: "omap_insert_all (rm_zones other) (rm_zones m) = rm_zones m @ rm_zones other"
    using omap_insert_all_middle [of "rm_zones other" "rm_zones m" "[]"] keys assms(2)
    by (simp add: rm_ok_def)
  show "extend_right m other = Some (m\<lparr>rm_zones := zjoin (rm_zones m) (rm_zones other)\<rparr>)"
  proof (cases "rm_zones m = [] \<or> rm_zones other = []")
    case True
    then show ?thesis using ins by (auto simp: extend_right_def empty_domain_def)
  next
    case False
    then have "fst (last (rm_zones m)) = rm_left other" using assms(3) by (simp add: right_edge_def)
    then show ?thesis
      using False coalesce_at_seam [OF ok] ins by (simp add: extend_right_def empty_domain_def)
  qed
qed

lemma extend_right_at:
  assumes "rm_ok m" and "rm_ok other" and "right_edge m = rm_left other"
  shows "\<exists>m'. extend_right m other = Some m' \<and> rm_ok m' \<and> rm_left m' = rm_left m \<and>
    right_edge m' = right_edge other \<and>
    (\<forall>e. rm_at m' e = (if e < rm_left other then rm_at m e else rm_at other e))"
proof -
  let ?z = "zjoin (rm_zones m) (rm_zones other)"
  let ?m = "m\<lparr>rm_zones := ?z\<rparr>"
  note ext = extend_right_zones [OF assms]
  have le: "rm_left m \<le> rm_left other" using left_le_right [OF assms(1)] assms(3) by simp
  have "\<forall>k \<in> fst ` set ?z. rm_left m < k"
    using zjoin_keys [of "rm_zones m" "rm_zones other"] assms(1,2) le by (force simp: rm_ok_def)
  then have ok: "rm_ok ?m"
    using zjoin_ok [OF ext(2)] zjoin_coalesced [of "rm_zones m" "rm_zones other"] assms
    by (simp add: rm_ok_def)
  have right: "right_edge ?m = right_edge other"
    using assms(3) zjoin_last [of "rm_zones other" "rm_zones m"]
    by (cases "rm_zones other = []") (auto simp: right_edge_def)
  have "rm_at ?m e = (if e < rm_left other then rm_at m e else rm_at other e)" for e
  proof (cases "e < rm_left other")
    case True
    then show ?thesis
      using rm_at_dom [OF assms(1), of e] assms(3)
      by (cases "rm_left m \<le> e") (auto simp: rm_at_def zval_zjoin [OF ext(2)] zval_append)
  next
    case False
    have "zval (rm_zones m) e = None"
      using rm_at_dom [OF assms(1), of e] assms(3) False le by (auto simp: rm_at_def split: if_splits)
    then show ?thesis
      using False le by (auto simp: rm_at_def zval_zjoin [OF ext(2)] zval_append)
  qed
  with ext(1) ok right show ?thesis by auto
qed

lemma extend_right_value_eq:
  "extend_right_value l r v m = extend_right m (range_map_of l r v)"
  by (auto simp: extend_right_value_def extend_right_def range_map_of_def empty_domain_def
      omap_insert_all_def Let_def)

lemma extend_left_at:
  assumes "rm_ok m" and "rm_ok other" and "right_edge other = rm_left m"
  shows "\<exists>m'. extend_left m other = Some m' \<and> rm_ok m' \<and> rm_left m' = rm_left other \<and>
    right_edge m' = right_edge m \<and>
    (\<forall>e. rm_at m' e = (if e < rm_left m then rm_at other e else rm_at m e))"
proof (cases "empty_domain other")
  case True
  then have "rm_left other = rm_left m" and "rm_at other e = None" for e
    using assms(3) by (auto simp: empty_domain_def right_edge_def rm_at_def)
  moreover have "rm_at m e = None" if "e < rm_left m" for e using that by (auto simp: rm_at_def)
  ultimately show ?thesis using True assms(1) by (simp add: extend_left_def)
next
  case False
  note ext = extend_right_zones [OF assms(2,1,3)]
  have "\<And>e k. e \<in> fst ` set (rm_zones m) \<Longrightarrow> k \<in> fst ` set (rm_zones other) \<Longrightarrow> k < e"
    using ext(2) by (auto simp: omap_ok_append)
  then have ins: "omap_insert_all (rm_zones other) (rm_zones m) = rm_zones other @ rm_zones m"
    using omap_insert_all_middle [of "rm_zones other" "[]" "rm_zones m"] assms(2) by (simp add: rm_ok_def)
  have "extend_left m other = Some (other\<lparr>rm_zones := zjoin (rm_zones other) (rm_zones m)\<rparr>)"
    using False assms(3) coalesce_at_seam [OF ext(2)] ins
    by (cases "rm_zones m = []")
      (auto simp: extend_left_def empty_domain_def right_edge_def)
  with ext(1) extend_right_at [OF assms(2,1,3)] show ?thesis by auto
qed

lemma extend_left_value_eq:
  "r = rm_left m \<Longrightarrow> extend_left_value l r v m = extend_left m (range_map_of l r v)"
  by (auto simp: extend_left_value_def extend_left_def range_map_of_def empty_domain_def
      omap_insert_all_def Let_def)


subsection \<open>Visiting and deriving\<close>

text \<open>The sub-ranges of a visit lie side by side from \<open>l\<close> to \<open>r\<close>.\<close>

fun tiles :: "'e::linorder \<Rightarrow> 'e \<Rightarrow> ('e \<times> 'e \<times> 'v) list \<Rightarrow> bool" where
  "tiles l r [] \<longleftrightarrow> l = r"
| "tiles l r ((a, b, v) # ps) \<longleftrightarrow> a = l \<and> a < b \<and> tiles b r ps"

lemma tiles_le: "tiles l r ps \<Longrightarrow> l \<le> r"
  by (induction l r ps rule: tiles.induct) auto

lemma tiles_bounds: "tiles l r ps \<Longrightarrow> (a, b, v) \<in> set ps \<Longrightarrow> l \<le> a \<and> a < b \<and> b \<le> r"
  by (induction l r ps rule: tiles.induct) (auto dest: tiles_le)

lemma tiles_cover: "tiles l r ps \<Longrightarrow> l \<le> e \<Longrightarrow> e < r \<Longrightarrow> \<exists>a b v. (a, b, v) \<in> set ps \<and> a \<le> e \<and> e < b"
proof (induction l r ps rule: tiles.induct)
  case (2 l r a b v ps)
  show ?case
  proof (cases "e < b")
    case True
    then show ?thesis using "2.prems" by auto
  next
    case False
    then obtain a' b' w where "(a', b', w) \<in> set ps" "a' \<le> e" "e < b'"
      using "2.IH" "2.prems" by (auto simp: not_less)
    then show ?thesis by auto
  qed
qed simp

lemma visit_loop_tiles:
  assumes "omap_ok zs" and "\<And>k. k \<in> fst ` set zs \<Longrightarrow> prev < k" and "prev < r"
    and "\<exists>k \<in> fst ` set zs. r \<le> k"
  shows "\<exists>ps. visit_loop prev r zs = Some ps \<and> tiles prev r ps \<and>
    (\<forall>(a, b, v) \<in> set ps. \<forall>e. a \<le> e \<and> e < b \<longrightarrow> zval zs e = Some v)"
  using assms
proof (induction prev r zs rule: visit_loop.induct)
  case (2 prev r k v zs)
  show ?case
  proof (cases "k < r")
    case True
    have "omap_ok zs" and above: "\<And>j. j \<in> fst ` set zs \<Longrightarrow> k < j"
      using "2.prems"(1) by (auto simp: omap_ok_Cons)
    then obtain ps where ps: "visit_loop k r zs = Some ps" "tiles k r ps"
      "\<forall>(a, b, w) \<in> set ps. \<forall>e. a \<le> e \<and> e < b \<longrightarrow> zval zs e = Some w"
      using "2.IH" [OF True] "2.prems"(4) True by fastforce
    have all: "zval ((k, v) # zs) e = Some w"
      if "(a, b, w) \<in> set ((prev, k, v) # ps)" "a \<le> e" "e < b" for a b w e
      using that ps(3) tiles_bounds [OF ps(2), of a b w] by auto
    have "prev < k" using "2.prems"(2) by simp
    then have "visit_loop prev r ((k, v) # zs) = Some ((prev, k, v) # ps) \<and> tiles prev r ((prev, k, v) # ps)"
      using True ps(1,2) by simp
    with all show ?thesis by blast
  next
    case False
    then show ?thesis using "2.prems"(3) by auto
  qed
qed simp

lemma upper_bound_facts:
  assumes "omap_ok zs"
  shows "omap_ok (omap_upper_bound l zs)" and "k \<in> fst ` set (omap_upper_bound l zs) \<longleftrightarrow> k \<in> fst ` set zs \<and> l < k"
    and "l \<le> e \<Longrightarrow> zval (omap_upper_bound l zs) e = zval zs e"
    and "zs = takeWhile (\<lambda>(e, v). e \<le> l) zs @ omap_upper_bound l zs"
    and "k \<in> fst ` set (takeWhile (\<lambda>(e, v). e \<le> l) zs) \<longleftrightarrow> k \<in> fst ` set zs \<and> k \<le> l"
proof -
  let ?p = "takeWhile (\<lambda>(e, v). e \<le> l) zs" and ?q = "omap_upper_bound l zs"
  show split: "zs = ?p @ ?q" by (simp add: omap_upper_bound_def)
  then have ok: "omap_ok ?p" "omap_ok ?q" "\<And>a b. a \<in> fst ` set ?p \<Longrightarrow> b \<in> fst ` set ?q \<Longrightarrow> a < b"
    using assms omap_ok_append [of ?p ?q] by auto
  show "omap_ok ?q" by (rule ok)
  have low: "k \<le> l" if "k \<in> fst ` set ?p" for k using that by (auto dest: set_takeWhileD)
  have high: "l < k" if "k \<in> fst ` set ?q" for k
  proof (cases ?q)
    case Nil
    then show ?thesis using that by simp
  next
    case (Cons x xs)
    obtain e v where x: "x = (e, v)" by (cases x)
    then have "l < e" using Cons hd_dropWhile [of "\<lambda>(e, v). e \<le> l" zs] by (auto simp: omap_upper_bound_def)
    then show ?thesis using that ok(2) x Cons by (auto simp: omap_ok_Cons)
  qed
  have keys: "fst ` set zs = fst ` set ?p \<union> fst ` set ?q" by (subst split) auto
  show "k \<in> fst ` set ?q \<longleftrightarrow> k \<in> fst ` set zs \<and> l < k"
    and "k \<in> fst ` set ?p \<longleftrightarrow> k \<in> fst ` set zs \<and> k \<le> l"
    using low [of k] high [of k] keys by (metis Un_iff leD)+
  show "zval ?q e = zval zs e" if "l \<le> e"
  proof -
    have "zval ?p e = None" unfolding zval_None using low that by (meson order.trans)
    then show ?thesis by (subst (2) split) (simp add: zval_append)
  qed
qed

lemma rm_visit_tiles:
  assumes "rm_ok m" and "rm_left m \<le> l" and "l \<le> r" and "r \<le> right_edge m"
  shows "\<exists>ps. rm_visit m l r = Some ps \<and> tiles l r ps \<and>
    (\<forall>(a, b, v) \<in> set ps. \<forall>e. a \<le> e \<and> e < b \<longrightarrow> rm_at m e = Some v)"
proof (cases "l = r")
  case True
  then show ?thesis by (simp add: rm_visit_def)
next
  case False
  then have "l < r" using assms(3) by simp
  have zones: "omap_ok (rm_zones m)" using assms(1) by (simp add: rm_ok_def)
  note ub = upper_bound_facts [OF zones, where l = l]
  have "rm_zones m \<noteq> []" using \<open>l < r\<close> assms by (auto simp: right_edge_def)
  then have "right_edge m \<in> fst ` set (rm_zones m)" by (simp add: right_edge_def)
  then have "right_edge m \<in> fst ` set (omap_upper_bound l (rm_zones m))"
    using ub(2) \<open>l < r\<close> assms(4) by auto
  then obtain ps where ps: "visit_loop l r (omap_upper_bound l (rm_zones m)) = Some ps" "tiles l r ps"
    "\<forall>(a, b, v) \<in> set ps. \<forall>e. a \<le> e \<and> e < b \<longrightarrow> zval (omap_upper_bound l (rm_zones m)) e = Some v"
    using visit_loop_tiles [of "omap_upper_bound l (rm_zones m)" l r] ub(1,2) \<open>l < r\<close> assms(4) by blast
  have "rm_at m e = Some v" if "(a, b, v) \<in> set ps" "a \<le> e" "e < b" for a b v e
  proof -
    have "l \<le> e" using tiles_bounds [OF ps(2) that(1)] that by auto
    then show ?thesis
      using ps(3) that ub(3) assms(2) by (fastforce simp: rm_at_def)
  qed
  then show ?thesis using ps(1,2) False by (auto simp: rm_visit_def)
qed

text \<open>Appending one fragment per tile.\<close>

lemma fold_extend_right:
  assumes "tiles l r ps" and "rm_ok res" and "right_edge res = l"
    and "\<And>a b v. (a, b, v) \<in> set ps \<Longrightarrow>
      \<exists>f. cb a b v = Some f \<and> rm_ok f \<and> rm_left f = a \<and> right_edge f = b"
  shows "\<exists>res'. fold_opt (\<lambda>(l2, r2, v) res. do { f \<leftarrow> cb l2 r2 v; extend_right res f }) ps res = Some res' \<and>
    rm_ok res' \<and> rm_left res' = rm_left res \<and> right_edge res' = r \<and>
    (\<forall>e < l. rm_at res' e = rm_at res e) \<and>
    (\<forall>(a, b, v) \<in> set ps. \<forall>f. cb a b v = Some f \<longrightarrow> (\<forall>e. a \<le> e \<and> e < b \<longrightarrow> rm_at res' e = rm_at f e))"
  using assms
proof (induction l r ps arbitrary: res rule: tiles.induct)
  case (1 l r)
  then show ?case by simp
next
  case (2 l r a b v ps)
  have tl: "a = l" "a < b" "tiles b r ps" using "2.prems"(1) by auto
  obtain f where f: "cb a b v = Some f" "rm_ok f" "rm_left f = a" "right_edge f = b"
    using "2.prems"(4) [of a b v] by auto
  obtain m where m: "extend_right res f = Some m" "rm_ok m" "rm_left m = rm_left res" "right_edge m = b"
    "\<And>e. rm_at m e = (if e < a then rm_at res e else rm_at f e)"
    using extend_right_at [OF "2.prems"(2) f(2)] "2.prems"(3) f tl(1) by auto
  have "\<exists>res'. fold_opt (\<lambda>(l2, r2, v) res. do { f \<leftarrow> cb l2 r2 v; extend_right res f }) ps m = Some res' \<and>
    rm_ok res' \<and> rm_left res' = rm_left m \<and> right_edge res' = r \<and>
    (\<forall>e < b. rm_at res' e = rm_at m e) \<and>
    (\<forall>(a, b, v) \<in> set ps. \<forall>f. cb a b v = Some f \<longrightarrow> (\<forall>e. a \<le> e \<and> e < b \<longrightarrow> rm_at res' e = rm_at f e))"
    using "2.prems"(4) by (intro "2.IH" tl(3) m(2,4)) auto
  then obtain res' where res':
    "fold_opt (\<lambda>(l2, r2, v) res. do { f \<leftarrow> cb l2 r2 v; extend_right res f }) ps m = Some res'"
    "rm_ok res'" "rm_left res' = rm_left m" "right_edge res' = r"
    "\<And>e. e < b \<Longrightarrow> rm_at res' e = rm_at m e"
    "\<forall>(a, b, v) \<in> set ps. \<forall>f. cb a b v = Some f \<longrightarrow> (\<forall>e. a \<le> e \<and> e < b \<longrightarrow> rm_at res' e = rm_at f e)"
    by blast
  have "rm_at res' e = rm_at res e" if "e < l" for e
    using res'(5) [of e] m(5) [of e] that tl by auto
  moreover have "rm_at res' e = rm_at f e" if "a \<le> e" "e < b" for e
    using res'(5) [of e] m(5) [of e] that by auto
  ultimately show ?case
    using res' m(1,3) f(1) by (intro exI [of _ res']) auto
qed


lemma rm_map_multi_tiles:
  assumes m: "rm_ok m" "rm_left m \<le> l" "l \<le> r" "r \<le> right_edge m"
    and cb: "\<And>a b v. l \<le> a \<Longrightarrow> a < b \<Longrightarrow> b \<le> r \<Longrightarrow> (\<And>e. a \<le> e \<Longrightarrow> e < b \<Longrightarrow> rm_at m e = Some v) \<Longrightarrow>
      \<exists>f. cb a b v = Some f \<and> rm_ok f \<and> rm_left f = a \<and> right_edge f = b"
  shows "\<exists>res. rm_map_multi cb m l r = Some res \<and> rm_ok res \<and> rm_left res = l \<and> right_edge res = r \<and>
    (\<forall>e. l \<le> e \<and> e < r \<longrightarrow> (\<exists>a b v f. l \<le> a \<and> a \<le> e \<and> e < b \<and> b \<le> r \<and>
      (\<forall>d. a \<le> d \<and> d < b \<longrightarrow> rm_at m d = Some v) \<and> cb a b v = Some f \<and> rm_at res e = rm_at f e))"
proof -
  obtain ps where ps: "rm_visit m l r = Some ps" "tiles l r ps"
    "\<forall>(a, b, v) \<in> set ps. \<forall>e. a \<le> e \<and> e < b \<longrightarrow> rm_at m e = Some v"
    using rm_visit_tiles [OF m] by blast
  have frag: "\<exists>f. cb a b v = Some f \<and> rm_ok f \<and> rm_left f = a \<and> right_edge f = b"
    if "(a, b, v) \<in> set ps" for a b v
    using tiles_bounds [OF ps(2) that] ps(3) that by (intro cb) auto
  obtain res where res:
    "fold_opt (\<lambda>(l2, r2, v) res. do { f \<leftarrow> cb l2 r2 v; extend_right res f }) ps (range_map_point l) = Some res"
    "rm_ok res" "rm_left res = l" "right_edge res = r"
    "\<forall>(a, b, v) \<in> set ps. \<forall>f. cb a b v = Some f \<longrightarrow> (\<forall>e. a \<le> e \<and> e < b \<longrightarrow> rm_at res e = rm_at f e)"
    using fold_extend_right [OF ps(2) rm_ok_point, where cb = cb] frag by auto
  have "\<exists>a b v f. l \<le> a \<and> a \<le> e \<and> e < b \<and> b \<le> r \<and> (\<forall>d. a \<le> d \<and> d < b \<longrightarrow> rm_at m d = Some v) \<and>
      cb a b v = Some f \<and> rm_at res e = rm_at f e"
    if e: "l \<le> e" "e < r" for e
  proof -
    obtain a b v where t: "(a, b, v) \<in> set ps" "a \<le> e" "e < b" using tiles_cover [OF ps(2) e] by blast
    obtain f where f: "cb a b v = Some f" using frag [OF t(1)] by blast
    have "\<forall>d. a \<le> d \<and> d < b \<longrightarrow> rm_at m d = Some v" and "rm_at res e = rm_at f e" using ps(3) res(5) t f by auto
    with t f tiles_bounds [OF ps(2) t(1)] show ?thesis by blast
  qed
  then show ?thesis
    using ps(1) res(1-4) by (simp add: rm_map_multi_def)
qed

lemma rm_map_as_multi:
  "rm_map cb = rm_map_multi (\<lambda>a b v. map_option (range_map_of a b) (cb v))"
proof (intro ext)
  fix m l r
  have "(\<lambda>(l2, r2, v) res. do { w \<leftarrow> cb v; extend_right_value l2 r2 w res }) =
      (\<lambda>(l2, r2, v) res. do { f \<leftarrow> map_option (range_map_of l2 r2) (cb v); extend_right res f })"
    by (auto simp: fun_eq_iff extend_right_value_eq Option.bind_def map_option_case split: option.splits)
  then show "rm_map cb m l r = rm_map_multi (\<lambda>a b v. map_option (range_map_of a b) (cb v)) m l r"
    unfolding rm_map_def rm_map_multi_def by (rule arg_cong)
qed

lemma rm_map_at:
  assumes m: "rm_ok m" "rm_left m \<le> l" "l \<le> r" "r \<le> right_edge m"
    and cb: "\<And>e v. l \<le> e \<Longrightarrow> e < r \<Longrightarrow> rm_at m e = Some v \<Longrightarrow> cb v \<noteq> None"
  shows "\<exists>res. rm_map cb m l r = Some res \<and> rm_ok res \<and> rm_left res = l \<and> right_edge res = r \<and>
    (\<forall>e. rm_at res e = (if l \<le> e \<and> e < r then Option.bind (rm_at m e) cb else None))"
proof -
  have "\<exists>f. map_option (range_map_of a b) (cb v) = Some f \<and> rm_ok f \<and> rm_left f = a \<and> right_edge f = b"
    if ab: "l \<le> a" "a < b" "b \<le> r" and at: "\<And>e. a \<le> e \<Longrightarrow> e < b \<Longrightarrow> rm_at m e = Some v" for a b v
  proof -
    have "cb v \<noteq> None" using cb [of a v] at [of a] ab by simp
    then show ?thesis using ab by (auto simp: rm_ok_of)
  qed
  note multi = rm_map_multi_tiles [OF m, where cb = "\<lambda>a b v. map_option (range_map_of a b) (cb v)", OF this]
  obtain res where res:
    "rm_map cb m l r = Some res" "rm_ok res" "rm_left res = l" "right_edge res = r"
    "\<And>e. l \<le> e \<and> e < r \<Longrightarrow> \<exists>a b v f. l \<le> a \<and> a \<le> e \<and> e < b \<and> b \<le> r \<and>
      (\<forall>d. a \<le> d \<and> d < b \<longrightarrow> rm_at m d = Some v) \<and>
      map_option (range_map_of a b) (cb v) = Some f \<and> rm_at res e = rm_at f e"
    using multi unfolding rm_map_as_multi by blast
  have "rm_at res e = (if l \<le> e \<and> e < r then Option.bind (rm_at m e) cb else None)" for e
  proof (cases "l \<le> e \<and> e < r")
    case True
    then obtain a b v f where f: "a \<le> e" "e < b" "rm_at m e = Some v"
      "map_option (range_map_of a b) (cb v) = Some f" "rm_at res e = rm_at f e"
      using res(5) [OF True] by blast
    then obtain w where "cb v = Some w" "f = range_map_of a b w" by auto
    with f True show ?thesis by (simp add: rm_at_of)
  next
    case False
    then show ?thesis using rm_at_dom [OF res(2), of e] res(3,4) by auto
  qed
  with res(1-4) show ?thesis by blast
qed

lemma rm_mask_as_map: "rm_mask m l r = rm_map Some m l r"
  by (simp add: rm_mask_def rm_map_def)

subsection \<open>Overwriting\<close>

text \<open>The zones left of \<open>l\<close>, with the one that spans \<open>l\<close> cut there.\<close>

definition cut_left :: "'e \<Rightarrow> ('e::linorder, 'v) range_map \<Rightarrow> ('e, 'v) omap" where
  "cut_left l m =
     (if l = rm_left m then []
      else
        (let before = takeWhile (\<lambda>(e, v). e \<le> l) (rm_zones m)
         in if l \<in> fst ` set (rm_zones m) then before
            else before @ [(l, snd (hd (omap_upper_bound l (rm_zones m))))]))"

lemma upper_bound_nonempty:
  assumes "rm_ok m" and "l < right_edge m" and "rm_left m \<le> l"
  shows "omap_upper_bound l (rm_zones m) \<noteq> []"
proof -
  have "rm_zones m \<noteq> []" using assms by (auto simp: right_edge_def)
  then have "right_edge m \<in> fst ` set (rm_zones m)" by (simp add: right_edge_def)
  moreover have "omap_ok (rm_zones m)" using assms(1) by (simp add: rm_ok_def)
  ultimately have "right_edge m \<in> fst ` set (omap_upper_bound l (rm_zones m))"
    using assms(2) upper_bound_facts(2) [where l = l and k = "right_edge m"] by blast
  then show ?thesis by auto
qed

lemma cut_left_facts:
  assumes m: "rm_ok m" and l: "rm_left m \<le> l" "l < right_edge m"
  shows "omap_ok (cut_left l m)" and "coalesced (cut_left l m)"
    and "k \<in> fst ` set (cut_left l m) \<Longrightarrow> rm_left m < k \<and> k \<le> l"
    and "cut_left l m = [] \<longleftrightarrow> l = rm_left m"
    and "l \<noteq> rm_left m \<Longrightarrow> fst (last (cut_left l m)) = l"
    and "rm_left m \<le> e \<Longrightarrow> e < l \<Longrightarrow> zval (cut_left l m) e = zval (rm_zones m) e"
proof -
  let ?b = "takeWhile (\<lambda>(e, v). e \<le> l) (rm_zones m)" and ?u = "omap_upper_bound l (rm_zones m)"
  have zones: "omap_ok (rm_zones m)" and co: "coalesced (rm_zones m)"
    and left: "\<And>k. k \<in> fst ` set (rm_zones m) \<Longrightarrow> rm_left m < k"
    using m by (auto simp: rm_ok_def)
  note ub = upper_bound_facts [OF zones, where l = l]
  obtain k0 v0 rest where u: "?u = (k0, v0) # rest"
    using upper_bound_nonempty [OF m l(2,1)] by (cases ?u) auto
  have split: "omap_ok (?b @ ?u)" "coalesced (?b @ ?u)" using zones co ub(4) by simp_all
  have below: "k \<le> l" if "k \<in> fst ` set ?b" for k using that ub(5) by blast
  have cut: "cut_left l m = (if l = rm_left m then [] else if l \<in> fst ` set (rm_zones m) then ?b else ?b @ [(l, v0)])"
    by (simp add: cut_left_def Let_def u)
  have ok_b: "omap_ok ?b" "coalesced ?b" using split by (auto simp: omap_ok_append coalesced_def successively_append_iff)
  have strict: "a < l" if "a \<in> fst ` set ?b" "l \<notin> fst ` set (rm_zones m)" for a
    using that below [OF that(1)] ub(5) [of a] by (metis order.order_iff_strict)
  show "omap_ok (cut_left l m)"
  proof (cases "l = rm_left m \<or> l \<in> fst ` set (rm_zones m)")
    case True
    then show ?thesis using ok_b(1) unfolding cut by auto
  next
    case False
    then show ?thesis using ok_b(1) strict unfolding cut by (simp add: omap_ok_append)
  qed
  show "coalesced (cut_left l m)"
    using ok_b(2) split(2) by (auto simp: cut coalesced_def successively_append_iff u)
  show "rm_left m < k \<and> k \<le> l" if "k \<in> fst ` set (cut_left l m)"
  proof -
    have "k \<in> fst ` set ?b \<or> k = l \<and> l \<noteq> rm_left m" using that unfolding cut by (auto split: if_splits)
    moreover have "rm_left m < k \<and> k \<le> l" if "k \<in> fst ` set ?b"
      using that below left ub(5) [of k] by blast
    ultimately show ?thesis using l(1) by auto
  qed
  have last_b: "?b \<noteq> [] \<and> fst (last ?b) = l" if "l \<in> fst ` set (rm_zones m)"
  proof -
    have "l \<in> fst ` set ?b" using that ub(5) by blast
    then show ?thesis
      using omap_ok_last [OF ok_b(1)] below by (metis antisym empty_iff image_empty last_in_set list.set(1) image_eqI)
  qed
  then show "cut_left l m = [] \<longleftrightarrow> l = rm_left m" and "l \<noteq> rm_left m \<Longrightarrow> fst (last (cut_left l m)) = l"
    by (auto simp: cut)
  show "zval (cut_left l m) e = zval (rm_zones m) e" if e: "rm_left m \<le> e" "e < l"
  proof -
    have all: "zval (rm_zones m) e = (case zval ?b e of None \<Rightarrow> Some v0 | Some v \<Rightarrow> Some v)"
    proof -
      have "l < k0" using ub(2) [of k0] u by auto
      then have "zval ?u e = Some v0" using u e(2) by auto
      then show ?thesis by (subst ub(4)) (simp only: zval_append)
    qed
    show ?thesis
    proof (cases "l \<in> fst ` set (rm_zones m)")
      case True
      then have "zval ?b e \<noteq> None" using last_b e(2) unfolding zval_None by (metis image_eqI last_in_set leD)
      then show ?thesis using True e all by (auto simp: cut)
    next
      case False
      then show ?thesis using e all by (auto simp: cut zval_append split: option.splits)
    qed
  qed
qed


lemma bound_Cons:
  "omap_lower_bound k ((a, b) # zs) = (if a < k then omap_lower_bound k zs else (a, b) # zs)"
  "omap_upper_bound k ((a, b) # zs) = (if a \<le> k then omap_upper_bound k zs else (a, b) # zs)"
  by (simp_all add: omap_lower_bound_def omap_upper_bound_def)

lemma lower_bound_upper_bound:
  assumes "omap_ok zs"
  shows "omap_lower_bound k zs =
    (case map_of zs k of None \<Rightarrow> omap_upper_bound k zs | Some v \<Rightarrow> (k, v) # omap_upper_bound k zs)"
  using assms
proof (induction zs)
  case (Cons p zs)
  obtain a b where p: "p = (a, b)" by (cases p)
  have above: "a < j" if "j \<in> fst ` set zs" for j using Cons.prems that p by (auto simp: omap_ok_Cons)
  have IH: "omap_lower_bound k zs =
    (case map_of zs k of None \<Rightarrow> omap_upper_bound k zs | Some v \<Rightarrow> (k, v) # omap_upper_bound k zs)"
    using Cons p by (simp add: omap_ok_Cons)
  consider "a < k" | "a = k" | "k < a" by (rule linorder_cases)
  then show ?case
  proof cases
    case 1
    then have "k \<noteq> a" "a \<le> k" by auto
    with 1 show ?thesis by (simp only: p bound_Cons IH map_of.simps fst_conv snd_conv fun_upd_apply if_False if_True)
  next
    case 2
    have "omap_upper_bound k zs = zs"
    proof (cases zs)
      case (Cons q qs)
      then have "k < fst q" using above [of "fst q"] 2 by simp
      then show ?thesis using Cons by (cases q) (auto simp: bound_Cons)
    qed (simp add: omap_upper_bound_def)
    then show ?thesis using 2 by (simp add: p bound_Cons)
  next
    case 3
    then have "k \<notin> fst ` set zs" using above [of k] by (metis order.asym)
    then have "map_of zs k = None" by (simp add: map_of_eq_None_iff)
    then show ?thesis using 3 by (auto simp: p bound_Cons)
  qed
qed (simp add: omap_lower_bound_def omap_upper_bound_def)

lemma update_split_eq:
  assumes m: "rm_ok m" and l: "rm_left m \<le> l" "l < right_edge m"
  shows "update_split l m = Some (cut_left l m @ omap_upper_bound l (rm_zones m))"
proof -
  let ?b = "takeWhile (\<lambda>(e, v). e \<le> l) (rm_zones m)" and ?u = "omap_upper_bound l (rm_zones m)"
  have zones: "omap_ok (rm_zones m)" and left: "\<And>k. k \<in> fst ` set (rm_zones m) \<Longrightarrow> rm_left m < k"
    using m by (auto simp: rm_ok_def)
  note ub = upper_bound_facts [OF zones, where l = l]
  have split: "?b @ ?u = rm_zones m" by (rule ub(4) [symmetric])
  obtain k0 v0 rest where u: "?u = (k0, v0) # rest"
    using upper_bound_nonempty [OF m l(2,1)] by (cases ?u) auto
  show ?thesis
  proof (cases "l = rm_left m")
    case True
    have "?b = []"
    proof (rule ccontr)
      assume "?b \<noteq> []"
      then have "fst (hd ?b) \<in> fst ` set ?b" by (intro imageI hd_in_set)
      then have "fst (hd ?b) \<in> fst ` set (rm_zones m)" "fst (hd ?b) \<le> l"
        unfolding ub(5) by simp_all
      then show False using left True leD by blast
    qed
    then have "?u = rm_zones m" using split by simp
    then show ?thesis using True by (simp add: update_split_def cut_left_def)
  next
    case False
    show ?thesis
    proof (cases "map_of (rm_zones m) l")
      case None
      then have "l \<notin> fst ` set (rm_zones m)" by (simp add: map_of_eq_None_iff)
      moreover have "omap_insert l v0 (?b @ ?u) = ?b @ (l, v0) # ?u"
        using ub(2,5) calculation by (intro omap_insert_middle) (metis order.order_iff_strict, blast)
      moreover have "omap_lower_bound l (rm_zones m) = ?u"
        using None lower_bound_upper_bound [OF zones, of l] by simp
      moreover have "k0 \<noteq> l" using ub(2) [of k0] u by auto
      ultimately show ?thesis
        using False u split by (simp add: update_split_def cut_left_def Let_def)
    next
      case (Some v)
      then have "l \<in> fst ` set (rm_zones m)" by (metis domI dom_map_of_conv_image_fst)
      then show ?thesis
        using False Some lower_bound_upper_bound [OF zones, of l] split
        by (simp add: update_split_def cut_left_def Let_def)
    qed
  qed
qed

lemma update_erase_eq:
  assumes m: "rm_ok m" and l: "rm_left m \<le> l" "l < r" "r \<le> right_edge m"
  shows "update_erase l r (cut_left l m @ omap_upper_bound l (rm_zones m)) =
    Some (cut_left l m @ omap_upper_bound r (rm_zones m))"
proof -
  let ?A = "cut_left l m" and ?u = "omap_upper_bound l (rm_zones m)"
  have zones: "omap_ok (rm_zones m)" using m by (simp add: rm_ok_def)
  have lr: "l < right_edge m" using l by simp
  note ub = upper_bound_facts [OF zones, where l = l]
  have A: "e \<le> l" if "e \<in> fst ` set ?A" for e using cut_left_facts(3) [OF m l(1) lr that] by simp
  have U: "l < e" if "e \<in> fst ` set ?u" for e using ub(2) that by blast
  have A': "e \<le> l" "e < r" if "(e, v) \<in> set ?A" for e v
    using A [of e] l(2) that by (force, force)
  have "takeWhile (\<lambda>(e, v). e \<le> l) ?u = []"
  proof (cases ?u)
    case (Cons p ps)
    then show ?thesis using U [of "fst p"] by (cases p) auto
  qed simp
  then have tw: "takeWhile (\<lambda>(e, v). e \<le> l) (?A @ ?u) = ?A"
    using A'(1) by (subst takeWhile_append2) auto
  have dw: "dropWhile (\<lambda>(e, v). e < r) (?A @ ?u) = omap_lower_bound r ?u"
    using A'(2) by (subst dropWhile_append2) (auto simp: omap_lower_bound_def)
  have upr: "omap_upper_bound r ?u = omap_upper_bound r (rm_zones m)"
  proof -
    have "dropWhile (\<lambda>(e, v). e \<le> r) (dropWhile (\<lambda>(e, v). e \<le> l) zs) = dropWhile (\<lambda>(e, v). e \<le> r) zs" for zs :: "('a, 'b) omap"
      using l(2) by (induction zs) auto
    then show ?thesis by (simp add: omap_upper_bound_def)
  qed
  have "rm_zones m \<noteq> []" using l by (auto simp: right_edge_def)
  then have "right_edge m \<in> fst ` set ?u" using lr ub(2) by (simp add: right_edge_def)
  then have ne: "omap_lower_bound r ?u \<noteq> []" using l(3) by (force simp: omap_lower_bound_def)
  have lb: "omap_lower_bound r ?u =
      (case map_of ?u r of None \<Rightarrow> omap_upper_bound r ?u | Some v \<Rightarrow> (r, v) # omap_upper_bound r ?u)"
    by (rule lower_bound_upper_bound [OF ub(1)])
  show ?thesis
  proof (cases "map_of ?u r")
    case None
    then obtain k v rest where k: "omap_lower_bound r ?u = (k, v) # rest" "omap_upper_bound r ?u = (k, v) # rest"
      using ne lb by (cases "omap_upper_bound r ?u") auto
    have "k \<noteq> r" using k(2) upper_bound_facts(2) [OF ub(1), where l = r and k = k] by auto
    then show ?thesis using k upr dw tw by (simp add: update_erase_def omap_lower_bound_def)
  next
    case (Some v)
    then show ?thesis using lb upr dw tw by (simp add: update_erase_def omap_lower_bound_def)
  qed
qed


lemma omap_ok_appendI:
  "omap_ok m \<Longrightarrow> omap_ok n \<Longrightarrow> (\<And>a b. a \<in> fst ` set m \<Longrightarrow> b \<in> fst ` set n \<Longrightarrow> a < b) \<Longrightarrow>
   omap_ok (m @ n)"
  unfolding omap_ok_append by (intro conjI ballI)

lemma suffix_facts:
  assumes "rm_ok m"
  shows "coalesced (omap_upper_bound r (rm_zones m))"
proof -
  have "omap_ok (rm_zones m)" "coalesced (rm_zones m)" using assms by (auto simp: rm_ok_def)
  then show ?thesis
    using upper_bound_facts(4) [where l = r] by (metis coalesced_def successively_append_iff)
qed

lemma rm_update_zones:
  assumes m: "rm_ok m" and other: "rm_ok other" and ne: "rm_zones other \<noteq> []"
    and le: "rm_left m \<le> rm_left other" "right_edge other \<le> right_edge m"
  defines "A \<equiv> cut_left (rm_left other) m" and "C \<equiv> omap_upper_bound (right_edge other) (rm_zones m)"
  shows "rm_update m other = Some (m\<lparr>rm_zones := zjoin (zjoin A (rm_zones other)) C\<rparr>)"
    and "omap_ok (A @ rm_zones other @ C)"
proof -
  let ?l = "rm_left other" and ?r = "right_edge other" and ?B = "rm_zones other"
  have zones: "omap_ok (rm_zones m)" "omap_ok ?B" using m other by (auto simp: rm_ok_def)
  have "?r \<in> fst ` set ?B" using ne by (simp add: right_edge_def)
  then have lr: "?l < ?r" using other by (auto simp: rm_ok_def)
  then have lm: "?l < right_edge m" using le by simp
  note cut = cut_left_facts [OF m le(1) lm, folded A_def]
  have C: "k \<in> fst ` set C \<Longrightarrow> ?r < k" for k
    using upper_bound_facts(2) [OF zones(1), where l = ?r and k = k] by (simp add: C_def)
  have B: "k \<in> fst ` set ?B \<Longrightarrow> ?l < k \<and> k \<le> ?r" for k
    using other omap_ok_last [OF zones(2), of k] ne by (auto simp: rm_ok_def right_edge_def)
  have AB: "a < b" if "a \<in> fst ` set A" "b \<in> fst ` set ?B" for a b
    using cut(3) [OF that(1)] B [OF that(2)] by (meson le_less_trans)
  have BC: "b < c" if "b \<in> fst ` set ?B" "c \<in> fst ` set C" for b c
    using B [OF that(1)] C [OF that(2)] by (meson le_less_trans)
  have AC: "a < c" if "a \<in> fst ` set A" "c \<in> fst ` set C" for a c
    using cut(3) [OF that(1)] C [OF that(2)] lr by (meson le_less_trans less_trans)
  have C_ok: "omap_ok C" unfolding C_def by (rule upper_bound_facts(1) [OF zones(1)])
  have ABC: "a < b" if "a \<in> fst ` set A" "b \<in> fst ` set (?B @ C)" for a b
    using AB [OF that(1), of b] AC [OF that(1), of b] that(2) by (simp only: set_append image_Un Un_iff) metis
  show ok: "omap_ok (A @ ?B @ C)"
    by (rule omap_ok_appendI [OF cut(1) omap_ok_appendI [OF zones(2) C_ok BC] ABC])
  have ins: "omap_insert_all ?B (A @ C) = A @ ?B @ C"
    by (rule omap_insert_all_middle [OF zones(2)]) (rule AB BC, assumption, assumption)+
  let ?m3 = "m\<lparr>rm_zones := A @ ?B @ C\<rparr>" and ?m4 = "m\<lparr>rm_zones := zjoin A ?B @ C\<rparr>"
  have left: "coalesce_unless (left_edge ?m3 = left_edge other) (left_edge other) ?m3 = Some ?m4"
  proof (cases "rm_left m = ?l")
    case True
    then have "A = []" using cut(4) by simp
    then show ?thesis using True by (simp add: coalesce_unless_def left_edge_def)
  next
    case False
    then have "A \<noteq> []" "fst (last A) = ?l" using cut(4,5) by auto
    then have "coalesce_at ?l (A @ ?B @ C) = Some (zjoin A (?B @ C))"
      using coalesce_at_seam [OF ok] ne by auto
    moreover have "zjoin A (?B @ C) = zjoin A ?B @ C" using ne by (simp add: zjoin_def)
    ultimately show ?thesis using False by (simp add: coalesce_unless_def left_edge_def)
  qed
  have AB_ok: "omap_ok (zjoin A ?B @ C)"
  proof (rule omap_ok_appendI [OF zjoin_ok [OF omap_ok_appendI [OF cut(1) zones(2) AB]] C_ok])
    fix a b assume a: "a \<in> fst ` set (zjoin A ?B)" and b: "b \<in> fst ` set C"
    show "a < b" using subsetD [OF zjoin_keys a] AC [OF _ b, of a] BC [OF _ b, of a] by (rule UnE)
  qed
  have last: "fst (last (zjoin A ?B)) = ?r"
    using zjoin_last [OF ne, of A] ne by (simp add: right_edge_def)
  have right: "coalesce_unless (right_edge ?m4 = right_edge other) (right_edge other) ?m4 =
      Some (m\<lparr>rm_zones := zjoin (zjoin A ?B) C\<rparr>)"
  proof (cases "C = []")
    case True
    then show ?thesis using ne last by (simp add: coalesce_unless_def right_edge_def)
  next
    case False
    then have "right_edge ?m4 \<noteq> ?r" using C [of "right_edge ?m4"] by (auto simp: right_edge_def)
    moreover have "coalesce_at ?r (zjoin A ?B @ C) = Some (zjoin (zjoin A ?B) C)"
      using coalesce_at_seam [OF AB_ok] last False ne by auto
    ultimately show ?thesis by (simp add: coalesce_unless_def)
  qed
  show "rm_update m other = Some (m\<lparr>rm_zones := zjoin (zjoin A ?B) C\<rparr>)"
    using ne update_split_eq [OF m le(1) lm] update_erase_eq [OF m le(1) lr le(2)] ins left right
    by (simp add: rm_update_def empty_domain_def left_edge_def A_def C_def)
qed

end
