(* ===== verification/Range_Update.thy ===== *)
theory Range_Update
  imports Range_Map
begin

text \<open>
  \<open>containers/range_map.hpp\<close>: the meaning of \<open>update()\<close> and \<open>visit_mutable()\<close>, and the canonical
  form that makes \<open>operator==\<close> decide equality of the maps.
\<close>

section \<open>Splicing zones\<close>

lemma zjoin_append_ok:
  assumes "omap_ok (A @ B @ C)"
  shows "omap_ok (zjoin A B @ C)"
proof (cases "A = [] \<or> B = []")
  case True
  then show ?thesis using assms by auto
next
  case False
  then have "A \<noteq> []" "B \<noteq> []" by auto
  then show ?thesis
  proof (cases rule: zjoin_cases)
    case (merge us k k' v vs)
    with assms show ?thesis by (auto simp: omap_ok_append omap_ok_Cons)
  qed (use assms in simp)
qed

lemma zjoin3:
  assumes "omap_ok (A @ B @ C)" and "coalesced A" "coalesced B" "coalesced C"
  shows "omap_ok (zjoin (zjoin A B) C)" and "coalesced (zjoin (zjoin A B) C)"
    and "zval (zjoin (zjoin A B) C) = zval (A @ B @ C)"
    and "fst ` set (zjoin (zjoin A B) C) \<subseteq> fst ` set A \<union> fst ` set B \<union> fst ` set C"
proof -
  have ok: "omap_ok (zjoin A B @ C)" using assms(1) by (rule zjoin_append_ok)
  have AB: "omap_ok (A @ B)" using assms(1) by (auto simp: omap_ok_append)
  show "omap_ok (zjoin (zjoin A B) C)" using ok by (rule zjoin_ok)
  show "coalesced (zjoin (zjoin A B) C)" using assms(2-4) by (intro zjoin_coalesced)
  show "zval (zjoin (zjoin A B) C) = zval (A @ B @ C)"
    by (rule ext) (simp only: zval_zjoin [OF ok] zval_append zval_zjoin [OF AB] append_assoc [symmetric])
  show "fst ` set (zjoin (zjoin A B) C) \<subseteq> fst ` set A \<union> fst ` set B \<union> fst ` set C"
    using zjoin_keys [of "zjoin A B" C] zjoin_keys [of A B] by blast
qed

text \<open>The value of a map spliced from zones up to \<open>l\<close>, zones in \<open>(l, r]\<close> and zones beyond \<open>r\<close>.\<close>

lemma splice_at:
  assumes m: "rm_ok m" and l: "rm_left m \<le> l" "l < r" "r \<le> right_edge m"
    and B: "B \<noteq> []" "fst (last B) = r" "\<And>k. k \<in> fst ` set B \<Longrightarrow> l < k \<and> k \<le> r"
    and Z: "zval Z = zval (cut_left l m @ B @ omap_upper_bound r (rm_zones m))"
    and e: "rm_left m \<le> e"
  shows "zval Z e = (if l \<le> e \<and> e < r then zval B e else zval (rm_zones m) e)"
proof -
  let ?A = "cut_left l m" and ?C = "omap_upper_bound r (rm_zones m)"
  have zones: "omap_ok (rm_zones m)" using m by (simp add: rm_ok_def)
  have lm: "l < right_edge m" using l by simp
  note cut = cut_left_facts [OF m l(1) lm]
  consider (left) "e < l" | (mid) "l \<le> e" "e < r" | (right) "l \<le> e" "r \<le> e" by fastforce
  then show ?thesis
  proof cases
    case left
    have "zval (rm_zones m) e \<noteq> None"
      using rm_at_dom [OF m, of e] left l e by (auto simp: rm_at_def)
    then show ?thesis using left cut(6) [OF e left] by (auto simp: Z zval_append)
  next
    case mid
    have "zval ?A e = None" unfolding zval_None using cut(3) mid(1) by (meson order.trans)
    moreover have "r \<in> fst ` set B" using B(1,2) last_in_set by blast
    then have "zval B e \<noteq> None" using mid(2) unfolding zval_None by (meson leD)
    ultimately show ?thesis using mid by (auto simp: Z zval_append)
  next
    case right
    have "zval ?A e = None" unfolding zval_None using cut(3) right(1) by (meson order.trans)
    moreover have "zval B e = None" unfolding zval_None using B(3) right(2) by (meson order.trans)
    ultimately show ?thesis
      using right upper_bound_facts(3) [OF zones right(2)] by (auto simp: Z zval_append)
  qed
qed

lemma splice_last:
  assumes m: "rm_ok m" and l: "rm_left m \<le> l" "l < r" "r \<le> right_edge m"
  shows "(if omap_upper_bound r (rm_zones m) = [] then r else fst (last (omap_upper_bound r (rm_zones m)))) =
    right_edge m"
proof -
  let ?C = "omap_upper_bound r (rm_zones m)"
  have zones: "omap_ok (rm_zones m)" using m by (simp add: rm_ok_def)
  have ne: "rm_zones m \<noteq> []" using l by (auto simp: right_edge_def)
  then have "right_edge m \<in> fst ` set (rm_zones m)" by (simp add: right_edge_def)
  then have mem: "right_edge m \<in> fst ` set ?C" if "r \<noteq> right_edge m"
    using upper_bound_facts(2) [OF zones, where l = r and k = "right_edge m"] that l(3) by auto
  have split: "takeWhile (\<lambda>(e, v). e \<le> r) (rm_zones m) @ ?C = rm_zones m"
    by (rule upper_bound_facts(4) [OF zones, symmetric])
  show ?thesis
  proof (cases "?C = []")
    case True
    then show ?thesis using mem by auto
  next
    case False
    then have "last (rm_zones m) = last ?C" by (subst split [symmetric]) simp
    then show ?thesis using False ne by (simp add: right_edge_def)
  qed
qed

theorem rm_update_at:
  assumes m: "rm_ok m" and other: "rm_ok other"
    and le: "rm_left m \<le> rm_left other" "right_edge other \<le> right_edge m"
  shows "\<exists>m'. rm_update m other = Some m' \<and> rm_ok m' \<and> rm_left m' = rm_left m \<and> right_edge m' = right_edge m \<and>
    (\<forall>e. rm_at m' e = (if rm_left other \<le> e \<and> e < right_edge other then rm_at other e else rm_at m e))"
proof (cases "rm_zones other = []")
  case True
  then show ?thesis using m by (auto simp: rm_update_def empty_domain_def right_edge_def)
next
  case False
  let ?l = "rm_left other" and ?r = "right_edge other" and ?B = "rm_zones other"
  let ?A = "cut_left ?l m" and ?C = "omap_upper_bound ?r (rm_zones m)"
  let ?Z = "zjoin (zjoin ?A ?B) ?C"
  have zones: "omap_ok (rm_zones m)" "omap_ok ?B" "coalesced ?B" using m other by (auto simp: rm_ok_def)
  have last: "fst (last ?B) = ?r" using False by (simp add: right_edge_def)
  have B: "?l < k \<and> k \<le> ?r" if "k \<in> fst ` set ?B" for k
    using that other omap_ok_last [OF zones(2) that] False by (auto simp: rm_ok_def right_edge_def)
  have "?r \<in> fst ` set ?B" using False by (simp add: right_edge_def)
  then have lr: "?l < ?r" using B by blast
  then have lm: "?l < right_edge m" using le by simp
  note cut = cut_left_facts [OF m le(1) lm]
  note up = rm_update_zones [OF m other False le]
  note z3 = zjoin3 [OF up(2) cut(2) zones(3) suffix_facts [OF m]]
  have keys: "rm_left m < k" if "k \<in> fst ` set ?Z" for k
  proof -
    from subsetD [OF z3(4) that]
    consider "k \<in> fst ` set ?A" | "k \<in> fst ` set ?B" | "k \<in> fst ` set ?C" by (elim UnE)
    then show ?thesis
    proof cases
      case 1
      then show ?thesis using cut(3) by simp
    next
      case 2
      then show ?thesis using B [of k] le(1) by auto
    next
      case 3
      then have "?r < k" using upper_bound_facts(2) [OF zones(1), where l = ?r and k = k] by simp
      then show ?thesis using le(1) lr by simp
    qed
  qed
  have "right_edge (m\<lparr>rm_zones := ?Z\<rparr>) = (if ?C = [] then ?r else fst (last ?C))"
    using False last zjoin_last [OF False, of ?A] by (simp add: right_edge_def zjoin_last)
  then have "right_edge (m\<lparr>rm_zones := ?Z\<rparr>) = right_edge m"
    unfolding splice_last [OF m le(1) lr le(2)] .
  moreover have "rm_at (m\<lparr>rm_zones := ?Z\<rparr>) e = (if ?l \<le> e \<and> e < ?r then rm_at other e else rm_at m e)" for e
    using splice_at [OF m le(1) lr le(2) False last B z3(3), of e] le(1) by (auto simp: rm_at_def)
  moreover have "rm_ok (m\<lparr>rm_zones := ?Z\<rparr>)" using z3(1,2) keys by (simp add: rm_ok_def)
  ultimately show ?thesis using up(1) by auto
qed


section \<open>Canonical form\<close>

lemma zval_hd: "(\<And>k. k \<in> fst ` set zs \<Longrightarrow> e < k) \<Longrightarrow> zval zs e = (if zs = [] then None else Some (snd (hd zs)))"
  by (cases zs) force+

lemma zones_canonical:
  assumes "omap_ok zs" "coalesced zs" "\<And>k. k \<in> fst ` set zs \<Longrightarrow> l < k"
    and "omap_ok ys" "coalesced ys" "\<And>k. k \<in> fst ` set ys \<Longrightarrow> l < k"
    and "\<And>e. l \<le> e \<Longrightarrow> zval zs e = zval ys e"
  shows "zs = ys"
  using assms
proof (induction zs arbitrary: l ys)
  case Nil
  then show ?case using zval_hd [of ys l] by (auto split: if_splits)
next
  case (Cons p zs)
  obtain k v where p: "p = (k, v)" by (cases p)
  have "zval ys l = Some v" using Cons.prems(3) [of k] Cons.prems(7) [of l] by (auto simp: p split: if_splits)
  then obtain k' ys' where ys: "ys = (k', v) # ys'"
    using zval_hd [of ys l, OF Cons.prems(6)] by (cases ys) (auto split: if_splits)
  have l: "l < k" "l < k'" using Cons.prems(3,6) by (auto simp: p ys)
  have zs: "omap_ok zs" "\<And>j. j \<in> fst ` set zs \<Longrightarrow> k < j" "coalesced zs" "zs = [] \<or> snd (hd zs) \<noteq> v"
    using Cons.prems(1,2) by (auto simp: p omap_ok_Cons coalesced_def successively_Cons)
  have ys': "omap_ok ys'" "\<And>j. j \<in> fst ` set ys' \<Longrightarrow> k' < j" "coalesced ys'" "ys' = [] \<or> snd (hd ys') \<noteq> v"
    using Cons.prems(4,5) by (auto simp: ys omap_ok_Cons coalesced_def successively_Cons)
  have "\<not> k < k'"
  proof
    assume "k < k'"
    then have "zval zs k = Some v" using Cons.prems(7) [of k] l by (auto simp: p ys split: if_splits)
    then show False using zval_hd [of zs k, OF zs(2)] zs(4) by (auto split: if_splits)
  qed
  moreover have "\<not> k' < k"
  proof
    assume "k' < k"
    then have "zval ys' k' = Some v" using Cons.prems(7) [of k'] l by (auto simp: p ys not_le [symmetric])
    then show False using zval_hd [of ys' k', OF ys'(2)] ys'(4) by (auto split: if_splits)
  qed
  ultimately have k: "k' = k" by simp
  have "zval zs e = zval ys' e" if "k \<le> e" for e
    using Cons.prems(7) [of e] l(1) that by (simp add: p ys k)
  then have "zs = ys'" using Cons.IH [OF zs(1,3) _ ys'(1,3), of k] zs(2) ys'(2) k by blast
  then show ?case by (simp add: p ys k)
qed

lemma rm_canonical:
  assumes "rm_ok m" and "rm_ok m'" and "rm_left m = rm_left m'" and "\<And>e. rm_at m e = rm_at m' e"
  shows "m = m'"
proof -
  have "zval (rm_zones m) e = zval (rm_zones m') e" if "rm_left m \<le> e" for e
    using assms(4) [of e] that assms(3) by (simp add: rm_at_def)
  then have "rm_zones m = rm_zones m'"
    using assms(1-3) by (intro zones_canonical [where l = "rm_left m"]) (auto simp: rm_ok_def)
  with assms(3) show ?thesis by (cases m; cases m') simp
qed

section \<open>Mutating in place\<close>

lemma upper_bound_twice: "l \<le> r \<Longrightarrow> omap_upper_bound r (omap_upper_bound l zs) = omap_upper_bound r zs"
  by (induction zs) (auto simp: omap_upper_bound_def)

lemma mutate_loop_visit:
  assumes "omap_ok zs" and "visit_loop prev r zs = Some ps"
    and "\<And>a b v. (a, b, v) \<in> set ps \<Longrightarrow> cb a b v \<noteq> None"
  shows "mutate_loop cb prev r zs =
    Some (map (\<lambda>(a, b, v). (b, the (cb a b v))) ps @ omap_upper_bound r zs)"
  using assms
proof (induction prev r zs arbitrary: ps rule: visit_loop.induct)
  case (1 prev r)
  then show ?case by simp
next
  case (2 prev r e v zs)
  have tail: "omap_ok zs" and above: "\<And>j. j \<in> fst ` set zs \<Longrightarrow> e < j"
    using "2.prems"(1) by (auto simp: omap_ok_Cons)
  show ?case
  proof (cases "e < r")
    case True
    then obtain qs where qs: "visit_loop e r zs = Some qs" "ps = (prev, e, v) # qs" using "2.prems"(2) by auto
    then have "mutate_loop cb e r zs =
        Some (map (\<lambda>(a, b, v). (b, the (cb a b v))) qs @ omap_upper_bound r zs)"
      using "2.IH" [OF True tail qs(1)] "2.prems"(3) by auto
    moreover obtain w where "cb prev e v = Some w" using "2.prems"(3) [of prev e v] qs(2) by auto
    ultimately show ?thesis using True qs(2) by (simp add: omap_upper_bound_def)
  next
    case False
    then have ps: "ps = [(prev, r, v)]" using "2.prems"(2) by simp
    then obtain w where w: "cb prev r v = Some w" using "2.prems"(3) by auto
    have "omap_upper_bound e zs = zs"
      using above by (cases zs) (force simp: omap_upper_bound_def)+
    then show ?thesis using False ps w by (auto simp: omap_upper_bound_def)
  qed
qed

lemma tiles_zones_keys:
  assumes "tiles l r ps"
  shows "omap_ok (map (\<lambda>(a, b, v). (b, g a b v)) ps) \<and>
    (\<forall>k \<in> fst ` set (map (\<lambda>(a, b, v). (b, g a b v)) ps). l < k \<and> k \<le> r)"
  using assms
proof (induction l r ps rule: tiles.induct)
  case (2 l r a b v ps)
  then have "tiles b r ps" "l < b" "b \<le> r" using tiles_le by auto
  with "2.IH" show ?case by (fastforce simp: omap_ok_Cons)
qed simp

lemma tiles_zones_last:
  "tiles l r ps \<Longrightarrow> l \<noteq> r \<Longrightarrow> ps \<noteq> [] \<and> fst (last (map (\<lambda>(a, b, v). (b, g a b v)) ps)) = r"
proof (induction l r ps rule: tiles.induct)
  case (2 l r a b v ps)
  show ?case
  proof (cases ps)
    case Nil
    then show ?thesis using "2.prems" by simp
  next
    case (Cons q qs)
    then have "b < r" using "2.prems"(1) tiles_bounds [of b r ps "fst q" "fst (snd q)" "snd (snd q)"] by auto
    then show ?thesis using 2 Cons by simp
  qed
qed simp

lemma tiles_zval:
  assumes "tiles l r ps" and "(a, b, v) \<in> set ps" and "a \<le> e" and "e < b"
  shows "zval (map (\<lambda>(a, b, v). (b, g a b v)) ps) e = Some (g a b v)"
  using assms
proof (induction l r ps rule: tiles.induct)
  case (2 l r a' b' v' ps)
  show ?case
  proof (cases "(a, b, v) \<in> set ps")
    case True
    have t: "tiles b' r ps" using "2.prems"(1) by simp
    then have "b' \<le> a" using tiles_bounds [OF _ True] by blast
    then show ?thesis using "2.IH" [OF t True "2.prems"(3,4)] "2.prems"(3) by auto
  next
    case False
    then show ?thesis using "2.prems" by auto
  qed
qed simp

lemma before_chopped:
  assumes m: "rm_ok m" and l: "rm_left m \<le> l" "l < right_edge m"
  shows "(if l \<noteq> rm_left m \<and> l \<notin> fst ` set (rm_zones m)
     then (case omap_upper_bound l (rm_zones m) of [] \<Rightarrow> None | (e, v) # _ \<Rightarrow> Some [(l, v)])
     else Some []) = Some (drop (length (takeWhile (\<lambda>(e, v). e \<le> l) (rm_zones m))) (cut_left l m))"
    and "takeWhile (\<lambda>(e, v). e \<le> l) (rm_zones m) @
      drop (length (takeWhile (\<lambda>(e, v). e \<le> l) (rm_zones m))) (cut_left l m) = cut_left l m"
proof -
  let ?b = "takeWhile (\<lambda>(e, v). e \<le> l) (rm_zones m)" and ?u = "omap_upper_bound l (rm_zones m)"
  have zones: "omap_ok (rm_zones m)" and left: "\<And>k. k \<in> fst ` set (rm_zones m) \<Longrightarrow> rm_left m < k"
    using m by (auto simp: rm_ok_def)
  obtain k0 v0 rest where u: "?u = (k0, v0) # rest"
    using upper_bound_nonempty [OF m l(2,1)] by (cases ?u) auto
  have b: "?b = []" if "l = rm_left m"
  proof (rule ccontr)
    assume "?b \<noteq> []"
    then have "fst (hd ?b) \<in> fst ` set ?b" by (intro imageI hd_in_set)
    then have "fst (hd ?b) \<in> fst ` set (rm_zones m)" "fst (hd ?b) \<le> l"
      unfolding upper_bound_facts(5) [OF zones] by simp_all
    then show False using left that leD by blast
  qed
  show "(if l \<noteq> rm_left m \<and> l \<notin> fst ` set (rm_zones m)
     then (case ?u of [] \<Rightarrow> None | (e, v) # _ \<Rightarrow> Some [(l, v)])
     else Some []) = Some (drop (length ?b) (cut_left l m))"
    using u b by (auto simp: cut_left_def Let_def)
  show "?b @ drop (length ?b) (cut_left l m) = cut_left l m"
    using u b by (auto simp: cut_left_def Let_def)
qed

lemma coalesce_range_splice:
  assumes ok: "omap_ok (A @ B @ C)" and co: "coalesced A" "coalesced C" and B: "B \<noteq> []"
    and A: "\<And>k. k \<in> fst ` set A \<Longrightarrow> rm_left m < k \<and> k \<le> l" "A = [] \<longleftrightarrow> l = rm_left m" "A \<noteq> [] \<Longrightarrow> fst (last A) = l"
    and keys: "\<And>k. k \<in> fst ` set B \<Longrightarrow> l < k \<and> k \<le> r" "\<And>k. k \<in> fst ` set C \<Longrightarrow> r < k" and l: "rm_left m \<le> l"
  defines "m' \<equiv> coalesce_range l r (m\<lparr>rm_zones := A @ B @ C\<rparr>)"
  shows "rm_ok m' \<and> rm_left m' = rm_left m \<and> zval (rm_zones m') = zval (A @ B @ C) \<and>
    rm_zones m' \<noteq> [] \<and> last (rm_zones m') = last (B @ C)"
proof -
  obtain A1 A2 where split: "A = A1 @ A2"
    and A2: "A1 = [] \<and> A2 = [] \<and> l = rm_left m \<or> l \<noteq> rm_left m \<and> (\<exists>v. A2 = [(l, v)])"
  proof (cases A rule: rev_cases)
    case Nil
    then show ?thesis using that [of "[]" "[]"] A(2) by simp
  next
    case (snoc xs x)
    then show ?thesis using that [of xs "[x]"] A(2,3) by (cases x) auto
  qed
  have "fst (hd B) \<in> fst ` set B" using B by simp
  then have lr: "l < r" using keys(1) [of "fst (hd B)"] by auto
  have A1_ok: "omap_ok A1" and tail_ok: "omap_ok (A2 @ B @ C)"
    using ok unfolding split append_assoc omap_ok_append [of A1 "A2 @ B @ C"] by blast+
  have A1_less: "a < b" if "a \<in> fst ` set A1" "b \<in> fst ` set (A2 @ B @ C)" for a b
    using ok that unfolding split append_assoc omap_ok_append [of A1 "A2 @ B @ C"] by blast
  have zones: "rm_zones m' = A1 @ coalesce_loop r (A2 @ B @ C) \<and> rm_left m' = rm_left m" using A2
  proof (elim disjE conjE exE)
    fix v assume l: "l \<noteq> rm_left m" and v: "A2 = [(l, v)]"
    have "\<forall>x \<in> set A1. (\<lambda>(e, v). e \<noteq> l) x" using A1_less [of l l] by (force simp: v)
    then have "takeWhile (\<lambda>(e, v). e \<noteq> l) (A @ B @ C) = A1 \<and> dropWhile (\<lambda>(e, v). e \<noteq> l) (A @ B @ C) = A2 @ B @ C"
      by (simp add: split v takeWhile_append2 dropWhile_append2)
    then show ?thesis using l by (simp add: m'_def coalesce_range_def)
  qed (simp add: m'_def coalesce_range_def split)
  then have zones: "rm_zones m' = A1 @ coalesce_loop r (A2 @ B @ C)" "rm_left m' = rm_left m" by simp_all
  have low: "(\<lambda>(e, v). e \<le> r) x" if "x \<in> set (A2 @ B)" for x
  proof (cases "x \<in> set B")
    case True
    then show ?thesis using keys(1) [OF imageI [OF True, of fst]] by (cases x) auto
  next
    case False
    then show ?thesis using that A2 lr by auto
  qed
  have "dropWhile (\<lambda>(e, v). e \<le> r) (A2 @ B @ C) = C"
  proof -
    have "dropWhile (\<lambda>(e, v). e \<le> r) ((A2 @ B) @ C) = dropWhile (\<lambda>(e, v). e \<le> r) C"
      using low by (rule dropWhile_append2)
    moreover have "dropWhile (\<lambda>(e, v). e \<le> r) C = C"
      using keys(2) [of "fst (hd C)"] by (cases C) auto
    ultimately show ?thesis by simp
  qed
  then have loop_co: "coalesced (coalesce_loop r (A2 @ B @ C))"
    using coalesce_loop_coalesced [OF tail_ok] co(2) by simp
  note loop = coalesce_loop_ok [OF tail_ok, of r] coalesce_loop_keys [of r "A2 @ B @ C"]
    coalesce_loop_hd [of "A2 @ B @ C" r] coalesce_loop_last [of "A2 @ B @ C" r]
  have ok': "omap_ok (rm_zones m')" unfolding zones
  proof (rule omap_ok_appendI)
    show "omap_ok A1" by (rule A1_ok)
    show "omap_ok (coalesce_loop r (A2 @ B @ C))" using loop(1) by simp
    show "a < b" if "a \<in> fst ` set A1" "b \<in> fst ` set (coalesce_loop r (A2 @ B @ C))" for a b
      using A1_less [OF that(1) subsetD [OF loop(2) that(2)]] .
  qed
  have "coalesced (rm_zones m')"
    using A2
  proof (elim disjE conjE exE)
    fix v assume v: "A2 = [(l, v)]"
    then have "coalesced (A1 @ [(l, v)])" using co(1) split by simp
    moreover have "snd (hd (coalesce_loop r (A2 @ B @ C))) = v" using loop(3) v by simp
    ultimately show ?thesis
      using loop_co zones by (auto simp: coalesced_def successively_append_iff)
  qed (use loop_co zones in simp)
  moreover have "rm_left m < k" if "k \<in> fst ` set (rm_zones m')" for k
  proof -
    have "k \<in> fst ` set (A @ B @ C)"
      using that loop(2) unfolding zones split by auto
    then consider "k \<in> fst ` set A" | "k \<in> fst ` set B" | "k \<in> fst ` set C" by auto
    then show ?thesis
      using A(1) [of k] keys(1) [of k] keys(2) [of k] l lr by cases auto
  qed
  moreover have "zval (rm_zones m') = zval (A @ B @ C)"
    using conjunct2 [OF loop(1)] by (intro ext) (simp add: zones split zval_append [of A1] split: option.split)
  ultimately show ?thesis using ok' zones loop(3,4) B by (auto simp: rm_ok_def)
qed


theorem rm_visit_mutable_at:
  assumes m: "rm_ok m" "rm_left m \<le> l" "l \<le> r" "r \<le> right_edge m"
    and cb: "\<And>a b v. l \<le> a \<Longrightarrow> a < b \<Longrightarrow> b \<le> r \<Longrightarrow> (\<And>e. a \<le> e \<Longrightarrow> e < b \<Longrightarrow> rm_at m e = Some v) \<Longrightarrow>
      cb a b v \<noteq> None"
  shows "\<exists>m'. rm_visit_mutable cb l r m = Some m' \<and> rm_ok m' \<and> rm_left m' = rm_left m \<and>
    right_edge m' = right_edge m \<and>
    (\<forall>e. if l \<le> e \<and> e < r
      then \<exists>a b v. l \<le> a \<and> a \<le> e \<and> e < b \<and> b \<le> r \<and> (\<forall>d. a \<le> d \<and> d < b \<longrightarrow> rm_at m d = Some v) \<and>
        rm_at m' e = cb a b v
      else rm_at m' e = rm_at m e)"
proof (cases "l = r")
  case True
  then show ?thesis using m(1) by (auto simp: rm_visit_mutable_def)
next
  case False
  then have lr: "l < r" and lm: "l < right_edge m" using m by auto
  have zones: "omap_ok (rm_zones m)" using m(1) by (simp add: rm_ok_def)
  obtain ps where ps: "rm_visit m l r = Some ps" "tiles l r ps"
    "\<forall>(a, b, v) \<in> set ps. \<forall>e. a \<le> e \<and> e < b \<longrightarrow> rm_at m e = Some v"
    using rm_visit_tiles [OF m] by blast
  have at: "rm_at m e = Some v" if "(a, b, v) \<in> set ps" "a \<le> e" "e < b" for a b v e using ps(3) that by blast
  have def: "cb a b v \<noteq> None" if "(a, b, v) \<in> set ps" for a b v
    using tiles_bounds [OF ps(2) that] at [OF that] by (intro cb) blast+
  let ?A = "cut_left l m" and ?C = "omap_upper_bound r (rm_zones m)"
  let ?B = "map (\<lambda>(a, b, v). (b, the (cb a b v))) ps"
  let ?m' = "coalesce_range l r (m\<lparr>rm_zones := ?A @ ?B @ ?C\<rparr>)"
  have upr: "omap_upper_bound r (omap_upper_bound l (rm_zones m)) = ?C"
    using lr by (simp add: upper_bound_twice)
  have loop: "mutate_loop cb l r (omap_upper_bound l (rm_zones m)) = Some (?B @ ?C)"
    using mutate_loop_visit [OF upper_bound_facts(1) [OF zones, of l], of l r ps cb] ps(1) False def
    by (simp add: rm_visit_def upr)
  have res: "rm_visit_mutable cb l r m = Some ?m'"
    using False loop before_chopped [OF m(1,2) lm]
    by (simp add: rm_visit_mutable_def Let_def append_assoc [symmetric] del: append_assoc)
  note cut = cut_left_facts [OF m(1,2) lm]
  note tz = tiles_zones_keys [OF ps(2), of "\<lambda>a b v. the (cb a b v)"]
    tiles_zones_last [OF ps(2) False, of "\<lambda>a b v. the (cb a b v)"]
  have B: "l < k \<and> k \<le> r" if "k \<in> fst ` set ?B" for k using tz(1) that by blast
  have C: "r < k" if "k \<in> fst ` set ?C" for k
    using upper_bound_facts(2) [OF zones, where l = r and k = k] that by simp
  have A: "rm_left m < k \<and> k \<le> l" if "k \<in> fst ` set ?A" for k by (rule cut(3) [OF that])
  have BC_ok: "omap_ok (?B @ ?C)"
    using tz(1) upper_bound_facts(1) [OF zones, of r] B C
    by (intro omap_ok_appendI) (blast, blast, meson le_less_trans)
  have ok: "omap_ok (?A @ ?B @ ?C)"
  proof (rule omap_ok_appendI [OF cut(1) BC_ok])
    fix a b assume a: "a \<in> fst ` set ?A" and "b \<in> fst ` set (?B @ ?C)"
    then have "b \<in> fst ` set ?B \<or> b \<in> fst ` set ?C" by (simp only: set_append image_Un Un_iff)
    then have "l < b" using B [of b] C [of b] lr by (elim disjE) auto
    then show "a < b" using A [OF a] by auto
  qed
  have ne: "?B \<noteq> []" "fst (last ?B) = r" using tz(2) by simp_all
  have cr: "rm_ok ?m' \<and> rm_left ?m' = rm_left m \<and> zval (rm_zones ?m') = zval (?A @ ?B @ ?C) \<and>
      rm_zones ?m' \<noteq> [] \<and> last (rm_zones ?m') = last (?B @ ?C)"
    using ne(1) cut(4,5) by (intro coalesce_range_splice [OF ok cut(2) suffix_facts [OF m(1)]] A B C m(2)) auto
  have val: "rm_at ?m' e = (if l \<le> e \<and> e < r then zval ?B e else rm_at m e)" for e
    using splice_at [OF m(1,2) lr m(4) ne B, of "rm_zones ?m'" e] cr m(2) by (auto simp: rm_at_def)
  have in_val: "\<exists>a b v. l \<le> a \<and> a \<le> e \<and> e < b \<and> b \<le> r \<and> (\<forall>d. a \<le> d \<and> d < b \<longrightarrow> rm_at m d = Some v) \<and>
      rm_at ?m' e = cb a b v" if e: "l \<le> e" "e < r" for e
  proof -
    obtain a b v where t: "(a, b, v) \<in> set ps" "a \<le> e" "e < b" using tiles_cover [OF ps(2) e] by blast
    have "zval ?B e = cb a b v"
      using tiles_zval [OF ps(2) t, of "\<lambda>a b v. the (cb a b v)"] def [OF t(1)] by auto
    then show ?thesis using val [of e] e t tiles_bounds [OF ps(2) t(1)] at [OF t(1)] by auto
  qed
  have "right_edge ?m' = (if ?C = [] then r else fst (last ?C))"
    using cr ne by (simp add: right_edge_def)
  then have "right_edge ?m' = right_edge m" unfolding splice_last [OF m(1,2) lr m(4)] .
  then show ?thesis using res cr in_val val by auto
qed


section \<open>Stores that are overwritten\<close>

text \<open>
  What the clients of range maps and of region maps rely on: a store is a partial function, an
  overwrite puts another one on top of it, and two stores with the same domain that agree
  everywhere are equal.
\<close>

locale overwritten =
  fixes ok :: "'s \<Rightarrow> bool" and within :: "'s \<Rightarrow> 's \<Rightarrow> bool" and at :: "'s \<Rightarrow> 'p \<Rightarrow> 'v option"
    and put :: "'s \<Rightarrow> 's \<Rightarrow> 's option"
  assumes put_at: "ok s \<Longrightarrow> ok u \<Longrightarrow> within u s \<Longrightarrow>
      \<exists>s'. put s u = Some s' \<and> ok s' \<and> (\<forall>w. within w s' \<longleftrightarrow> within w s) \<and> at s' = at s ++ at u"
    and canonical: "ok s \<Longrightarrow> ok t \<Longrightarrow> (\<And>w. within w s \<longleftrightarrow> within w t) \<Longrightarrow> at s = at t \<Longrightarrow> s = t"
begin

lemma puts_at:
  assumes "ok s" and "\<And>u. u \<in> set us \<Longrightarrow> ok u \<and> within u s"
  shows "\<exists>s'. fold_opt (\<lambda>u s. put s u) us s = Some s' \<and> ok s' \<and> (\<forall>w. within w s' \<longleftrightarrow> within w s) \<and>
    at s' = foldl (++) (at s) (map at us)"
  using assms
proof (induction us arbitrary: s)
  case (Cons u us)
  obtain s1 where s1: "put s u = Some s1" "ok s1" "\<forall>w. within w s1 \<longleftrightarrow> within w s" "at s1 = at s ++ at u"
    using put_at [of s u] Cons.prems by auto
  then have "\<exists>s'. fold_opt (\<lambda>u s. put s u) us s1 = Some s' \<and> ok s' \<and> (\<forall>w. within w s' \<longleftrightarrow> within w s1) \<and>
    at s' = foldl (++) (at s1) (map at us)"
    using Cons.prems by (intro Cons.IH) auto
  with s1 show ?case by auto
qed simp

lemma puts_commute:
  assumes "ok s" and "ok u" "within u s" and "ok v" "within v s" and "dom (at u) \<inter> dom (at v) = {}"
  shows "fold_opt (\<lambda>u s. put s u) [u, v] s = fold_opt (\<lambda>u s. put s u) [v, u] s"
proof -
  obtain s1 s2 where s1: "fold_opt (\<lambda>u s. put s u) [u, v] s = Some s1" "ok s1"
      "\<forall>w. within w s1 \<longleftrightarrow> within w s" "at s1 = at s ++ at u ++ at v"
    and s2: "fold_opt (\<lambda>u s. put s u) [v, u] s = Some s2" "ok s2"
      "\<forall>w. within w s2 \<longleftrightarrow> within w s" "at s2 = at s ++ at v ++ at u"
    using puts_at [of s "[u, v]"] puts_at [of s "[v, u]"] assms by auto
  have "at u ++ at v = at v ++ at u" using assms(6) by (rule map_add_comm)
  then have "at s1 = at s2" using s1(4) s2(4) by (metis map_add_assoc)
  then have "s1 = s2" using canonical [of s1 s2] s1(2,3) s2(2,3) by simp
  with s1(1) s2(1) show ?thesis by simp
qed

lemma put_idem:
  assumes "ok s" and "ok u" "within u s"
  shows "fold_opt (\<lambda>u s. put s u) [u, u] s = put s u"
proof -
  obtain s2 where s2: "fold_opt (\<lambda>u s. put s u) [u, u] s = Some s2" "ok s2"
      "\<forall>w. within w s2 \<longleftrightarrow> within w s" "at s2 = at s ++ at u ++ at u"
    using puts_at [of s "[u, u]"] assms by auto
  obtain s1 where s1: "put s u = Some s1" "ok s1" "\<forall>w. within w s1 \<longleftrightarrow> within w s" "at s1 = at s ++ at u"
    using put_at [of s u] assms by auto
  have "at s2 = at s1" unfolding s2(4) s1(4)
    by (auto simp: map_add_def fun_eq_iff split: option.splits)
  then have "s2 = s1" using canonical [of s2 s1] s1(2,3) s2(2,3) by simp
  with s1(1) s2(1) show ?thesis by simp
qed

end

definition rm_within :: "('e::linorder, 'v) range_map \<Rightarrow> ('e, 'v) range_map \<Rightarrow> bool" where
  "rm_within u m \<longleftrightarrow> rm_left m \<le> rm_left u \<and> right_edge u \<le> right_edge m"

lemma rm_at_add:
  assumes "rm_ok m" and "\<And>e. rm_at m' e = (if rm_left m \<le> e \<and> e < right_edge m then rm_at m e else f e)"
  shows "rm_at m' = f ++ rm_at m"
proof
  fix e
  show "rm_at m' e = (f ++ rm_at m) e"
    using rm_at_dom [OF assms(1), of e] assms(2) [of e]
    by (cases "rm_at m e") (auto simp: map_add_def)
qed

interpretation overwrites: overwritten rm_ok rm_within rm_at rm_update
proof unfold_locales
  fix m u :: "('a, 'b) range_map"
  assume "rm_ok m" "rm_ok u" "rm_within u m"
  then obtain m' where m': "rm_update m u = Some m'" "rm_ok m'" "rm_left m' = rm_left m" "right_edge m' = right_edge m"
    "\<And>e. rm_at m' e = (if rm_left u \<le> e \<and> e < right_edge u then rm_at u e else rm_at m e)"
    using rm_update_at [of m u] by (auto simp: rm_within_def)
  then show "\<exists>m'. rm_update m u = Some m' \<and> rm_ok m' \<and> (\<forall>w. rm_within w m' \<longleftrightarrow> rm_within w m) \<and>
      rm_at m' = rm_at m ++ rm_at u"
    using rm_at_add [OF \<open>rm_ok u\<close>] by (auto simp: rm_within_def)
next
  fix s t :: "('a, 'b) range_map"
  assume "rm_ok s" "rm_ok t" and w: "\<And>w. rm_within w s \<longleftrightarrow> rm_within w t" and "rm_at s = rm_at t"
  have "rm_left s = rm_left t"
    using w [of s] w [of t] by (auto simp: rm_within_def)
  then show "s = t" using rm_canonical \<open>rm_ok s\<close> \<open>rm_ok t\<close> \<open>rm_at s = rm_at t\<close> by metis
qed

section \<open>Properties\<close>

text \<open>
  Property C16. \<open>update()\<close> puts the new values over the old ones: for a well-formed map and a
  well-formed patch inside its domain the call succeeds, keeps the well-formedness that
  \<open>validate()\<close> checks and the domain, and the result is the old map overridden by the patch.
\<close>

theorem range_map_update_correct:
  assumes "rm_ok m" and "rm_ok other" and "rm_left m \<le> rm_left other" and "right_edge other \<le> right_edge m"
  shows "\<exists>m'. rm_update m other = Some m' \<and> rm_ok m' \<and> rm_left m' = rm_left m \<and>
    right_edge m' = right_edge m \<and> rm_at m' = rm_at m ++ rm_at other"
proof -
  from rm_update_at [OF assms] obtain m' where m': "rm_update m other = Some m'" "rm_ok m'"
    "rm_left m' = rm_left m" "right_edge m' = right_edge m"
    "\<And>e. rm_at m' e = (if rm_left other \<le> e \<and> e < right_edge other then rm_at other e else rm_at m e)" by auto
  then show ?thesis using rm_at_add [OF assms(2)] by blast
qed

definition demo_map :: "(nat, char) range_map" where
  "demo_map = \<lparr>rm_left = 0, rm_zones = [(4, CHR ''a''), (9, CHR ''b'')]\<rparr>"

lemma demo_map_ok: "rm_ok demo_map"
  by (simp add: demo_map_def rm_ok_def omap_ok_def coalesced_def)

theorem range_map_update_correct_witness:
  "\<exists>m'. rm_update demo_map (range_map_of 2 6 CHR ''b'') = Some m' \<and> rm_ok m' \<and> rm_left m' = 0 \<and>
    right_edge m' = 9 \<and> rm_at m' = rm_at demo_map ++ rm_at (range_map_of 2 6 CHR ''b'')"
  using range_map_update_correct [OF demo_map_ok rm_ok_of [of 2 6 "CHR ''b''"]]
  by (simp add: demo_map_def right_edge_def range_map_of_def)

text \<open>
  Property C24. The equivalence the comment of \<open>visit_mutable()\<close> states: \<open>update(l, r, v)\<close> is the
  same as a \<open>visit_mutable(l, r, cb)\<close> whose callback stores \<open>v\<close>; both return the same map.
\<close>

theorem range_map_update_is_visit_mutable:
  assumes "rm_ok m" and "rm_left m \<le> l" and "l \<le> r" and "r \<le> right_edge m"
  shows "\<exists>m'. rm_update_value l r v m = Some m' \<and> rm_visit_mutable (\<lambda>a b w. Some v) l r m = Some m' \<and>
    rm_ok m' \<and> rm_at m' = (\<lambda>e. if l \<le> e \<and> e < r then Some v else rm_at m e)"
proof -
  obtain m1 where m1: "rm_update_value l r v m = Some m1" "rm_ok m1" "rm_left m1 = rm_left m"
    "\<And>e. rm_at m1 e = (if l \<le> e \<and> e < r then Some v else rm_at m e)"
    using rm_update_at [OF assms(1) rm_ok_of [OF assms(3)], of v] assms by (auto simp: rm_update_value_def rm_at_of)
  obtain m2 where m2: "rm_visit_mutable (\<lambda>a b w. Some v) l r m = Some m2" "rm_ok m2" "rm_left m2 = rm_left m"
    "\<And>e. rm_at m2 e = (if l \<le> e \<and> e < r then Some v else rm_at m e)"
    using rm_visit_mutable_at [OF assms, where cb = "\<lambda>a b w. Some v"] by (metis option.discI)
  have "m1 = m2" using m1 m2 by (intro rm_canonical) simp_all
  then show ?thesis using m1 m2 by auto
qed

theorem range_map_update_is_visit_mutable_witness:
  "\<exists>m'. rm_update_value 2 6 CHR ''c'' demo_map = Some m' \<and>
    rm_visit_mutable (\<lambda>a b w. Some CHR ''c'') 2 6 demo_map = Some m' \<and>
    rm_ok m' \<and> rm_at m' = (\<lambda>e. if 2 \<le> e \<and> e < 6 then Some CHR ''c'' else rm_at demo_map e)"
  using range_map_update_is_visit_mutable [OF demo_map_ok, of 2 6 "CHR ''c''"]
  by (simp add: demo_map_def right_edge_def)

text \<open>
  Cutting a map at any edge of its domain with \<open>mask()\<close> and putting the halves
  together again, with \<open>extend_right()\<close> or with \<open>extend_left()\<close>, gives back the same map.
\<close>

theorem range_map_mask_extend_roundtrip:
  assumes "rm_ok m" and "rm_left m \<le> x" and "x \<le> right_edge m"
  shows "\<exists>a b. rm_mask m (rm_left m) x = Some a \<and> rm_mask m x (right_edge m) = Some b \<and>
    extend_right a b = Some m \<and> extend_left b a = Some m"
proof -
  obtain a where a: "rm_mask m (rm_left m) x = Some a" "rm_ok a" "rm_left a = rm_left m" "right_edge a = x"
    "\<And>e. rm_at a e = (if rm_left m \<le> e \<and> e < x then rm_at m e else None)"
    using rm_map_at [OF assms(1) order.refl assms(2,3), where cb = Some] by (auto simp: rm_mask_as_map)
  obtain b where b: "rm_mask m x (right_edge m) = Some b" "rm_ok b" "rm_left b = x" "right_edge b = right_edge m"
    "\<And>e. rm_at b e = (if x \<le> e \<and> e < right_edge m then rm_at m e else None)"
    using rm_map_at [OF assms(1,2,3) order.refl, where cb = Some] by (auto simp: rm_mask_as_map)
  have m: "rm_at m e = (if e < x then rm_at a e else rm_at b e)" for e
    using rm_at_dom [OF assms(1), of e] a(5) [of e] b(5) [of e] by auto
  obtain m1 where m1: "extend_right a b = Some m1" "rm_ok m1" "rm_left m1 = rm_left m"
    "\<And>e. rm_at m1 e = (if e < x then rm_at a e else rm_at b e)"
    using extend_right_at [OF a(2) b(2)] a b by auto
  obtain m2 where m2: "extend_left b a = Some m2" "rm_ok m2" "rm_left m2 = rm_left m"
    "\<And>e. rm_at m2 e = (if e < x then rm_at a e else rm_at b e)"
    using extend_left_at [OF b(2) a(2)] a b by auto
  have "m1 = m" "m2 = m" using m1 m2 m assms(1) by (auto intro!: rm_canonical)
  then show ?thesis using a(1) b(1) m1(1) m2(1) by simp
qed

text \<open>
  A sequence of \<open>update()\<close> calls inside the domain never fails, and at every edge the
  last patch that covers it wins.
\<close>

theorem range_map_last_update_wins:
  assumes "rm_ok m" and "\<And>u. u \<in> set us \<Longrightarrow> rm_ok u \<and> rm_within u m"
  shows "\<exists>m'. fold_opt (\<lambda>u m. rm_update m u) us m = Some m' \<and> rm_ok m' \<and>
    rm_at m' = foldl (++) (rm_at m) (map rm_at us)"
  using overwrites.puts_at [OF assms] by blast

end
