(* ===== verification/Region_Map.thy ===== *)
theory Region_Map
  imports Regions Range_Update
begin

text \<open>
  \<open>region/region_map.hpp\<close>: maps from hash regions to values, built from two nested range maps. A
  point of a region map is an edge of the key space and a hash value. A callback may abort; so may
  \<open>key()\<close> of an unbounded edge and the construction of an empty region.
\<close>

section \<open>The data structure\<close>

record 'v region_map =
  rgm_inner :: "(right_bound, (u64, 'v) range_map) range_map"
  rgm_hash_beg :: u64
  rgm_hash_end :: u64

definition region_map_of :: "hash_region \<Rightarrow> 'v \<Rightarrow> 'v region_map" where
  "region_map_of r v =
     \<lparr>rgm_inner = range_map_of (Bound (kr_left (hr_inner r))) (kr_right (hr_inner r))
                   (range_map_of (hr_beg r) (hr_end r) v),
      rgm_hash_beg = hr_beg r,
      rgm_hash_end = hr_end r\<rparr>"

definition region_map_empty :: "'v region_map option" where
  "region_map_empty =
     do {
       u \<leftarrow> hash_region_universe;
       Some \<lparr>rgm_inner = range_map_point Unbounded, rgm_hash_beg = hr_beg u, rgm_hash_end = hr_end u\<rparr>
     }"

definition edge_key :: "right_bound \<Rightarrow> store_key option" where
  "edge_key b = (case b of Bound k \<Rightarrow> Some k | Unbounded \<Rightarrow> None)"

definition get_domain :: "'v region_map \<Rightarrow> hash_region option" where
  "get_domain m =
     (if empty_domain (rgm_inner m) then Some hash_region_empty
      else
        do {
          l \<leftarrow> edge_key (left_edge (rgm_inner m));
          Some \<lparr>hr_beg = rgm_hash_beg m, hr_end = rgm_hash_end m,
                hr_inner = \<lparr>kr_left = l, kr_right = right_edge (rgm_inner m)\<rparr>\<rparr>
        })"

definition region_map_lookup :: "'v region_map \<Rightarrow> store_key \<Rightarrow> 'v option" where
  "region_map_lookup m key =
     (let h = hash_region_hasher key
      in do { hrm \<leftarrow> rm_lookup (rgm_inner m) (Bound key); rm_lookup hrm h })"

text \<open>The region a callback is called with.\<close>

definition piece_region :: "right_bound \<Rightarrow> right_bound \<Rightarrow> u64 \<Rightarrow> u64 \<Rightarrow> hash_region option" where
  "piece_region l r b e =
     do { k \<leftarrow> edge_key l; hash_region_make b e \<lparr>kr_left = k, kr_right = r\<rparr> }"

definition region_map_visit :: "'v region_map \<Rightarrow> hash_region \<Rightarrow> (hash_region \<times> 'v) list option" where
  "region_map_visit m region =
     do {
       cells \<leftarrow> rm_visit (rgm_inner m) (Bound (kr_left (hr_inner region))) (kr_right (hr_inner region));
       map_concat_opt (\<lambda>(l, r, hrm).
         do {
           pieces \<leftarrow> rm_visit hrm (hr_beg region) (hr_end region);
           map_concat_opt (\<lambda>(b, e, v). do { reg \<leftarrow> piece_region l r b e; Some [(reg, v)] }) pieces
         }) cells
     }"

section \<open>Deriving maps\<close>

definition region_map_map :: "('v \<Rightarrow> 'w option) \<Rightarrow> 'v region_map \<Rightarrow> hash_region \<Rightarrow> 'w region_map option" where
  "region_map_map cb m region =
     do {
       inner \<leftarrow> rm_map (\<lambda>slice. rm_map cb slice (hr_beg region) (hr_end region)) (rgm_inner m)
         (Bound (kr_left (hr_inner region))) (kr_right (hr_inner region));
       Some \<lparr>rgm_inner = inner, rgm_hash_beg = hr_beg region, rgm_hash_end = hr_end region\<rparr>
     }"

definition region_map_mask :: "'v region_map \<Rightarrow> hash_region \<Rightarrow> 'v region_map option" where
  "region_map_mask m region =
     do {
       inner \<leftarrow> rm_map (\<lambda>hm. rm_mask hm (hr_beg region) (hr_end region)) (rgm_inner m)
         (Bound (kr_left (hr_inner region))) (kr_right (hr_inner region));
       Some \<lparr>rgm_inner = inner, rgm_hash_beg = hr_beg region, rgm_hash_end = hr_end region\<rparr>
     }"

text \<open>Visiting \<open>n\<close> and changing, piece by piece, what \<open>m\<close> holds there.\<close>

definition visit_mutating ::
  "('w \<Rightarrow> 'v \<Rightarrow> 'v option) \<Rightarrow> ('e::linorder, 'w) range_map \<Rightarrow> 'e \<Rightarrow> 'e \<Rightarrow> ('e, 'v) range_map \<Rightarrow>
     ('e, 'v) range_map option" where
  "visit_mutating cb n l r m =
     do {
       pieces \<leftarrow> rm_visit n l r;
       fold_opt (\<lambda>(l2, r2, w) m. rm_visit_mutable (\<lambda>_ _ cur. cb w cur) l2 r2 m) pieces m
     }"

definition map_multi_cell ::
  "(hash_region \<Rightarrow> 'v \<Rightarrow> 'w region_map option) \<Rightarrow> hash_region \<Rightarrow> right_bound \<Rightarrow> right_bound \<Rightarrow>
     (u64, 'v) range_map \<Rightarrow> (right_bound, (u64, 'w) range_map) range_map option" where
  "map_multi_cell cb region l r hrm =
     do {
       pieces \<leftarrow> rm_visit hrm (hr_beg region) (hr_end region);
       fold_opt (\<lambda>(b, e, v) sub_res.
         do {
           reg \<leftarrow> piece_region l r b e;
           sub_sub_res \<leftarrow> cb reg v;
           visit_mutating (\<lambda>new cur. extend_right cur new) (rgm_inner sub_sub_res) l r sub_res
         }) pieces (range_map_of l r (range_map_point (hr_beg region)))
     }"

definition region_map_map_multi ::
  "(hash_region \<Rightarrow> 'v \<Rightarrow> 'w region_map option) \<Rightarrow> 'v region_map \<Rightarrow> hash_region \<Rightarrow> 'w region_map option" where
  "region_map_map_multi cb m region =
     do {
       inner \<leftarrow> rm_map_multi (map_multi_cell cb region) (rgm_inner m)
         (Bound (kr_left (hr_inner region))) (kr_right (hr_inner region));
       Some \<lparr>rgm_inner = inner, rgm_hash_beg = hr_beg region, rgm_hash_end = hr_end region\<rparr>
     }"

definition region_map_eq :: "'v region_map \<Rightarrow> 'v region_map \<Rightarrow> bool" where
  "region_map_eq m other \<longleftrightarrow> rgm_inner m = rgm_inner other"

section \<open>Changing a map\<close>

definition region_map_update :: "'v region_map \<Rightarrow> 'v region_map \<Rightarrow> 'v region_map option" where
  "region_map_update m new_values =
     do {
       inner \<leftarrow> visit_mutating (\<lambda>new cur. rm_update cur new) (rgm_inner new_values)
         (left_edge (rgm_inner new_values)) (right_edge (rgm_inner new_values)) (rgm_inner m);
       Some (m\<lparr>rgm_inner := inner\<rparr>)
     }"

definition region_map_update_value :: "hash_region \<Rightarrow> 'v \<Rightarrow> 'v region_map \<Rightarrow> 'v region_map option" where
  "region_map_update_value r v m =
     do {
       inner \<leftarrow> rm_visit_mutable (\<lambda>_ _ cur. rm_update_value (hr_beg r) (hr_end r) v cur)
         (Bound (kr_left (hr_inner r))) (kr_right (hr_inner r)) (rgm_inner m);
       Some (m\<lparr>rgm_inner := inner\<rparr>)
     }"

definition extend_keys_right :: "'v region_map \<Rightarrow> 'v region_map \<Rightarrow> 'v region_map option" where
  "extend_keys_right m new_values =
     (if rgm_hash_end m = rgm_hash_beg m \<or> empty_domain (rgm_inner m) then Some new_values
      else
        do {
          inner \<leftarrow> extend_right (rgm_inner m) (rgm_inner new_values);
          Some (m\<lparr>rgm_inner := inner\<rparr>)
        })"

definition region_map_visit_mutable ::
  "(hash_region \<Rightarrow> 'v \<Rightarrow> 'v option) \<Rightarrow> hash_region \<Rightarrow> 'v region_map \<Rightarrow> 'v region_map option" where
  "region_map_visit_mutable cb region m =
     do {
       inner \<leftarrow> rm_visit_mutable
         (\<lambda>l r hrm. rm_visit_mutable (\<lambda>b e v. do { reg \<leftarrow> piece_region l r b e; cb reg v })
            (hr_beg region) (hr_end region) hrm)
         (Bound (kr_left (hr_inner region))) (kr_right (hr_inner region)) (rgm_inner m);
       Some (m\<lparr>rgm_inner := inner\<rparr>)
     }"

text \<open>\<open>v0\<close> is \<open>value_t()\<close>.\<close>

definition from_unordered_fragments :: "'v \<Rightarrow> hash_region list \<Rightarrow> 'v list \<Rightarrow> 'v region_map option" where
  "from_unordered_fragments v0 regions vals =
     do {
       res \<leftarrow> region_join regions;
       (case res of
          REGION_JOIN_OK domain \<Rightarrow>
            fold_opt (\<lambda>i m. region_map_update_value (regions ! i) (vals ! i) m) [0..<length regions]
              (region_map_of domain v0)
        | _ \<Rightarrow> None)
     }"

section \<open>The meaning of a region map\<close>

definition slice_ok :: "u64 \<Rightarrow> u64 \<Rightarrow> (u64, 'v) range_map \<Rightarrow> bool" where
  "slice_ok b e hrm \<longleftrightarrow> rm_ok hrm \<and> rm_left hrm = b \<and> right_edge hrm = e"

definition slices_ok :: "u64 \<Rightarrow> u64 \<Rightarrow> (right_bound, (u64, 'v) range_map) range_map \<Rightarrow> bool" where
  "slices_ok b e inner \<longleftrightarrow> rm_ok inner \<and> (\<forall>k v. rm_at inner k = Some v \<longrightarrow> slice_ok b e v)"

definition region_map_ok :: "'v region_map \<Rightarrow> bool" where
  "region_map_ok m \<longleftrightarrow>
     slices_ok (rgm_hash_beg m) (rgm_hash_end m) (rgm_inner m) \<and> rgm_hash_beg m \<le> rgm_hash_end m"

definition inner_at :: "(right_bound, (u64, 'v) range_map) range_map \<Rightarrow> right_bound \<times> u64 \<Rightarrow> 'v option" where
  "inner_at inner p = Option.bind (rm_at inner (fst p)) (\<lambda>hrm. rm_at hrm (snd p))"

definition region_map_at :: "'v region_map \<Rightarrow> right_bound \<times> u64 \<Rightarrow> 'v option" where
  "region_map_at m = inner_at (rgm_inner m)"

definition region_map_within :: "'v region_map \<Rightarrow> 'v region_map \<Rightarrow> bool" where
  "region_map_within u m \<longleftrightarrow>
     rm_within (rgm_inner u) (rgm_inner m) \<and>
     rgm_hash_beg m \<le> rgm_hash_beg u \<and> rgm_hash_end u \<le> rgm_hash_end m"

lemma slice_okD: "slices_ok b e inner \<Longrightarrow> rm_at inner k = Some v \<Longrightarrow> slice_ok b e v"
  by (simp add: slices_ok_def)

lemma slices_ok_rm_ok: "slices_ok b e inner \<Longrightarrow> rm_ok inner"
  by (simp add: slices_ok_def)

subsection \<open>Changing the slices of a key range\<close>

lemma rm_visit_mutable_uniform:
  assumes "rm_ok m" "rm_left m \<le> l" "l \<le> r" "r \<le> right_edge m"
    and "\<And>e v. l \<le> e \<Longrightarrow> e < r \<Longrightarrow> rm_at m e = Some v \<Longrightarrow> cb v \<noteq> None"
  shows "\<exists>m'. rm_visit_mutable (\<lambda>_ _ v. cb v) l r m = Some m' \<and> rm_ok m' \<and> rm_left m' = rm_left m \<and>
    right_edge m' = right_edge m \<and>
    (\<forall>e. rm_at m' e = (if l \<le> e \<and> e < r then Option.bind (rm_at m e) cb else rm_at m e))"
proof -
  have "\<exists>m'. rm_visit_mutable (\<lambda>_ _ v. cb v) l r m = Some m' \<and> rm_ok m' \<and> rm_left m' = rm_left m \<and>
    right_edge m' = right_edge m \<and>
    (\<forall>e. if l \<le> e \<and> e < r
      then \<exists>a b v. l \<le> a \<and> a \<le> e \<and> e < b \<and> b \<le> r \<and> (\<forall>d. a \<le> d \<and> d < b \<longrightarrow> rm_at m d = Some v) \<and>
        rm_at m' e = cb v
      else rm_at m' e = rm_at m e)"
    using assms(5) by (intro rm_visit_mutable_at [where cb = "\<lambda>_ _ v. cb v", OF assms(1-4)]) auto
  then obtain m' where m': "rm_visit_mutable (\<lambda>_ _ v. cb v) l r m = Some m'" "rm_ok m'" "rm_left m' = rm_left m"
    "right_edge m' = right_edge m"
    "\<And>e. if l \<le> e \<and> e < r
      then \<exists>a b v. l \<le> a \<and> a \<le> e \<and> e < b \<and> b \<le> r \<and> (\<forall>d. a \<le> d \<and> d < b \<longrightarrow> rm_at m d = Some v) \<and>
        rm_at m' e = cb v
      else rm_at m' e = rm_at m e"
    by blast
  have "rm_at m' e = (if l \<le> e \<and> e < r then Option.bind (rm_at m e) cb else rm_at m e)" for e
    using m'(5) [of e] by (auto split: if_splits)
  with m'(1-4) show ?thesis by blast
qed

text \<open>Mutating \<open>m\<close> under every piece of \<open>n\<close>.\<close>

lemma mutate_tiles:
  assumes "tiles l r ps" and "rm_ok m" "rm_left m \<le> l" "r \<le> right_edge m"
    and "\<And>a b w e v. (a, b, w) \<in> set ps \<Longrightarrow> a \<le> e \<Longrightarrow> e < b \<Longrightarrow> rm_at m e = Some v \<Longrightarrow> cb w v \<noteq> None"
  shows "\<exists>m'. fold_opt (\<lambda>(a, b, w) m. rm_visit_mutable (\<lambda>_ _ v. cb w v) a b m) ps m = Some m' \<and>
    rm_ok m' \<and> rm_left m' = rm_left m \<and> right_edge m' = right_edge m \<and>
    (\<forall>e. \<not> (l \<le> e \<and> e < r) \<longrightarrow> rm_at m' e = rm_at m e) \<and>
    (\<forall>(a, b, w) \<in> set ps. \<forall>e. a \<le> e \<and> e < b \<longrightarrow> rm_at m' e = Option.bind (rm_at m e) (cb w))"
  using assms
proof (induction l r ps arbitrary: m rule: tiles.induct)
  case (1 l r)
  then show ?case by simp
next
  case (2 l r a b w ps)
  have t: "a = l" "l < b" "tiles b r ps" "b \<le> r" using "2.prems"(1) tiles_le by auto
  have "l \<le> b" "b \<le> right_edge m" using t "2.prems"(4) by auto
  then obtain m1 where m1: "rm_visit_mutable (\<lambda>_ _ v. cb w v) l b m = Some m1" "rm_ok m1"
    "rm_left m1 = rm_left m" "right_edge m1 = right_edge m"
    "\<And>e. rm_at m1 e = (if l \<le> e \<and> e < b then Option.bind (rm_at m e) (cb w) else rm_at m e)"
    using rm_visit_mutable_uniform [OF "2.prems"(2,3), of b "cb w"] "2.prems"(5) [of a b w] t(1) by auto
  have later: "rm_at m1 e = rm_at m e" if "(a', b', w') \<in> set ps" "a' \<le> e" for a' b' w' e
    using tiles_bounds [OF t(3) that(1)] that(2) m1(5) [of e] by auto
  have "\<exists>m'. fold_opt (\<lambda>(a, b, w) m. rm_visit_mutable (\<lambda>_ _ v. cb w v) a b m) ps m1 = Some m' \<and>
    rm_ok m' \<and> rm_left m' = rm_left m1 \<and> right_edge m' = right_edge m1 \<and>
    (\<forall>e. \<not> (b \<le> e \<and> e < r) \<longrightarrow> rm_at m' e = rm_at m1 e) \<and>
    (\<forall>(a, b, w) \<in> set ps. \<forall>e. a \<le> e \<and> e < b \<longrightarrow> rm_at m' e = Option.bind (rm_at m1 e) (cb w))"
  proof (rule "2.IH" [OF t(3) m1(2)])
    show "rm_left m1 \<le> b" "r \<le> right_edge m1" using m1(3,4) "2.prems"(3,4) t by auto
    show "cb w' v \<noteq> None" if "(a', b', w') \<in> set ps" "a' \<le> e" "e < b'" "rm_at m1 e = Some v" for a' b' w' e v
      using "2.prems"(5) [of a' b' w' e v] that later [OF that(1,2)] by auto
  qed
  then obtain m' where m': "fold_opt (\<lambda>(a, b, w) m. rm_visit_mutable (\<lambda>_ _ v. cb w v) a b m) ps m1 = Some m'"
    "rm_ok m'" "rm_left m' = rm_left m1" "right_edge m' = right_edge m1"
    "\<And>e. \<not> (b \<le> e \<and> e < r) \<Longrightarrow> rm_at m' e = rm_at m1 e"
    "\<And>a b w e. (a, b, w) \<in> set ps \<Longrightarrow> a \<le> e \<Longrightarrow> e < b \<Longrightarrow> rm_at m' e = Option.bind (rm_at m1 e) (cb w)"
    by blast
  have outside: "rm_at m' e = rm_at m e" if "\<not> (l \<le> e \<and> e < r)" for e
    using m'(5) [of e] m1(5) [of e] that t by auto
  have inside: "rm_at m' e = Option.bind (rm_at m e) (cb w')"
    if "(a', b', w') \<in> set ((a, b, w) # ps)" "a' \<le> e" "e < b'" for a' b' w' e
  proof (cases "(a', b', w') \<in> set ps")
    case True
    then show ?thesis using m'(6) [OF True that(2,3)] later [OF True that(2)] by simp
  next
    case False
    then have "a' = l" "b' = b" "w' = w" using that(1) t(1) by auto
    moreover from this have "\<not> b \<le> e" using that(3) by auto
    ultimately show ?thesis using that m'(5) [of e] m1(5) [of e] by auto
  qed
  have "fold_opt (\<lambda>(a, b, w) m. rm_visit_mutable (\<lambda>_ _ v. cb w v) a b m) ((a, b, w) # ps) m = Some m'"
    using m'(1) m1(1) t(1) by simp
  moreover have "rm_left m' = rm_left m" "right_edge m' = right_edge m" using m'(3,4) m1(3,4) by simp_all
  moreover have "\<forall>(a, b, w) \<in> set ((a, b, w) # ps). \<forall>e. a \<le> e \<and> e < b \<longrightarrow>
      rm_at m' e = Option.bind (rm_at m e) (cb w)"
    using inside by blast
  ultimately show ?case using m'(2) outside by blast
qed

lemma visit_mutating_at:
  assumes n: "rm_ok n" "rm_left n \<le> l" "l \<le> r" "r \<le> right_edge n"
    and m: "rm_ok m" "rm_left m \<le> l" "r \<le> right_edge m"
    and cb: "\<And>e w v. l \<le> e \<Longrightarrow> e < r \<Longrightarrow> rm_at n e = Some w \<Longrightarrow> rm_at m e = Some v \<Longrightarrow> cb w v \<noteq> None"
  shows "\<exists>m'. visit_mutating cb n l r m = Some m' \<and>
    rm_ok m' \<and> rm_left m' = rm_left m \<and> right_edge m' = right_edge m \<and>
    (\<forall>e. rm_at m' e =
      (if l \<le> e \<and> e < r then do { w \<leftarrow> rm_at n e; v \<leftarrow> rm_at m e; cb w v } else rm_at m e))"
proof -
  obtain ps where ps: "rm_visit n l r = Some ps" "tiles l r ps"
    "\<And>a b w e. (a, b, w) \<in> set ps \<Longrightarrow> a \<le> e \<Longrightarrow> e < b \<Longrightarrow> rm_at n e = Some w"
    using rm_visit_tiles [OF n] by blast
  have def: "cb w v \<noteq> None"
    if "(a, b, w) \<in> set ps" "a \<le> e" "e < b" "rm_at m e = Some v" for a b w e v
    using that ps(3) [OF that(1-3)] tiles_bounds [OF ps(2) that(1)] by (intro cb [of e]) auto
  obtain m' where m': "fold_opt (\<lambda>(a, b, w) m. rm_visit_mutable (\<lambda>_ _ v. cb w v) a b m) ps m = Some m'"
    "rm_ok m'" "rm_left m' = rm_left m" "right_edge m' = right_edge m"
    "\<And>e. \<not> (l \<le> e \<and> e < r) \<Longrightarrow> rm_at m' e = rm_at m e"
    "\<And>a b w e. (a, b, w) \<in> set ps \<Longrightarrow> a \<le> e \<Longrightarrow> e < b \<Longrightarrow> rm_at m' e = Option.bind (rm_at m e) (cb w)"
    using mutate_tiles [OF ps(2) m, where cb = cb] def by blast
  have "rm_at m' e = do { w \<leftarrow> rm_at n e; v \<leftarrow> rm_at m e; cb w v }" if e: "l \<le> e" "e < r" for e
  proof -
    obtain a b w where t: "(a, b, w) \<in> set ps" "a \<le> e" "e < b" using tiles_cover [OF ps(2) e] by blast
    show ?thesis using m'(6) [OF t] ps(3) [OF t] by simp
  qed
  then show ?thesis using m'(1-5) ps(1) by (simp add: visit_mutating_def)
qed


subsection \<open>Overwriting\<close>

lemma slice_update:
  assumes "slice_ok b e v" and "slice_ok b' e' w" and "b \<le> b'" and "e' \<le> e"
  shows "\<exists>v'. rm_update v w = Some v' \<and> slice_ok b e v' \<and> rm_at v' = rm_at v ++ rm_at w"
proof -
  have v: "rm_ok v" "rm_left v = b" "right_edge v = e" and w: "rm_ok w" "rm_left w = b'" "right_edge w = e'"
    using assms(1,2) by (simp_all add: slice_ok_def)
  obtain v' where v': "rm_update v w = Some v'" "rm_ok v'" "rm_left v' = rm_left v" "right_edge v' = right_edge v"
    "\<And>x. rm_at v' x = (if rm_left w \<le> x \<and> x < right_edge w then rm_at w x else rm_at v x)"
    using rm_update_at [OF v(1) w(1)] v w assms(3,4) by auto
  then show ?thesis using rm_at_add [OF w(1) v'(5)] v by (auto simp: slice_ok_def)
qed

lemma region_map_update_at:
  assumes m: "region_map_ok m" and u: "region_map_ok u" and within: "region_map_within u m"
  shows "\<exists>m'. region_map_update m u = Some m' \<and> region_map_ok m' \<and>
    rm_left (rgm_inner m') = rm_left (rgm_inner m) \<and> right_edge (rgm_inner m') = right_edge (rgm_inner m) \<and>
    rgm_hash_beg m' = rgm_hash_beg m \<and> rgm_hash_end m' = rgm_hash_end m \<and>
    region_map_at m' = region_map_at m ++ region_map_at u"
proof -
  let ?m = "rgm_inner m" and ?u = "rgm_inner u"
  have ms: "slices_ok (rgm_hash_beg m) (rgm_hash_end m) ?m" and us: "slices_ok (rgm_hash_beg u) (rgm_hash_end u) ?u"
    using m u by (simp_all add: region_map_ok_def)
  note ok = slices_ok_rm_ok [OF ms] slices_ok_rm_ok [OF us]
  have w: "rm_left ?m \<le> rm_left ?u" "right_edge ?u \<le> right_edge ?m"
    "rgm_hash_beg m \<le> rgm_hash_beg u" "rgm_hash_end u \<le> rgm_hash_end m"
    using within by (simp_all add: region_map_within_def rm_within_def)
  have step: "\<exists>v'. rm_update v w = Some v' \<and> slice_ok (rgm_hash_beg m) (rgm_hash_end m) v' \<and> rm_at v' = rm_at v ++ rm_at w"
    if "rm_at ?u k = Some w" "rm_at ?m k = Some v" for k w v
    using slice_update [OF slice_okD [OF ms that(2)] slice_okD [OF us that(1)] w(3,4)] .
  obtain m' where m': "visit_mutating (\<lambda>new cur. rm_update cur new) ?u (rm_left ?u) (right_edge ?u) ?m = Some m'"
    "rm_ok m'" "rm_left m' = rm_left ?m" "right_edge m' = right_edge ?m"
    "\<And>k. rm_at m' k = (if rm_left ?u \<le> k \<and> k < right_edge ?u
        then do { w \<leftarrow> rm_at ?u k; v \<leftarrow> rm_at ?m k; rm_update v w } else rm_at ?m k)"
    using visit_mutating_at [OF ok(2) order.refl left_le_right [OF ok(2)] order.refl ok(1) w(1,2),
        where cb = "\<lambda>new cur. rm_update cur new"] step by blast
  have cell: "(case rm_at ?u k of None \<Rightarrow> rm_at m' k = rm_at ?m k
      | Some w \<Rightarrow> \<exists>v v'. rm_at ?m k = Some v \<and> rm_at m' k = Some v' \<and>
          slice_ok (rgm_hash_beg m) (rgm_hash_end m) v' \<and> rm_at v' = rm_at v ++ rm_at w)" for k
  proof (cases "rm_at ?u k")
    case None
    then show ?thesis using m'(5) [of k] rm_at_dom [OF ok(2), of k] by auto
  next
    case (Some w)
    then have k: "rm_left ?u \<le> k" "k < right_edge ?u" using rm_at_dom [OF ok(2), of k] by auto
    then obtain v where v: "rm_at ?m k = Some v" using rm_at_dom [OF ok(1), of k] w by auto
    then show ?thesis using Some step [OF Some v] m'(5) [of k] k by auto
  qed
  have "slices_ok (rgm_hash_beg m) (rgm_hash_end m) m'"
    unfolding slices_ok_def
  proof (intro conjI allI impI)
    fix k v' assume "rm_at m' k = Some v'"
    then show "slice_ok (rgm_hash_beg m) (rgm_hash_end m) v'"
      using cell [of k] slice_okD [OF ms, of k v'] by (auto split: option.splits)
  qed (rule m'(2))
  moreover have "inner_at m' p = (inner_at ?m ++ inner_at ?u) p" for p
    using cell [of "fst p"] by (auto simp: inner_at_def map_add_def split: option.splits)
  ultimately show ?thesis
    using m' m by (auto simp: region_map_update_def region_map_ok_def region_map_at_def left_edge_def)
qed

lemma region_map_canonical:
  assumes m: "region_map_ok m" and n: "region_map_ok n"
    and edges: "rm_left (rgm_inner m) = rm_left (rgm_inner n)" "right_edge (rgm_inner m) = right_edge (rgm_inner n)"
      "rgm_hash_beg m = rgm_hash_beg n" "rgm_hash_end m = rgm_hash_end n"
    and at: "region_map_at m = region_map_at n"
  shows "m = n"
proof -
  let ?m = "rgm_inner m" and ?n = "rgm_inner n"
  have ms: "slices_ok (rgm_hash_beg m) (rgm_hash_end m) ?m" and ns: "slices_ok (rgm_hash_beg m) (rgm_hash_end m) ?n"
    using m n edges by (simp_all add: region_map_ok_def)
  note ok = slices_ok_rm_ok [OF ms] slices_ok_rm_ok [OF ns]
  have "rm_at ?m k = rm_at ?n k" for k
  proof (cases "rm_at ?m k")
    case None
    then show ?thesis using rm_at_dom [OF ok(1), of k] rm_at_dom [OF ok(2), of k] edges by auto
  next
    case (Some v)
    then obtain w where w: "rm_at ?n k = Some w"
      using rm_at_dom [OF ok(1), of k] rm_at_dom [OF ok(2), of k] edges by auto
    have "rm_at v h = rm_at w h" for h
      using fun_cong [OF at, of "(k, h)"] Some w by (simp add: region_map_at_def inner_at_def)
    then have "v = w"
      using slice_okD [OF ms Some] slice_okD [OF ns w] by (intro rm_canonical) (simp_all add: slice_ok_def)
    then show ?thesis using Some w by simp
  qed
  then have "?m = ?n" using rm_canonical [OF ok edges(1)] by blast
  then show ?thesis using edges by (cases m; cases n) simp
qed

interpretation region_overwrites: overwritten region_map_ok region_map_within region_map_at region_map_update
proof unfold_locales
  fix m u :: "'a region_map"
  assume "region_map_ok m" "region_map_ok u" "region_map_within u m"
  from region_map_update_at [OF this]
  show "\<exists>m'. region_map_update m u = Some m' \<and> region_map_ok m' \<and>
      (\<forall>w. region_map_within w m' \<longleftrightarrow> region_map_within w m) \<and> region_map_at m' = region_map_at m ++ region_map_at u"
    by (auto simp: region_map_within_def rm_within_def)
next
  fix s t :: "'a region_map"
  assume "region_map_ok s" "region_map_ok t" and w: "\<And>w. region_map_within w s \<longleftrightarrow> region_map_within w t"
    and at: "region_map_at s = region_map_at t"
  have "region_map_within s t" "region_map_within t s"
    using w [of s] w [of t] by (simp_all add: region_map_within_def rm_within_def)
  then show "s = t"
    using \<open>region_map_ok s\<close> \<open>region_map_ok t\<close> at
    by (intro region_map_canonical) (auto simp: region_map_within_def rm_within_def)
qed

subsection \<open>Homogeneous regions\<close>

definition in_region :: "hash_region \<Rightarrow> right_bound \<times> u64 \<Rightarrow> bool" where
  "in_region r p \<longleftrightarrow>
     Bound (kr_left (hr_inner r)) \<le> fst p \<and> fst p < kr_right (hr_inner r) \<and> hr_beg r \<le> snd p \<and> snd p < hr_end r"

definition region_proper :: "hash_region \<Rightarrow> bool" where
  "region_proper r \<longleftrightarrow> Bound (kr_left (hr_inner r)) \<le> kr_right (hr_inner r) \<and> hr_beg r \<le> hr_end r"

lemma hash_region_ok_proper: "hash_region_ok r \<Longrightarrow> region_proper r"
  by (auto simp: hash_region_ok_def region_proper_def hash_region_empty_def key_range_empty_def key_range_ok_def
      split: right_bound.splits)

lemma region_map_of_ok: "region_proper r \<Longrightarrow> region_map_ok (region_map_of r v)"
  by (auto simp: region_proper_def region_map_ok_def region_map_of_def slices_ok_def slice_ok_def rm_ok_of rm_at_of
      split: if_splits)

lemma region_map_of_at: "region_map_at (region_map_of r v) p = (if in_region r p then Some v else None)"
  by (auto simp: region_map_at_def region_map_of_def inner_at_def rm_at_of in_region_def)

lemma rm_visit_of: "l < r \<Longrightarrow> rm_visit (range_map_of l r v) l r = Some [(l, r, v)]"
  by (auto simp: rm_visit_def range_map_of_def omap_upper_bound_def)

lemma region_map_update_value_eq:
  assumes "region_proper r"
  shows "region_map_update_value r v m = region_map_update m (region_map_of r v)"
proof (cases "Bound (kr_left (hr_inner r)) = kr_right (hr_inner r)")
  case True
  then show ?thesis
    by (simp add: region_map_update_value_def region_map_update_def region_map_of_def visit_mutating_def
        rm_visit_mutable_def rm_visit_def left_edge_def)
next
  case False
  then have "Bound (kr_left (hr_inner r)) < kr_right (hr_inner r)" using assms by (auto simp: region_proper_def)
  then show ?thesis
    by (simp add: region_map_update_value_def region_map_update_def region_map_of_def visit_mutating_def
        rm_visit_of left_edge_def rm_update_value_def)
qed


lemma region_map_of_within:
  assumes "hash_region_ok d" and "hash_region_ok r" and "region_points r \<noteq> {}" and "region_points r \<subseteq> region_points d"
  shows "region_map_within (region_map_of r v) (region_map_of d v0)"
proof -
  have "region_is_superset d r" "\<not> region_is_empty r"
    using hash.superset_iff [OF assms(1,2)] hash.empty_iff [OF assms(2)] assms(3,4) by auto
  then have "hr_beg d \<le> hr_beg r" "hr_end r \<le> hr_end d" "kr_left (hr_inner d) \<le> kr_left (hr_inner r)"
    "kr_right (hr_inner r) \<le> kr_right (hr_inner d)"
    by (auto simp: region_is_superset_def key_range_is_superset_def region_is_empty_def not_less split: if_splits)
  then show ?thesis by (simp add: region_map_within_def rm_within_def region_map_of_def)
qed

lemma in_region_iff: "in_region r (Bound k, h) \<longleftrightarrow> region_contains_key_with_precomputed_hash r k h"
  by (auto simp: in_region_def region_contains_key_with_precomputed_hash_def contains_key_def
      split: right_bound.splits)

lemma foldl_map_add_last:
  assumes "i < length ms" and "(ms ! i) p = Some v" and "\<And>j. i < j \<Longrightarrow> j < length ms \<Longrightarrow> (ms ! j) p = None"
  shows "foldl (++) f ms p = Some v"
  using assms
proof (induction ms rule: rev_induct)
  case (snoc m ms)
  show ?case
  proof (cases "i = length ms")
    case True
    then show ?thesis using snoc.prems(2) by (simp add: map_add_Some_iff)
  next
    case False
    then have i: "i < length ms" using snoc.prems(1) by simp
    then have "m p = None" using snoc.prems(3) [of "length ms"] by simp
    moreover have "foldl (++) f ms p = Some v"
    proof (rule snoc.IH [OF i])
      show "(ms ! i) p = Some v" using snoc.prems(2) i by (simp add: nth_append)
      show "(ms ! j) p = None" if "i < j" "j < length ms" for j
        using snoc.prems(3) [OF that(1)] that(2) by (simp add: nth_append)
    qed
    ultimately show ?thesis by (simp add: map_add_Some_iff)
  qed
qed simp

lemma rm_lookup_at: "rm_at m e = Some v \<Longrightarrow> rm_lookup m e = Some v"
  by (auto simp: rm_at_def rm_lookup_def zval_def split: if_splits)

lemma region_map_lookup_at:
  "region_map_at m (Bound key, hash_region_hasher key) = Some v \<Longrightarrow> region_map_lookup m key = Some v"
  by (auto simp: region_map_at_def inner_at_def region_map_lookup_def bind_eq_Some_conv dest!: rm_lookup_at)

lemma from_unordered_fragments_at:
  assumes len: "length vals = length regions" "length regions \<le> 2 ^ 14"
    and regions: "\<And>r. r \<in> set regions \<Longrightarrow> hash_region_ok r \<and> region_points r \<noteq> {}"
    and join: "region_join regions = Some (REGION_JOIN_OK domain)"
  shows "\<exists>m. from_unordered_fragments v0 regions vals = Some m \<and> region_map_ok m \<and>
    (\<forall>i < length regions. \<forall>k h. (h, k) \<in> region_points (regions ! i) \<longrightarrow>
      region_map_at m (Bound k, h) = Some (vals ! i))"
proof -
  let ?us = "map (\<lambda>i. region_map_of (regions ! i) (vals ! i)) [0..<length regions]"
  have "join_reports region_points hash_region_ok regions (REGION_JOIN_OK domain)"
    using hash.join_reports [OF len(2), of] regions join by auto
  then have domain: "hash_region_ok domain" "region_points domain = (\<Union>p \<in> set regions. region_points p)"
    "disjoint_pieces region_points regions"
    by (simp_all add: join_reports_def)
  have updates: "fold_opt (\<lambda>i m. region_map_update_value (regions ! i) (vals ! i) m) [0..<length regions] m0 =
      fold_opt (\<lambda>u m. region_map_update m u) ?us m0" for m0
    unfolding fold_opt_map
    using regions by (intro fold_opt_cong region_map_update_value_eq hash_region_ok_proper) auto
  have patches: "region_map_ok u \<and> region_map_within u (region_map_of domain v0)" if "u \<in> set ?us" for u
  proof -
    obtain i where i: "i < length regions" "u = region_map_of (regions ! i) (vals ! i)" using \<open>u \<in> set ?us\<close> by auto
    then have r: "regions ! i \<in> set regions" by simp
    then have "region_points (regions ! i) \<subseteq> region_points domain" using domain(2) by blast
    then show ?thesis
      using i(2) regions [OF r] region_map_of_within [OF domain(1), of "regions ! i"]
      by (auto intro: region_map_of_ok hash_region_ok_proper)
  qed
  from region_overwrites.puts_at [OF region_map_of_ok [OF hash_region_ok_proper [OF domain(1)]], of ?us, OF patches]
  obtain m where "fold_opt (\<lambda>u m. region_map_update m u) ?us (region_map_of domain v0) = Some m"
    and m': "region_map_ok m"
      "region_map_at m = foldl (++) (region_map_at (region_map_of domain v0)) (map region_map_at ?us)"
    by blast
  then have m: "from_unordered_fragments v0 regions vals = Some m"
    using join by (simp add: from_unordered_fragments_def updates)
  have "region_map_at m (Bound k, h) = Some (vals ! i)"
    if i: "i < length regions" and p: "(h, k) \<in> region_points (regions ! i)" for i k h
    unfolding m'(2)
  proof (rule foldl_map_add_last)
    have mem: "in_region r (Bound k, h) \<longleftrightarrow> (h, k) \<in> region_points r" for r
      using p by (auto simp: in_region_iff region_points_def key_set_def region_contains_key_with_precomputed_hash_def)
    show "i < length (map region_map_at ?us)" using i by simp
    show "(map region_map_at ?us ! i) (Bound k, h) = Some (vals ! i)"
      using i p mem by (simp add: region_map_of_at)
    show "(map region_map_at ?us ! j) (Bound k, h) = None" if "i < j" "j < length (map region_map_at ?us)" for j
    proof -
      have "region_points (regions ! i) \<inter> region_points (regions ! j) = {}"
        using domain(3) that by (simp add: disjoint_pieces_def sorted_wrt_iff_nth_less)
      then have "\<not> in_region (regions ! j) (Bound k, h)" using p mem by blast
      then show ?thesis using that by (simp add: region_map_of_at)
    qed
  qed
  with m m'(1) show ?thesis by blast
qed

subsection \<open>Deriving region maps\<close>

definition region_inside :: "hash_region \<Rightarrow> 'v region_map \<Rightarrow> bool" where
  "region_inside r m \<longleftrightarrow> region_proper r \<and> region_map_within (region_map_of r undefined) m"

lemma region_inside_iff:
  "region_inside r m \<longleftrightarrow>
     rm_left (rgm_inner m) \<le> Bound (kr_left (hr_inner r)) \<and>
     Bound (kr_left (hr_inner r)) \<le> kr_right (hr_inner r) \<and> kr_right (hr_inner r) \<le> right_edge (rgm_inner m) \<and>
     rgm_hash_beg m \<le> hr_beg r \<and> hr_beg r \<le> hr_end r \<and> hr_end r \<le> rgm_hash_end m"
  by (auto simp: region_inside_def region_proper_def region_map_within_def rm_within_def region_map_of_def)

lemma region_map_map_at:
  assumes m: "region_map_ok m" and r: "region_inside region m"
    and cb: "\<And>p v. in_region region p \<Longrightarrow> region_map_at m p = Some v \<Longrightarrow> cb v \<noteq> None"
  shows "\<exists>m'. region_map_map cb m region = Some m' \<and> region_map_ok m' \<and>
    rm_left (rgm_inner m') = Bound (kr_left (hr_inner region)) \<and> right_edge (rgm_inner m') = kr_right (hr_inner region) \<and>
    rgm_hash_beg m' = hr_beg region \<and> rgm_hash_end m' = hr_end region \<and>
    (\<forall>p. region_map_at m' p = (if in_region region p then Option.bind (region_map_at m p) cb else None))"
proof -
  let ?m = "rgm_inner m" and ?l = "Bound (kr_left (hr_inner region))" and ?r = "kr_right (hr_inner region)"
  let ?b = "hr_beg region" and ?e = "hr_end region"
  have ms: "slices_ok (rgm_hash_beg m) (rgm_hash_end m) ?m" using m by (simp add: region_map_ok_def)
  note edges = r [unfolded region_inside_iff]
  have slice: "\<exists>v'. rm_map cb v ?b ?e = Some v' \<and> slice_ok ?b ?e v' \<and>
      (\<forall>h. rm_at v' h = (if ?b \<le> h \<and> h < ?e then Option.bind (rm_at v h) cb else None))"
    if k: "?l \<le> k" "k < ?r" and v: "rm_at ?m k = Some v" for k v
  proof -
    have ok: "rm_ok v" "rm_left v \<le> ?b" "?b \<le> ?e" "?e \<le> right_edge v"
      using slice_okD [OF ms v] edges by (simp_all add: slice_ok_def)
    have "cb w \<noteq> None" if "?b \<le> h" "h < ?e" "rm_at v h = Some w" for h w
      using cb [of "(k, h)" w] k v that by (simp add: in_region_def region_map_at_def inner_at_def)
    then show ?thesis using rm_map_at [OF ok, of cb] by (auto simp: slice_ok_def)
  qed
  have ok: "rm_ok ?m" "rm_left ?m \<le> ?l" "?l \<le> ?r" "?r \<le> right_edge ?m"
    using slices_ok_rm_ok [OF ms] edges by simp_all
  obtain m' where m': "rm_map (\<lambda>slice. rm_map cb slice ?b ?e) ?m ?l ?r = Some m'" "rm_ok m'" "rm_left m' = ?l"
    "right_edge m' = ?r"
    "\<And>k. rm_at m' k = (if ?l \<le> k \<and> k < ?r then Option.bind (rm_at ?m k) (\<lambda>slice. rm_map cb slice ?b ?e) else None)"
    using rm_map_at [OF ok, where cb = "\<lambda>slice. rm_map cb slice ?b ?e"] slice by (metis option.discI)
  have cell: "(if ?l \<le> k \<and> k < ?r
      then \<exists>v v'. rm_at ?m k = Some v \<and> rm_at m' k = Some v' \<and> slice_ok ?b ?e v' \<and>
        (\<forall>h. rm_at v' h = (if ?b \<le> h \<and> h < ?e then Option.bind (rm_at v h) cb else None))
      else rm_at m' k = None)" for k
  proof (cases "?l \<le> k \<and> k < ?r")
    case True
    then obtain v where v: "rm_at ?m k = Some v" using rm_at_dom [OF ok(1), of k] ok by auto
    then show ?thesis using True slice [OF _ _ v] m'(5) [of k] by auto
  qed (use m'(5) [of k] in auto)
  have "slices_ok ?b ?e m'"
    unfolding slices_ok_def
  proof (intro conjI allI impI)
    fix k v' assume "rm_at m' k = Some v'"
    then show "slice_ok ?b ?e v'" using cell [of k] by (auto split: if_splits)
  qed (rule m'(2))
  moreover have "inner_at m' p = (if in_region region p then Option.bind (inner_at ?m p) cb else None)" for p
    using cell [of "fst p"] by (auto simp: inner_at_def in_region_def split: if_splits)
  ultimately show ?thesis
    using m' edges by (auto simp: region_map_map_def region_map_ok_def region_map_at_def)
qed

lemma region_map_mask_as_map: "region_map_mask m r = region_map_map Some m r"
  by (simp add: region_map_mask_def region_map_map_def rm_mask_as_map)


subsection \<open>Regions split by a callback\<close>

text \<open>\<open>tile_ok l r b e n\<close>: \<open>n\<close> has the domain the callback of \<open>map_multi()\<close> was asked to fill.\<close>

definition tile_ok :: "right_bound \<Rightarrow> right_bound \<Rightarrow> u64 \<Rightarrow> u64 \<Rightarrow> 'v region_map \<Rightarrow> bool" where
  "tile_ok l r b e n \<longleftrightarrow>
     slices_ok b e (rgm_inner n) \<and> rm_left (rgm_inner n) = l \<and> right_edge (rgm_inner n) = r"

lemma extend_slices:
  assumes res: "slices_ok b0 b res" "rm_left res = l" "right_edge res = r" and lr: "l \<le> r"
    and n: "tile_ok l r b e n"
  shows "\<exists>res'. visit_mutating (\<lambda>new cur. extend_right cur new) (rgm_inner n) l r res = Some res' \<and>
    slices_ok b0 e res' \<and> rm_left res' = l \<and> right_edge res' = r \<and>
    (\<forall>k h. l \<le> k \<and> k < r \<longrightarrow> inner_at res' (k, h) = (if h < b then inner_at res (k, h) else inner_at (rgm_inner n) (k, h)))"
proof -
  have ns: "slices_ok b e (rgm_inner n)" "rm_left (rgm_inner n) = l" "right_edge (rgm_inner n) = r"
    using n by (simp_all add: tile_ok_def)
  note ok = slices_ok_rm_ok [OF res(1)] slices_ok_rm_ok [OF ns(1)]
  have step: "\<exists>v'. extend_right v w = Some v' \<and> slice_ok b0 e v' \<and>
      (\<forall>h. rm_at v' h = (if h < b then rm_at v h else rm_at w h))"
    if "rm_at (rgm_inner n) k = Some w" "rm_at res k = Some v" for k w v
  proof -
    have "slice_ok b0 b v" "slice_ok b e w" using slice_okD [OF res(1) that(2)] slice_okD [OF ns(1) that(1)] .
    then show ?thesis using extend_right_at [of v w] by (auto simp: slice_ok_def)
  qed
  have e: "rm_left (rgm_inner n) \<le> l" "r \<le> right_edge (rgm_inner n)" "rm_left res \<le> l" "r \<le> right_edge res"
    using ns(2,3) res(2,3) by simp_all
  have defined: "extend_right v w \<noteq> None" if "rm_at (rgm_inner n) k = Some w" "rm_at res k = Some v" for k w v
    using step [OF that] by auto
  obtain res' where res': "visit_mutating (\<lambda>new cur. extend_right cur new) (rgm_inner n) l r res = Some res'"
    "rm_ok res'" "rm_left res' = l" "right_edge res' = r"
    "\<And>k. rm_at res' k = (if l \<le> k \<and> k < r
        then do { w \<leftarrow> rm_at (rgm_inner n) k; v \<leftarrow> rm_at res k; extend_right v w } else rm_at res k)"
    using visit_mutating_at [OF ok(2) e(1) lr e(2) ok(1) e(3,4), where cb = "\<lambda>new cur. extend_right cur new"]
      defined res(2,3) by auto
  have cell: "\<exists>w v v'. rm_at (rgm_inner n) k = Some w \<and> rm_at res k = Some v \<and> rm_at res' k = Some v' \<and>
      slice_ok b0 e v' \<and> (\<forall>h. rm_at v' h = (if h < b then rm_at v h else rm_at w h))"
    if k: "l \<le> k" "k < r" for k
  proof -
    obtain w v where wv: "rm_at (rgm_inner n) k = Some w" "rm_at res k = Some v"
      using k ns(2,3) res(2,3) rm_at_dom [OF ok(1), of k] rm_at_dom [OF ok(2), of k] by auto
    then show ?thesis using step [OF wv] res'(5) [of k] k by auto
  qed
  have "slices_ok b0 e res'"
    unfolding slices_ok_def
  proof (intro conjI allI impI)
    fix k v' assume v': "rm_at res' k = Some v'"
    then have "l \<le> k" "k < r" using rm_at_dom [OF res'(2), of k] res'(3,4) by auto
    then show "slice_ok b0 e v'" using cell [of k] v' by auto
  qed (rule res'(2))
  moreover have "inner_at res' (k, h) = (if h < b then inner_at res (k, h) else inner_at (rgm_inner n) (k, h))"
    if "l \<le> k" "k < r" for k h
    using cell [OF that] by (auto simp: inner_at_def)
  ultimately show ?thesis using res'(1,3,4) by blast
qed

lemma fold_extend_slices:
  assumes "tiles b e ps" and "slices_ok b0 b res" "rm_left res = l" "right_edge res = r" "l \<le> r"
    and "\<And>a c v. (a, c, v) \<in> set ps \<Longrightarrow> \<exists>n. cb a c v = Some n \<and> tile_ok l r a c n"
  shows "\<exists>res'. fold_opt (\<lambda>(a, c, v) res.
        do { n \<leftarrow> cb a c v; visit_mutating (\<lambda>new cur. extend_right cur new) (rgm_inner n) l r res }) ps res = Some res' \<and>
    slices_ok b0 e res' \<and> rm_left res' = l \<and> right_edge res' = r \<and>
    (\<forall>k h. l \<le> k \<and> k < r \<and> h < b \<longrightarrow> inner_at res' (k, h) = inner_at res (k, h)) \<and>
    (\<forall>(a, c, v) \<in> set ps. \<forall>n. cb a c v = Some n \<longrightarrow>
      (\<forall>k h. l \<le> k \<and> k < r \<and> a \<le> h \<and> h < c \<longrightarrow> inner_at res' (k, h) = inner_at (rgm_inner n) (k, h)))"
  using assms
proof (induction b e ps arbitrary: res rule: tiles.induct)
  case (1 b e)
  then show ?case by simp
next
  case (2 b e a c v ps)
  have t: "a = b" "b < c" "tiles c e ps" using "2.prems"(1) by auto
  obtain n where n: "cb a c v = Some n" "tile_ok l r b c n" using "2.prems"(6) [of a c v] t(1) by auto
  obtain res1 where res1:
    "visit_mutating (\<lambda>new cur. extend_right cur new) (rgm_inner n) l r res = Some res1"
    "slices_ok b0 c res1" "rm_left res1 = l" "right_edge res1 = r"
    "\<And>k h. l \<le> k \<Longrightarrow> k < r \<Longrightarrow> inner_at res1 (k, h) = (if h < b then inner_at res (k, h) else inner_at (rgm_inner n) (k, h))"
    using extend_slices [OF "2.prems"(2-5) n(2)] by blast
  have rest: "\<exists>n. cb a c v = Some n \<and> tile_ok l r a c n" if "(a, c, v) \<in> set ps" for a c v
    using "2.prems"(6) [of a c v] that by simp
  from "2.IH" [OF t(3) res1(2-4) "2.prems"(5) rest]
  obtain res' where res': "fold_opt (\<lambda>(a, c, v) res.
        do { n \<leftarrow> cb a c v; visit_mutating (\<lambda>new cur. extend_right cur new) (rgm_inner n) l r res }) ps res1 = Some res'"
    "slices_ok b0 e res'" "rm_left res' = l" "right_edge res' = r"
    "\<And>k h. l \<le> k \<Longrightarrow> k < r \<Longrightarrow> h < c \<Longrightarrow> inner_at res' (k, h) = inner_at res1 (k, h)"
    "\<And>a c v n k h. (a, c, v) \<in> set ps \<Longrightarrow> cb a c v = Some n \<Longrightarrow> l \<le> k \<Longrightarrow> k < r \<Longrightarrow> a \<le> h \<Longrightarrow> h < c \<Longrightarrow>
      inner_at res' (k, h) = inner_at (rgm_inner n) (k, h)"
    by blast
  have first: "inner_at res' (k, h) = inner_at (rgm_inner n) (k, h)" if "l \<le> k" "k < r" "b \<le> h" "h < c" for k h
    using res'(5) [OF that(1,2,4)] res1(5) [OF that(1,2), of h] that(3) by auto
  have before: "inner_at res' (k, h) = inner_at res (k, h)" if "l \<le> k" "k < r" "h < b" for k h
    using res'(5) [OF that(1,2), of h] res1(5) [OF that(1,2), of h] that(3) t(2) by auto
  have all: "inner_at res' (k, h) = inner_at (rgm_inner n') (k, h)"
    if "(a', c', v') \<in> set ((a, c, v) # ps)" "cb a' c' v' = Some n'" "l \<le> k" "k < r" "a' \<le> h" "h < c'" for a' c' v' n' k h
  proof (cases "(a', c', v') \<in> set ps")
    case True
    then show ?thesis using res'(6) that by blast
  next
    case False
    then have "a' = b" "c' = c" "n' = n" using that(1,2) n(1) t(1) by auto
    then show ?thesis using first that by simp
  qed
  have "fold_opt (\<lambda>(a, c, v) res.
        do { n \<leftarrow> cb a c v; visit_mutating (\<lambda>new cur. extend_right cur new) (rgm_inner n) l r res }) ((a, c, v) # ps) res = Some res'"
    using n(1) res1(1) res'(1) by simp
  moreover have "\<forall>(a, c, v) \<in> set ((a, c, v) # ps). \<forall>n. cb a c v = Some n \<longrightarrow>
      (\<forall>k h. l \<le> k \<and> k < r \<and> a \<le> h \<and> h < c \<longrightarrow> inner_at res' (k, h) = inner_at (rgm_inner n) (k, h))"
    using all by blast
  ultimately show ?case using res'(2-4) before by blast
qed


definition sub_region :: "right_bound \<Rightarrow> right_bound \<Rightarrow> u64 \<Rightarrow> u64 \<Rightarrow> hash_region" where
  "sub_region l r b e = \<lparr>hr_beg = b, hr_end = e, hr_inner = \<lparr>kr_left = rb_key l, kr_right = r\<rparr>\<rparr>"

lemma piece_region_eq:
  assumes "l < r" and "b < e"
  shows "piece_region l r b e = Some (sub_region l r b e)"
  using assms
  by (cases l) (auto simp: piece_region_def edge_key_def hash_region_make_def sub_region_def key_range_is_empty_def
      split: right_bound.splits)

lemma in_sub_region:
  "l < r \<Longrightarrow> in_region (sub_region l r b e) p \<longleftrightarrow> l \<le> fst p \<and> fst p < r \<and> b \<le> snd p \<and> snd p < e"
  by (cases l) (auto simp: in_region_def sub_region_def)

lemma map_multi_cell_at:
  assumes lr: "l < r" and hrm: "slice_ok hb he hrm" "hb \<le> hr_beg region" "hr_beg region \<le> hr_end region" "hr_end region \<le> he"
    and cb: "\<And>c d v. hr_beg region \<le> c \<Longrightarrow> c < d \<Longrightarrow> d \<le> hr_end region \<Longrightarrow>
      (\<And>h. c \<le> h \<Longrightarrow> h < d \<Longrightarrow> rm_at hrm h = Some v) \<Longrightarrow>
      \<exists>n. cb (sub_region l r c d) v = Some n \<and> tile_ok l r c d n"
  shows "\<exists>f. map_multi_cell cb region l r hrm = Some f \<and> slices_ok (hr_beg region) (hr_end region) f \<and>
    rm_left f = l \<and> right_edge f = r \<and>
    (\<forall>k h. l \<le> k \<and> k < r \<and> hr_beg region \<le> h \<and> h < hr_end region \<longrightarrow>
      (\<exists>c d v n. c \<le> h \<and> h < d \<and> rm_at hrm h = Some v \<and> cb (sub_region l r c d) v = Some n \<and>
        inner_at f (k, h) = region_map_at n (k, h)))"
proof -
  let ?b = "hr_beg region" and ?e = "hr_end region"
  have hrm': "rm_ok hrm" "rm_left hrm \<le> ?b" "?e \<le> right_edge hrm" using hrm by (simp_all add: slice_ok_def)
  obtain ps where ps: "rm_visit hrm ?b ?e = Some ps" "tiles ?b ?e ps"
    "\<And>a b v h. (a, b, v) \<in> set ps \<Longrightarrow> a \<le> h \<Longrightarrow> h < b \<Longrightarrow> rm_at hrm h = Some v"
    using rm_visit_tiles [OF hrm'(1,2) hrm(3) hrm'(3)] by blast
  define cb' where "cb' a c v = do { reg \<leftarrow> piece_region l r a c; cb reg v }" for a c v
  have cb': "cb' a c v = cb (sub_region l r a c) v" "\<exists>n. cb' a c v = Some n \<and> tile_ok l r a c n"
    if "(a, c, v) \<in> set ps" for a c v
  proof -
    have ac: "?b \<le> a" "a < c" "c \<le> ?e" using tiles_bounds [OF ps(2) that] by auto
    show eq: "cb' a c v = cb (sub_region l r a c) v" using lr ac by (simp add: cb'_def piece_region_eq)
    show "\<exists>n. cb' a c v = Some n \<and> tile_ok l r a c n"
      unfolding eq by (rule cb [OF ac]) (rule ps(3) [OF that])
  qed
  let ?init = "range_map_of l r (range_map_point ?b) :: (right_bound, (u64, 'b) range_map) range_map"
  have init: "slices_ok ?b ?b ?init"
    using lr by (auto simp: slices_ok_def rm_ok_of rm_at_of slice_ok_def split: if_splits)
  have le: "l \<le> r" using lr by simp
  obtain f where f: "fold_opt (\<lambda>(a, c, v) res.
        do { n \<leftarrow> cb' a c v; visit_mutating (\<lambda>new cur. extend_right cur new) (rgm_inner n) l r res }) ps ?init = Some f"
    "slices_ok ?b ?e f" "rm_left f = l" "right_edge f = r"
    "\<And>a c v n k h. (a, c, v) \<in> set ps \<Longrightarrow> cb' a c v = Some n \<Longrightarrow> l \<le> k \<Longrightarrow> k < r \<Longrightarrow> a \<le> h \<Longrightarrow> h < c \<Longrightarrow>
      inner_at f (k, h) = inner_at (rgm_inner n) (k, h)"
    using fold_extend_slices [OF ps(2) init edges_simps(3) edges_simps(4) le, where cb = cb'] cb'(2) by blast
  have "map_multi_cell cb region l r hrm = Some f"
    using ps(1) f(1) by (simp add: map_multi_cell_def cb'_def)
  moreover have "\<exists>c d v n. c \<le> h \<and> h < d \<and> rm_at hrm h = Some v \<and> cb (sub_region l r c d) v = Some n \<and>
      inner_at f (k, h) = region_map_at n (k, h)"
    if k: "l \<le> k" "k < r" and h: "?b \<le> h" "h < ?e" for k h
  proof -
    obtain c d v where t: "(c, d, v) \<in> set ps" "c \<le> h" "h < d" using tiles_cover [OF ps(2) h] by blast
    obtain n where "cb' c d v = Some n" using cb'(2) [OF t(1)] by blast
    then show ?thesis
      using t ps(3) [OF t] f(5) [OF t(1) _ k t(2,3)] cb'(1) [OF t(1)] by (auto simp: region_map_at_def)
  qed
  ultimately show ?thesis using f(2-4) by blast
qed

definition fills :: "hash_region \<Rightarrow> 'v region_map \<Rightarrow> bool" where
  "fills reg n \<longleftrightarrow>
     tile_ok (Bound (kr_left (hr_inner reg))) (kr_right (hr_inner reg)) (hr_beg reg) (hr_end reg) n"

lemma fills_sub_region: "l < r \<Longrightarrow> fills (sub_region l r c d) n \<longleftrightarrow> tile_ok l r c d n"
  by (cases l) (auto simp: fills_def sub_region_def)

lemma region_map_map_multi_at:
  assumes m: "region_map_ok m" and r: "region_inside region m"
    and cb: "\<And>reg v. (\<And>p. in_region reg p \<Longrightarrow> in_region region p \<and> region_map_at m p = Some v) \<Longrightarrow>
      (\<exists>p. in_region reg p) \<Longrightarrow> \<exists>n. cb reg v = Some n \<and> fills reg n"
  shows "\<exists>m'. region_map_map_multi cb m region = Some m' \<and> region_map_ok m' \<and> fills region m' \<and>
    (\<forall>p. in_region region p \<longrightarrow> (\<exists>reg v n. in_region reg p \<and> region_map_at m p = Some v \<and>
      cb reg v = Some n \<and> region_map_at m' p = region_map_at n p))"
proof -
  let ?m = "rgm_inner m" and ?l = "Bound (kr_left (hr_inner region))" and ?r = "kr_right (hr_inner region)"
  let ?b = "hr_beg region" and ?e = "hr_end region"
  have ms: "slices_ok (rgm_hash_beg m) (rgm_hash_end m) ?m" using m by (simp add: region_map_ok_def)
  note edges = r [unfolded region_inside_iff]
  have cell: "\<exists>f. map_multi_cell cb region a b hrm = Some f \<and> slices_ok ?b ?e f \<and> rm_left f = a \<and> right_edge f = b \<and>
      (\<forall>k h. a \<le> k \<and> k < b \<and> ?b \<le> h \<and> h < ?e \<longrightarrow>
        (\<exists>c d v n. c \<le> h \<and> h < d \<and> rm_at hrm h = Some v \<and> cb (sub_region a b c d) v = Some n \<and>
          inner_at f (k, h) = region_map_at n (k, h)))"
    if ab: "?l \<le> a" "a < b" "b \<le> ?r" and at: "\<And>k. a \<le> k \<Longrightarrow> k < b \<Longrightarrow> rm_at ?m k = Some hrm" for a b hrm
  proof (rule map_multi_cell_at [OF ab(2)])
    show "slice_ok (rgm_hash_beg m) (rgm_hash_end m) hrm" using slice_okD [OF ms at [of a]] ab(2) by simp
    show "rgm_hash_beg m \<le> ?b" "?b \<le> ?e" "?e \<le> rgm_hash_end m" using edges by simp_all
    fix c d v assume c: "?b \<le> c" "c < d" "d \<le> ?e" and v: "\<And>h. c \<le> h \<Longrightarrow> h < d \<Longrightarrow> rm_at hrm h = Some v"
    have "\<exists>n. cb (sub_region a b c d) v = Some n \<and> fills (sub_region a b c d) n"
    proof (rule cb)
      fix p assume "in_region (sub_region a b c d) p"
      then have p: "a \<le> fst p" "fst p < b" "c \<le> snd p" "snd p < d" using ab(2) by (simp_all add: in_sub_region)
      then show "in_region region p \<and> region_map_at m p = Some v"
        using ab c at [OF p(1,2)] v [OF p(3,4)] by (auto simp: in_region_def region_map_at_def inner_at_def)
    next
      show "\<exists>p. in_region (sub_region a b c d) p" using ab(2) c by (intro exI [of _ "(a, c)"]) (simp add: in_sub_region)
    qed
    then show "\<exists>n. cb (sub_region a b c d) v = Some n \<and> tile_ok a b c d n" using ab(2) by (simp add: fills_sub_region)
  qed
  have ok: "rm_ok ?m" "rm_left ?m \<le> ?l" "?l \<le> ?r" "?r \<le> right_edge ?m"
    using slices_ok_rm_ok [OF ms] edges by simp_all
  have "\<exists>f. map_multi_cell cb region a b hrm = Some f \<and> rm_ok f \<and> rm_left f = a \<and> right_edge f = b"
    if "?l \<le> a" "a < b" "b \<le> ?r" and "\<And>k. a \<le> k \<Longrightarrow> k < b \<Longrightarrow> rm_at ?m k = Some hrm" for a b hrm
    using cell [OF that] slices_ok_rm_ok by blast
  note multi = rm_map_multi_tiles [OF ok, where cb = "map_multi_cell cb region", OF this]
  then obtain m' where m': "rm_map_multi (map_multi_cell cb region) ?m ?l ?r = Some m'" "rm_ok m'" "rm_left m' = ?l"
    "right_edge m' = ?r"
    "\<And>k. ?l \<le> k \<Longrightarrow> k < ?r \<Longrightarrow> \<exists>a b v f. ?l \<le> a \<and> a \<le> k \<and> k < b \<and> b \<le> ?r \<and>
        (\<forall>j. a \<le> j \<and> j < b \<longrightarrow> rm_at ?m j = Some v) \<and> map_multi_cell cb region a b v = Some f \<and> rm_at m' k = rm_at f k"
    by blast
  have pt: "\<exists>a b v f. a \<le> k \<and> k < b \<and> rm_at ?m k = Some v \<and> rm_at m' k = rm_at f k \<and> slices_ok ?b ?e f \<and>
      (\<forall>h. ?b \<le> h \<and> h < ?e \<longrightarrow> (\<exists>c d w n. c \<le> h \<and> h < d \<and> rm_at v h = Some w \<and> cb (sub_region a b c d) w = Some n \<and>
          inner_at f (k, h) = region_map_at n (k, h)))" if k: "?l \<le> k" "k < ?r" for k
  proof -
    obtain a b v f where a: "?l \<le> a" "a \<le> k" "k < b" "b \<le> ?r"
        "\<forall>j. a \<le> j \<and> j < b \<longrightarrow> rm_at ?m j = Some v" "map_multi_cell cb region a b v = Some f" "rm_at m' k = rm_at f k"
      using m'(5) [OF k] by blast
    then have "a < b" by simp
    from cell [OF a(1) this a(4), of v] a(5,6)
    have f: "slices_ok ?b ?e f" "\<forall>k h. a \<le> k \<and> k < b \<and> ?b \<le> h \<and> h < ?e \<longrightarrow>
        (\<exists>c d w n. c \<le> h \<and> h < d \<and> rm_at v h = Some w \<and> cb (sub_region a b c d) w = Some n \<and>
          inner_at f (k, h) = region_map_at n (k, h))"
      by auto
    show ?thesis
      using a(2,3,5,7) f by (intro exI [of _ a] exI [of _ b] exI [of _ v] exI [of _ f]) simp
  qed
  have "slices_ok ?b ?e m'"
    unfolding slices_ok_def
  proof (intro conjI allI impI)
    fix k v' assume v': "rm_at m' k = Some v'"
    then have "?l \<le> k" "k < ?r" using rm_at_dom [OF m'(2), of k] m'(3,4) by auto
    then obtain f where "rm_at m' k = rm_at f k" "slices_ok ?b ?e f" using pt [of k] by blast
    then show "slice_ok ?b ?e v'" using slice_okD [of ?b ?e f k v'] v' by simp
  qed (rule m'(2))
  moreover have "\<exists>reg v n. in_region reg p \<and> region_map_at m p = Some v \<and> cb reg v = Some n \<and> inner_at m' p = region_map_at n p"
    if p: "in_region region p" for p
  proof -
    obtain k h where kh: "p = (k, h)" by (cases p)
    have k: "?l \<le> k" "k < ?r" and h: "?b \<le> h" "h < ?e" using p by (auto simp: kh in_region_def)
    obtain a b v f where f: "a \<le> k" "k < b" "rm_at ?m k = Some v" "rm_at m' k = rm_at f k"
      "\<And>h. ?b \<le> h \<Longrightarrow> h < ?e \<Longrightarrow> \<exists>c d w n. c \<le> h \<and> h < d \<and> rm_at v h = Some w \<and> cb (sub_region a b c d) w = Some n \<and>
          inner_at f (k, h) = region_map_at n (k, h)"
      using pt [OF k] by blast
    obtain c d w n where n: "c \<le> h" "h < d" "rm_at v h = Some w" "cb (sub_region a b c d) w = Some n"
      "inner_at f (k, h) = region_map_at n (k, h)" using f(5) [OF h] by blast
    have "in_region (sub_region a b c d) p" using f(1,2) n(1,2) by (subst in_sub_region) (auto simp: kh)
    moreover have "region_map_at m p = Some w" using f(3) n(3) by (simp add: kh region_map_at_def inner_at_def)
    moreover have "inner_at m' p = region_map_at n p" using n(5) f(4) by (simp add: kh inner_at_def)
    ultimately show ?thesis using n(4) by blast
  qed
  ultimately show ?thesis
    using m' edges by (auto simp: region_map_map_multi_def region_map_ok_def region_map_at_def fills_def tile_ok_def)
qed


section \<open>Properties\<close>

text \<open>
  Property C15. \<open>region_map_t::update()\<close> with another map: for well-formed maps, the new values
  inside the domain, the call succeeds, the result is well-formed with the same domain, and it is
  the old map overridden by the new values. It refines the override of partial functions.
\<close>

theorem region_map_update_correct:
  assumes "region_map_ok m" and "region_map_ok new_values" and "region_map_within new_values m"
  shows "\<exists>m'. region_map_update m new_values = Some m' \<and> region_map_ok m' \<and>
    get_domain m' = get_domain m \<and> region_map_at m' = region_map_at m ++ region_map_at new_values"
proof -
  obtain m' where m': "region_map_update m new_values = Some m'" "region_map_ok m'"
    "rm_left (rgm_inner m') = rm_left (rgm_inner m)" "right_edge (rgm_inner m') = right_edge (rgm_inner m)"
    "rgm_hash_beg m' = rgm_hash_beg m" "rgm_hash_end m' = rgm_hash_end m"
    "region_map_at m' = region_map_at m ++ region_map_at new_values"
    using region_map_update_at [OF assms] by blast
  have empty: "empty_domain (rgm_inner n) \<longleftrightarrow> rm_left (rgm_inner n) = right_edge (rgm_inner n)"
    if "region_map_ok n" for n :: "'a region_map"
    using that by (auto simp: empty_domain_def right_edge_def region_map_ok_def slices_ok_def rm_ok_def)
  have "get_domain m' = get_domain m"
    using m'(3-6) empty [OF m'(2)] empty [OF assms(1)] by (simp add: get_domain_def left_edge_def)
  with m' show ?thesis by blast
qed

definition demo_region :: "u64 \<Rightarrow> u64 \<Rightarrow> u8 \<Rightarrow> hash_region" where
  "demo_region b e k = \<lparr>hr_beg = b, hr_end = e, hr_inner = \<lparr>kr_left = Store_key [k], kr_right = Unbounded\<rparr>\<rparr>"

theorem region_map_update_correct_witness:
  "\<exists>m'. region_map_update (region_map_of (demo_region 0 9 1) False) (region_map_of (demo_region 3 5 2) True) = Some m' \<and>
    region_map_ok m' \<and> get_domain m' = get_domain (region_map_of (demo_region 0 9 1) False) \<and>
    region_map_at m' =
      region_map_at (region_map_of (demo_region 0 9 1) False) ++ region_map_at (region_map_of (demo_region 3 5 2) True)"
proof (rule region_map_update_correct)
  show "region_map_ok (region_map_of (demo_region 0 9 1) False)" "region_map_ok (region_map_of (demo_region 3 5 2) True)"
    by (intro region_map_of_ok; simp add: region_proper_def demo_region_def)+
  have "Store_key [1] \<le> Store_key [2]" by code_simp
  then show "region_map_within (region_map_of (demo_region 3 5 2) True) (region_map_of (demo_region 0 9 1) False)"
    by (simp add: region_map_within_def rm_within_def region_map_of_def demo_region_def)
qed

text \<open>
  Property C25. \<open>from_unordered_fragments()\<close>: when \<open>region_join()\<close> accepts the regions, the map is
  built, and \<open>lookup()\<close> of a key returns the value that was given with the region the key belongs
  to, in whatever order the fragments came.
\<close>

theorem from_unordered_fragments_lookup:
  assumes "length vals = length regions" and "length regions \<le> 2 ^ 14"
    and "\<And>r. r \<in> set regions \<Longrightarrow> hash_region_ok r \<and> region_points r \<noteq> {}"
    and "region_join regions = Some (REGION_JOIN_OK domain)"
  shows "\<exists>m. from_unordered_fragments v0 regions vals = Some m \<and>
    (\<forall>i < length regions. \<forall>k. key_ok k \<and> region_contains_key (regions ! i) k \<longrightarrow>
      region_map_lookup m k = Some (vals ! i))"
proof -
  obtain m where m: "from_unordered_fragments v0 regions vals = Some m"
    "\<And>i k h. i < length regions \<Longrightarrow> (h, k) \<in> region_points (regions ! i) \<Longrightarrow> region_map_at m (Bound k, h) = Some (vals ! i)"
    using from_unordered_fragments_at [OF assms] by blast
  have "(hash_region_hasher k, k) \<in> region_points r" if "key_ok k" "region_contains_key r k" for k r
    using that by (auto simp: region_contains_key_def region_contains_key_with_precomputed_hash_def
        region_points_def key_set_def split: if_splits)
  with m show ?thesis by (blast intro: region_map_lookup_at)
qed

theorem from_unordered_fragments_lookup_witness:
  "\<exists>m. from_unordered_fragments False [example_high, example_low] [True, False] = Some m \<and>
    (\<forall>i < Suc (Suc 0). \<forall>k. key_ok k \<and> region_contains_key ([example_high, example_low] ! i) k \<longrightarrow>
      region_map_lookup m k = Some ([True, False] ! i))"
proof -
  have "hash_region_ok r \<and> region_points r \<noteq> {}" if "r \<in> set [example_high, example_low]" for r
    using that example_regions_ok by auto
  moreover have "region_join [example_high, example_low] = Some (REGION_JOIN_OK (example_low\<lparr>hr_end := 20\<rparr>))"
    by code_simp
  ultimately show ?thesis
    using from_unordered_fragments_lookup [of "[True, False]" "[example_high, example_low]"]
    by auto
qed

text \<open>
  \<open>map_multi()\<close>: when the callback answers every homogeneous sub-region it is asked
  about with a map of exactly that domain, the pieces are assembled into a map of the whole region,
  and at every point it holds what the callback answered there.
\<close>

theorem region_map_map_multi_correct:
  assumes "region_map_ok m" and "region_inside region m"
    and "\<And>reg v. (\<And>p. in_region reg p \<Longrightarrow> in_region region p \<and> region_map_at m p = Some v) \<Longrightarrow>
      (\<exists>p. in_region reg p) \<Longrightarrow> \<exists>n. cb reg v = Some n \<and> fills reg n"
  shows "\<exists>m'. region_map_map_multi cb m region = Some m' \<and> region_map_ok m' \<and> fills region m' \<and>
    (\<forall>p. in_region region p \<longrightarrow> (\<exists>reg v n. in_region reg p \<and> region_map_at m p = Some v \<and>
      cb reg v = Some n \<and> region_map_at m' p = region_map_at n p))"
  using assms by (rule region_map_map_multi_at)

text \<open>
  Copying a region out with \<open>mask()\<close> and writing it back with \<open>update()\<close> changes
  nothing: the result is the original map.
\<close>

theorem region_map_mask_update_roundtrip:
  assumes "region_map_ok m" and "region_inside region m"
  shows "\<exists>part. region_map_mask m region = Some part \<and> region_map_ok part \<and>
    region_map_update m part = Some m"
proof -
  obtain part where part: "region_map_mask m region = Some part" "region_map_ok part"
    "rm_left (rgm_inner part) = Bound (kr_left (hr_inner region))" "right_edge (rgm_inner part) = kr_right (hr_inner region)"
    "rgm_hash_beg part = hr_beg region" "rgm_hash_end part = hr_end region"
    "\<And>p. region_map_at part p = (if in_region region p then region_map_at m p else None)"
    using region_map_map_at [OF assms, where cb = Some] by (auto simp: region_map_mask_as_map)
  have "region_map_within part m"
    using assms(2) part(3-6) by (simp add: region_inside_iff region_map_within_def rm_within_def)
  from region_map_update_at [OF assms(1) part(2) this]
  obtain m' where m': "region_map_update m part = Some m'" "region_map_ok m'"
    "rm_left (rgm_inner m') = rm_left (rgm_inner m)" "right_edge (rgm_inner m') = right_edge (rgm_inner m)"
    "rgm_hash_beg m' = rgm_hash_beg m" "rgm_hash_end m' = rgm_hash_end m"
    "region_map_at m' = region_map_at m ++ region_map_at part"
    by blast
  have "region_map_at m ++ region_map_at part = region_map_at m"
    by (rule ext) (auto simp: map_add_def part(7) split: option.splits)
  then have "m' = m" using m' assms(1) by (intro region_map_canonical) simp_all
  then show ?thesis using part(1,2) m'(1) by simp
qed

end
