(* ===== verification/Cluster_Types.thy ===== *)
theory Cluster_Types
  imports Region_Map
begin

text \<open>
  The identifiers, versions and table configuration the clustering code shares:
  \<open>rpc/connectivity/server_id.hpp\<close>, \<open>timestamps.hpp\<close>, \<open>version_t\<close> of
  \<open>clustering/immediate_consistency/history.hpp\<close>, the shards of
  \<open>clustering/administration/tables/table_metadata\<close> and
  \<open>clustering/table_contract/cpu_sharding.cc\<close>. A \<open>std::set\<close> is a finite set, iterated in
  the order of its elements.
\<close>

section \<open>Servers\<close>

datatype server_id = Server_id (sid_uuid: uuid_u) (sid_proxy: bool)

text \<open>The order of \<open>server_id_t\<close>: proxies first, then by descending UUID.\<close>

instantiation server_id :: linorder
begin

definition less_server_id :: "server_id \<Rightarrow> server_id \<Rightarrow> bool" where
  "a < b \<longleftrightarrow> sid_proxy a \<and> \<not> sid_proxy b \<or> sid_proxy a = sid_proxy b \<and> sid_uuid b < sid_uuid a"

definition less_eq_server_id :: "server_id \<Rightarrow> server_id \<Rightarrow> bool" where
  "a \<le> b \<longleftrightarrow> a = b \<or> a < (b :: server_id)"

instance
proof
  fix a b c :: server_id
  show "a < b \<longleftrightarrow> a \<le> b \<and> \<not> b \<le> a"
    by (cases a; cases b) (auto simp: less_server_id_def less_eq_server_id_def)
  show "a \<le> a" by (simp add: less_eq_server_id_def)
  show "a \<le> b \<Longrightarrow> b \<le> c \<Longrightarrow> a \<le> c"
    by (cases a; cases b; cases c) (auto simp: less_server_id_def less_eq_server_id_def)
  show "a \<le> b \<Longrightarrow> b \<le> a \<Longrightarrow> a = b"
    by (cases a; cases b) (auto simp: less_server_id_def less_eq_server_id_def)
  show "a \<le> b \<or> b \<le> a"
    by (cases a; cases b) (auto simp: less_server_id_def less_eq_server_id_def)
qed

end

definition from_server_uuid :: "uuid_u \<Rightarrow> server_id" where
  "from_server_uuid u = Server_id u False"

definition from_proxy_uuid :: "uuid_u \<Rightarrow> server_id" where
  "from_proxy_uuid u = Server_id u True"

section \<open>Versions\<close>

type_synonym branch_id = uuid_u
type_synonym contract_id = uuid_u
type_synonym state_timestamp = u64

definition timestamp_zero :: state_timestamp where
  "timestamp_zero = 0"

definition timestamp_max :: state_timestamp where
  "timestamp_max = - 1"

definition timestamp_next :: "state_timestamp \<Rightarrow> state_timestamp" where
  "timestamp_next t = t + 1"

definition timestamp_pred :: "state_timestamp \<Rightarrow> state_timestamp" where
  "timestamp_pred t = t - 1"

definition count_changes :: "state_timestamp \<Rightarrow> state_timestamp \<Rightarrow> u64 option" where
  "count_changes t since = (if t \<ge> since then Some (t - since) else None)"

record version_t =
  v_branch :: branch_id
  v_timestamp :: state_timestamp

definition version_zero :: version_t where
  "version_zero = \<lparr>v_branch = nil_uuid, v_timestamp = timestamp_zero\<rparr>"

section \<open>Table configuration\<close>

record shard_t =
  sh_all_replicas :: "server_id set"
  sh_nonvoting_replicas :: "server_id set"
  sh_primary_replica :: server_id

definition voting_replicas :: "shard_t \<Rightarrow> server_id set" where
  "voting_replicas s = sh_all_replicas s - sh_nonvoting_replicas s"

text \<open>\<open>table_shard_scheme_t\<close> is its list of split points.\<close>

type_synonym shard_scheme = "store_key list"

definition num_shards :: "shard_scheme \<Rightarrow> nat" where
  "num_shards split_points = length split_points + 1"

definition get_shard_range :: "shard_scheme \<Rightarrow> nat \<Rightarrow> key_range option" where
  "get_shard_range split_points i =
     (if i < num_shards split_points then
        (let left = (if i = 0 then store_key_min else split_points ! (i - 1))
         in if i \<noteq> num_shards split_points - 1
            then key_range_init Closed_bound left Open_bound (split_points ! i)
            else key_range_init Closed_bound left None_bound store_key_min)
      else None)"

fun find_shard_loop :: "store_key \<Rightarrow> nat \<Rightarrow> shard_scheme \<Rightarrow> nat" where
  "find_shard_loop key ix [] = ix"
| "find_shard_loop key ix (p # ps) = (if key \<ge> p then find_shard_loop key (ix + 1) ps else ix)"

definition find_shard_for_key :: "shard_scheme \<Rightarrow> store_key \<Rightarrow> nat" where
  "find_shard_for_key split_points key = find_shard_loop key 0 split_points"

section \<open>CPU sharding\<close>

definition CPU_SHARDING_FACTOR :: nat where
  "CPU_SHARDING_FACTOR = 8"

definition CPU_SHARD_WIDTH :: u64 where
  "CPU_SHARD_WIDTH = HASH_REGION_HASH_SIZE div of_nat CPU_SHARDING_FACTOR"

definition cpu_sharding_subspace :: "int \<Rightarrow> hash_region option" where
  "cpu_sharding_subspace n =
     (if n \<ge> 0 \<and> n < int CPU_SHARDING_FACTOR then
        (let beg = CPU_SHARD_WIDTH * of_int n;
             end = (if n + 1 = int CPU_SHARDING_FACTOR then HASH_REGION_HASH_SIZE else beg + CPU_SHARD_WIDTH)
         in do { u \<leftarrow> key_range_universe; hash_region_make beg end u })
      else None)"

definition get_cpu_shard_number :: "hash_region \<Rightarrow> int option" where
  "get_cpu_shard_number region =
     (let n = uint (hr_beg region div CPU_SHARD_WIDTH)
      in if hr_beg region = of_int n * CPU_SHARD_WIDTH \<and>
            hr_end region =
              (if n + 1 = int CPU_SHARDING_FACTOR then HASH_REGION_HASH_SIZE else hr_beg region + CPU_SHARD_WIDTH)
         then Some n else None)"

definition get_cpu_shard_approx_number :: "hash_region \<Rightarrow> int" where
  "get_cpu_shard_approx_number region = uint (hr_beg region div CPU_SHARD_WIDTH)"

section \<open>Shards\<close>

text \<open>Every key is in the range of the shard that is found for it, and in no other.\<close>

definition split_points_ok :: "shard_scheme \<Rightarrow> bool" where
  "split_points_ok ps \<longleftrightarrow> (\<forall>p \<in> set ps. key_ok p \<and> store_key_min < p) \<and> sorted_wrt (<) ps"

lemma find_shard_loop_spec:
  assumes "sorted_wrt (<) ps"
  shows "find_shard_loop key ix ps = ix + length (takeWhile (\<lambda>p. p \<le> key) ps)"
  using assms by (induction key ix ps rule: find_shard_loop.induct) auto

lemma shard_range_eq:
  assumes "i < num_shards ps"
  shows "get_shard_range ps i =
    Some \<lparr>kr_left = (if i = 0 then store_key_min else ps ! (i - 1)),
          kr_right = (if i < length ps then Bound (ps ! i) else Unbounded)\<rparr>"
  using assms
  by (auto simp: get_shard_range_def num_shards_def key_range_init_def key_range_init_left_def
      key_range_init_right_def Let_def)

lemma takeWhile_boundary:
  assumes "sorted_wrt (<) (ps :: 'a::linorder list)" and "i \<le> length ps"
  shows "length (takeWhile (\<lambda>p. p \<le> key) ps) = i \<longleftrightarrow>
    (i = 0 \<or> ps ! (i - 1) \<le> key) \<and> (i < length ps \<longrightarrow> key < ps ! i)"
  using assms
proof (induction ps arbitrary: i)
  case (Cons p ps)
  show ?case
  proof (cases i)
    case 0
    then show ?thesis by auto
  next
    case (Suc j)
    have less: "p < ps ! k" if "k < length ps" for k using Cons.prems(1) that by simp
    have IH: "length (takeWhile (\<lambda>p. p \<le> key) ps) = j \<longleftrightarrow>
        (j = 0 \<or> ps ! (j - 1) \<le> key) \<and> (j < length ps \<longrightarrow> key < ps ! j)"
      using Cons Suc by simp
    show ?thesis
    proof (cases "p \<le> key")
      case True
      then show ?thesis using IH Suc by (cases j) auto
    next
      case False
      then have "\<not> (p # ps) ! (i - 1) \<le> key"
        using less [of "j - 1"] Suc Cons.prems(2) by (cases j) auto
      then show ?thesis using False Suc by auto
    qed
  qed
qed simp

lemma store_key_min_le: "store_key_min \<le> k"
  by (cases k) (auto simp: store_key_min_def less_eq_store_key_def key_compare_def sized_strcmp_def)

lemma shard_range_ordered:
  assumes "split_points_ok ps" and "i < num_shards ps"
  shows "\<exists>l r. get_shard_range ps i = Some \<lparr>kr_left = l, kr_right = r\<rparr> \<and> Bound l \<le> r"
proof -
  have "sorted_wrt (<) ps" using assms(1) by (simp add: split_points_ok_def)
  then have "ps ! (i - 1) < ps ! i" if "i < length ps" "i \<noteq> 0" using that by (simp add: sorted_wrt_nth_less)
  then show ?thesis using store_key_min_le less_imp_le by (auto simp: shard_range_eq [OF assms(2)])
qed

lemma find_shard_iff:
  assumes "split_points_ok ps" and "i < num_shards ps"
  shows "find_shard_for_key ps key = i \<longleftrightarrow>
    (\<exists>r. get_shard_range ps i = Some r \<and> contains_key r key)"
proof -
  have sorted: "sorted_wrt (<) ps" using assms(1) by (simp add: split_points_ok_def)
  have i: "i \<le> length ps" using assms(2) by (simp add: num_shards_def)
  show ?thesis
    using takeWhile_boundary [OF sorted i, of key] store_key_min_le [of key]
    by (auto simp: find_shard_for_key_def find_shard_loop_spec [OF sorted] shard_range_eq [OF assms(2)]
        contains_key_def)
qed

lemma find_shard_bound:
  assumes "split_points_ok ps"
  shows "find_shard_for_key ps key < num_shards ps"
proof -
  have "sorted_wrt (<) ps" using assms by (simp add: split_points_ok_def)
  then show ?thesis
    using length_takeWhile_le [of "\<lambda>p. p \<le> key" ps]
    by (simp add: find_shard_for_key_def find_shard_loop_spec num_shards_def)
qed

section \<open>CPU shards\<close>

definition cpu_shards :: "hash_region list" where
  "cpu_shards = map (\<lambda>n. the (cpu_sharding_subspace (int n))) [0..<CPU_SHARDING_FACTOR]"

lemma cpu_shards_defined:
  "list_all (\<lambda>n. case cpu_sharding_subspace (int n) of None \<Rightarrow> False
      | Some r \<Rightarrow> hash_region_ok r \<and> \<not> region_is_empty r \<and> get_cpu_shard_number r = Some (int n))
    [0..<CPU_SHARDING_FACTOR]"
  by code_simp

lemma cpu_shards_join: "map_option (\<lambda>res. Some res = map_option REGION_JOIN_OK hash_region_universe) (region_join cpu_shards) = Some True"
  by code_simp

lemma cpu_shard_facts:
  assumes "n < CPU_SHARDING_FACTOR"
  shows "cpu_sharding_subspace (int n) = Some (cpu_shards ! n)" and "hash_region_ok (cpu_shards ! n)"
    and "region_points (cpu_shards ! n) \<noteq> {}" and "get_cpu_shard_number (cpu_shards ! n) = Some (int n)"
proof -
  have "case cpu_sharding_subspace (int n) of None \<Rightarrow> False
      | Some r \<Rightarrow> hash_region_ok r \<and> \<not> region_is_empty r \<and> get_cpu_shard_number r = Some (int n)"
    using cpu_shards_defined assms by (auto simp: list_all_iff)
  then show "cpu_sharding_subspace (int n) = Some (cpu_shards ! n)" "hash_region_ok (cpu_shards ! n)"
    "region_points (cpu_shards ! n) \<noteq> {}" "get_cpu_shard_number (cpu_shards ! n) = Some (int n)"
    using assms by (auto simp: cpu_shards_def hash.empty_iff split: option.splits)
qed

lemma length_cpu_shards [simp]: "length cpu_shards = CPU_SHARDING_FACTOR"
  by (simp add: cpu_shards_def)

lemma hash_region_universe_eq:
  "hash_region_universe =
     Some \<lparr>hr_beg = 0, hr_end = HASH_REGION_HASH_SIZE, hr_inner = \<lparr>kr_left = store_key_min, kr_right = Unbounded\<rparr>\<rparr>"
  by (simp add: hash_region_universe_def hash_region_of_inner_def key_range_universe_def key_range_init_def
      key_range_init_left_def key_range_init_right_def key_range_is_empty_def)

lemma cpu_shards_cuts:
  "cuts region_points hash_region_ok (region_points (the hash_region_universe)) cpu_shards"
proof -
  let ?u = "the hash_region_universe"
  have ok: "hash_region_ok p \<and> region_points p \<noteq> {}" if p: "p \<in> set cpu_shards" for p
  proof -
    obtain n where "n < CPU_SHARDING_FACTOR" "p = cpu_shards ! n" using p by (auto simp: in_set_conv_nth)
    then show ?thesis using cpu_shard_facts by simp
  qed
  have join: "region_join cpu_shards = Some (REGION_JOIN_OK ?u)"
    using cpu_shards_join by (auto simp: hash_region_universe_eq)
  have "length cpu_shards \<le> 2 ^ 14" by (simp add: CPU_SHARDING_FACTOR_def)
  then have "join_reports region_points hash_region_ok cpu_shards (REGION_JOIN_OK ?u)"
    using hash.join_reports [of cpu_shards] ok join by auto
  then show ?thesis using ok by (auto simp: join_reports_def cuts_def)
qed

section \<open>Properties\<close>

text \<open>
  Property C30. Sharding: every key lies in the range of exactly one user shard, the one
  \<open>find_shard_for_key()\<close> returns, and in exactly one CPU shard; the number of a CPU shard can be
  recovered from its region.
\<close>

theorem shards_partition_keys:
  assumes "split_points_ok split_points" and "key_ok key"
  shows "(\<exists>!i. i < num_shards split_points \<and>
      (\<exists>r. get_shard_range split_points i = Some r \<and> contains_key r key)) \<and>
    find_shard_for_key split_points key < num_shards split_points \<and>
    (\<exists>r. get_shard_range split_points (find_shard_for_key split_points key) = Some r \<and> contains_key r key) \<and>
    (\<exists>!n. n < CPU_SHARDING_FACTOR \<and> (\<exists>r. cpu_sharding_subspace (int n) = Some r \<and> region_contains_key r key \<and>
      get_cpu_shard_number r = Some (int n)))"
proof (intro conjI)
  let ?i = "find_shard_for_key split_points key"
  show lt: "?i < num_shards split_points" by (rule find_shard_bound [OF assms(1)])
  then show "\<exists>r. get_shard_range split_points ?i = Some r \<and> contains_key r key"
    using find_shard_iff [OF assms(1) lt, of key] by blast
  then show "\<exists>!i. i < num_shards split_points \<and> (\<exists>r. get_shard_range split_points i = Some r \<and> contains_key r key)"
    using lt find_shard_iff [OF assms(1)] by (metis (no_types, lifting))
  let ?h = "hash_region_hasher key"
  have mem: "region_contains_key r key \<longleftrightarrow> (?h, key) \<in> region_points r" for r
    using assms(2) by (auto simp: region_contains_key_def region_contains_key_with_precomputed_hash_def
        region_points_def key_set_def)
  have "(?h, key) \<in> region_points (the hash_region_universe)"
    using hash_region_hasher_bound [of key] assms(2)
    by (simp add: hash_region_universe_eq region_points_def key_set_def contains_key_def store_key_min_le)
  then have "(?h, key) \<in> (\<Union>p \<in> set cpu_shards. region_points p)"
    using cpu_shards_cuts by (simp add: cuts_def)
  then obtain n where n: "n < CPU_SHARDING_FACTOR" "(?h, key) \<in> region_points (cpu_shards ! n)"
    by (auto simp: in_set_conv_nth)
  have unique: "j = n" if "j < CPU_SHARDING_FACTOR" "(?h, key) \<in> region_points (cpu_shards ! j)" for j
  proof (rule ccontr)
    have disj: "region_points (cpu_shards ! a) \<inter> region_points (cpu_shards ! b) = {}"
      if "a < b" "b < CPU_SHARDING_FACTOR" for a b
      using cpu_shards_cuts that by (simp add: cuts_def disjoint_pieces_def sorted_wrt_iff_nth_less)
    assume "j \<noteq> n"
    then show False using disj [of j n] disj [of n j] n that by (cases "j < n") auto
  qed
  show "\<exists>!n. n < CPU_SHARDING_FACTOR \<and> (\<exists>r. cpu_sharding_subspace (int n) = Some r \<and> region_contains_key r key \<and>
      get_cpu_shard_number r = Some (int n))"
  proof (rule ex1I [of _ n])
    show "n < CPU_SHARDING_FACTOR \<and> (\<exists>r. cpu_sharding_subspace (int n) = Some r \<and> region_contains_key r key \<and>
        get_cpu_shard_number r = Some (int n))"
      using n mem cpu_shard_facts(1,4) [OF n(1)] by blast
    fix j assume j: "j < CPU_SHARDING_FACTOR \<and> (\<exists>r. cpu_sharding_subspace (int j) = Some r \<and> region_contains_key r key \<and>
        get_cpu_shard_number r = Some (int j))"
    then show "j = n" using unique [of j] mem cpu_shard_facts(1) [of j] by (metis option.inject)
  qed
qed

theorem shards_partition_keys_witness:
  "(\<exists>!i. i < num_shards [Store_key [7]] \<and>
      (\<exists>r. get_shard_range [Store_key [7]] i = Some r \<and> contains_key r (Store_key [9]))) \<and>
    find_shard_for_key [Store_key [7]] (Store_key [9]) < num_shards [Store_key [7]] \<and>
    (\<exists>r. get_shard_range [Store_key [7]] (find_shard_for_key [Store_key [7]] (Store_key [9])) = Some r \<and>
      contains_key r (Store_key [9])) \<and>
    (\<exists>!n. n < CPU_SHARDING_FACTOR \<and> (\<exists>r. cpu_sharding_subspace (int n) = Some r \<and> region_contains_key r (Store_key [9]) \<and>
      get_cpu_shard_number r = Some (int n)))"
  by (rule shards_partition_keys) code_simp+

end
