(* ===== verification/Quorums.thy ===== *)
theory Quorums
  imports Rdb_Prelude
begin

text \<open>
  Majorities. The contract code and the Raft code both rely on one law: two quorums of the same
  electorate share a member.
\<close>

locale quorum_system =
  fixes quorum :: "'a set \<Rightarrow> bool"
  assumes overlap: "quorum A \<Longrightarrow> quorum B \<Longrightarrow> A \<inter> B \<noteq> {}"
begin

text \<open>A candidate that is at least as good as a quorum is at least as good as somebody of each quorum.\<close>

lemma dominates:
  assumes "quorum A" and "\<And>a. a \<in> A \<Longrightarrow> rank a \<le> (r :: 'r::order)" and "quorum B"
  shows "\<exists>b \<in> B. rank b \<le> r"
  using overlap [OF assms(1,3)] assms(2) by blast

text \<open>Voters that vote once cannot give two candidates a quorum.\<close>

lemma unique_winner:
  assumes "quorum A" and "quorum B" and "\<And>a. a \<in> A \<Longrightarrow> vote a = Some x" and "\<And>b. b \<in> B \<Longrightarrow> vote b = Some y"
  shows "x = y"
proof -
  obtain c where "c \<in> A" "c \<in> B" using overlap [OF assms(1,2)] by blast
  then show ?thesis using assms(3,4) by fastforce
qed

lemma quorum_nonempty: "quorum A \<Longrightarrow> A \<noteq> {}"
  using overlap by fastforce

end

definition majority :: "'a set \<Rightarrow> 'a set \<Rightarrow> bool" where
  "majority electorate A \<longleftrightarrow> finite electorate \<and> A \<subseteq> electorate \<and> card A > card electorate div 2"

lemma majority_overlap:
  assumes "majority V A" and "majority V B"
  shows "A \<inter> B \<noteq> {}"
proof
  assume disj: "A \<inter> B = {}"
  have fin: "finite V" "A \<subseteq> V" "B \<subseteq> V" using assms by (auto simp: majority_def)
  then have "finite A" "finite B" by (auto intro: finite_subset)
  then have "card A + card B = card (A \<union> B)" using disj by (simp add: card_Un_disjoint)
  also have "\<dots> \<le> card V" using fin by (intro card_mono) auto
  finally show False using assms by (auto simp: majority_def)
qed

interpretation maj: quorum_system "majority V" for V
  by unfold_locales (rule majority_overlap)

lemma majority_mono: "majority V A \<Longrightarrow> A \<subseteq> B \<Longrightarrow> B \<subseteq> V \<Longrightarrow> majority V B"
  by (auto simp: majority_def intro: order.strict_trans2 card_mono finite_subset)

lemma majority_self: "finite V \<Longrightarrow> V \<noteq> {} \<Longrightarrow> majority V V"
  using card_gt_0_iff [of V] by (simp add: majority_def)

end
