(* ===== verification/Contracts.thy ===== *)
theory Contracts
  imports Cluster_Types Quorums "HOL-Library.Product_Lexorder"
begin

text \<open>
  \<open>clustering/table_contract/contract_metadata.hpp\<close> and \<open>calculate_contract()\<close> of
  \<open>clustering/table_contract/coordinator/calculate_contracts.cc\<close>: how the coordinator of a table
  computes the next contract of a region from the current one, the user's configuration, the
  acknowledgements of the replicas and the connections it sees. Reading an empty \<open>optional\<close> is
  \<open>None\<close>, as is the failure of a \<open>guarantee\<close>.
\<close>

section \<open>Contracts and acknowledgements\<close>

record primary_t =
  p_server :: server_id
  p_hand_over :: "server_id option"

record contract_t =
  c_replicas :: "server_id set"
  c_voters :: "server_id set"
  c_temp_voters :: "server_id set option"
  c_primary :: "primary_t option"
  c_after_emergency_repair :: bool

definition is_voter :: "contract_t \<Rightarrow> server_id \<Rightarrow> bool" where
  "is_voter c s \<longleftrightarrow> s \<in> c_voters c \<or> (case c_temp_voters c of None \<Rightarrow> False | Some tv \<Rightarrow> s \<in> tv)"

definition contract_sanity_check :: "contract_t \<Rightarrow> bool" where
  "contract_sanity_check c \<longleftrightarrow>
     (case c_primary c of
        None \<Rightarrow> True
      | Some p \<Rightarrow>
          p_server p \<in> c_replicas c \<and>
          (case p_hand_over p of None \<Rightarrow> True | Some h \<Rightarrow> is_nil (sid_uuid h) \<or> h \<in> c_replicas c)) \<and>
     (\<forall>s \<in> c_voters c. s \<in> c_replicas c)"

datatype ack_state =
  Primary_need_branch | Primary_in_progress | Primary_ready |
  Secondary_need_primary | Secondary_backfilling | Secondary_streaming

record contract_ack_frag =
  fr_state :: ack_state
  fr_branch :: "branch_id option"
  fr_version :: "version_t option"
  fr_common_ancestor :: "state_timestamp option"

type_synonym ack_frags = "server_id \<Rightarrow> contract_ack_frag option"

text \<open>\<open>conn (x, y)\<close>: the connections map has a key for \<open>(x, y)\<close>.\<close>

type_synonym connections = "server_id \<times> server_id \<Rightarrow> bool"

definition acked :: "ack_frags \<Rightarrow> server_id \<Rightarrow> ack_state \<Rightarrow> bool" where
  "acked acks s st \<longleftrightarrow> (case acks s of None \<Rightarrow> False | Some a \<Rightarrow> fr_state a = st)"

definition invisible_to_majority_of_set :: "server_id \<Rightarrow> server_id set \<Rightarrow> connections \<Rightarrow> bool" where
  "invisible_to_majority_of_set target judges conn \<longleftrightarrow>
     (let count = card (Set.filter (\<lambda>s. conn (s, target) \<or> \<not> conn (s, s)) judges)
      in \<not> (count > card judges div 2))"

definition is_streaming :: "contract_t \<Rightarrow> ack_frags \<Rightarrow> server_id \<Rightarrow> bool" where
  "is_streaming old_c acks server =
     (case acks server of
        None \<Rightarrow> False
      | Some a \<Rightarrow>
          fr_state a = Secondary_streaming \<or>
          (case c_primary old_c of None \<Rightarrow> False | Some p \<Rightarrow> p_server p = server))"

section \<open>Changing the voters\<close>

text \<open>The servers to remove, those that do not stream first.\<close>

definition to_remove_list :: "contract_t \<Rightarrow> ack_frags \<Rightarrow> server_id set \<Rightarrow> server_id set \<Rightarrow> server_id list" where
  "to_remove_list old_c acks config_voters new_voters =
     fold (\<lambda>server to_remove.
         if server \<in> config_voters then to_remove
         else if is_streaming old_c acks server then to_remove @ [server]
         else server # to_remove)
       (sorted_list_of_set new_voters) []"

text \<open>\<open>num_streaming\<close> is computed once, before the loop.\<close>

fun remove_voters_loop ::
  "contract_t \<Rightarrow> ack_frags \<Rightarrow> nat \<Rightarrow> nat \<Rightarrow> server_id list \<Rightarrow> server_id set \<times> bool \<Rightarrow> server_id set \<times> bool" where
  "remove_voters_loop old_c acks num_streaming min_size [] (new_voters, changed) = (new_voters, changed)"
| "remove_voters_loop old_c acks num_streaming min_size (s # to_remove) (new_voters, changed) =
     (let remaining_streaming = (if is_streaming old_c acks s then num_streaming - 1 else num_streaming);
          remaining_total = card new_voters - 1;
          would_lose_majority = (remaining_streaming \<le> remaining_total div 2)
      in if would_lose_majority \<or> card new_voters \<le> min_size then (new_voters, changed)
         else remove_voters_loop old_c acks num_streaming min_size to_remove (new_voters - {s}, True))"

definition stage_voters :: "contract_t \<Rightarrow> shard_t \<Rightarrow> ack_frags \<Rightarrow> contract_t \<Rightarrow> contract_t" where
  "stage_voters old_c config acks new_c =
     (if c_temp_voters old_c = None \<and> c_voters old_c \<noteq> voting_replicas config then
        (let added = Set.filter (\<lambda>s. s \<notin> c_voters old_c \<and> is_streaming old_c acks s) (voting_replicas config);
             new_voters = c_voters old_c \<union> added;
             to_remove = to_remove_list old_c acks (voting_replicas config) new_voters;
             num_streaming = card (Set.filter (is_streaming old_c acks) new_voters);
             min_voters_size = min (card (c_voters old_c)) (card (voting_replicas config))
         in case remove_voters_loop old_c acks num_streaming min_voters_size to_remove (new_voters, added \<noteq> {}) of
              (new_voters, changed) \<Rightarrow> if changed then new_c\<lparr>c_temp_voters := Some new_voters\<rparr> else new_c)
      else new_c)"

definition commit_voters :: "contract_t \<Rightarrow> ack_frags \<Rightarrow> contract_t \<Rightarrow> contract_t option" where
  "commit_voters old_c acks new_c =
     (case c_temp_voters old_c of
        None \<Rightarrow> Some new_c
      | Some tv \<Rightarrow>
          (case c_primary old_c of
             None \<Rightarrow> Some new_c
           | Some p \<Rightarrow>
               if acked acks (p_server p) Primary_ready then
                 (if c_temp_voters new_c = c_temp_voters old_c
                  then Some (new_c\<lparr>c_voters := tv, c_temp_voters := None\<rparr>) else None)
               else Some new_c))"

section \<open>Visibility and obsolete replicas\<close>

definition visible_voters :: "connections \<Rightarrow> contract_t \<Rightarrow> server_id set" where
  "visible_voters conn new_c =
     Set.filter (\<lambda>s. is_voter new_c s \<and>
         \<not> invisible_to_majority_of_set s (c_voters new_c) conn \<and>
         (case c_temp_voters new_c of None \<Rightarrow> True | Some tv \<Rightarrow> \<not> invisible_to_majority_of_set s tv conn))
       (c_replicas new_c)"

definition obsolete_replicas :: "contract_t \<Rightarrow> shard_t \<Rightarrow> contract_t \<Rightarrow> server_id set" where
  "obsolete_replicas old_c config new_c =
     Set.filter (\<lambda>s. s \<notin> sh_all_replicas config \<and> \<not> is_voter new_c s) (c_replicas old_c)"

definition drop_obsolete :: "contract_t \<Rightarrow> shard_t \<Rightarrow> contract_t \<Rightarrow> contract_t \<times> bool" where
  "drop_obsolete old_c config new_c =
     (let gone = obsolete_replicas old_c config new_c
      in (new_c\<lparr>c_replicas := c_replicas new_c - gone\<rparr>,
          case c_primary old_c of None \<Rightarrow> False | Some p \<Rightarrow> p_server p \<in> gone))"

section \<open>Choosing a primary\<close>

definition sorted_candidates ::
  "ack_frags \<Rightarrow> server_id set \<Rightarrow> (state_timestamp \<times> server_id) list option" where
  "sorted_candidates acks voters =
     map_option sort
       (map_concat_opt (\<lambda>s.
           if acked acks s Secondary_need_primary
           then do { a \<leftarrow> acks s; t \<leftarrow> fr_common_ancestor a; Some [(t, s)] }
           else Some [])
         (sorted_list_of_set voters))"

function up_to_date_loop :: "(state_timestamp \<times> server_id) list \<Rightarrow> nat \<Rightarrow> nat \<Rightarrow> nat" where
  "up_to_date_loop cands i n =
     (if n < length cands \<and> fst (cands ! n) = fst (cands ! i) then up_to_date_loop cands i (n + 1) else n)"
  by pat_completeness auto

termination
  by (relation "measure (\<lambda>(cands, i, n). length cands - n)") auto

declare up_to_date_loop.simps [simp del]

definition eligible_candidates ::
  "(state_timestamp \<times> server_id) list \<Rightarrow> server_id set \<Rightarrow> server_id set \<Rightarrow> server_id list" where
  "eligible_candidates cands visible voters =
     map (\<lambda>i. snd (cands ! i))
       (filter (\<lambda>i. snd (cands ! i) \<in> visible \<and> up_to_date_loop cands i (i + 1) > card voters div 2)
         [0..<length cands])"

definition new_primary :: "server_id \<Rightarrow> primary_t" where
  "new_primary s = \<lparr>p_server = s, p_hand_over = None\<rparr>"

definition elect_primary ::
  "shard_t \<Rightarrow> ack_frags \<Rightarrow> server_id set \<Rightarrow> contract_t \<Rightarrow> contract_t option" where
  "elect_primary config acks visible new_c =
     do {
       cands \<leftarrow> sorted_candidates acks (c_voters new_c);
       let eligible = eligible_candidates cands visible (c_voters new_c);
       Some
         (if sh_primary_replica config \<in> set eligible
          then new_c\<lparr>c_primary := Some (new_primary (sh_primary_replica config))\<rparr>
          else if eligible \<noteq> [] then
            (if \<not> is_nil (sid_uuid (sh_primary_replica config)) \<and> sh_primary_replica config \<in> visible \<and>
                acks (sh_primary_replica config) = None
             then new_c
             else new_c\<lparr>c_primary := Some (new_primary (List.last eligible))\<rparr>)
          else new_c)
     }"

text \<open>After an emergency repair: the best version among all voters, provided all of them report.\<close>

fun repair_loop ::
  "ack_frags \<Rightarrow> server_id list \<Rightarrow> server_id \<times> state_timestamp \<Rightarrow> (server_id \<times> state_timestamp) option option" where
  "repair_loop acks [] best = Some (Some best)"
| "repair_loop acks (s # servers) (best_primary, best_timestamp) =
     (if acked acks s Secondary_need_primary then
        (case Option.bind (acks s) fr_version of
           None \<Rightarrow> None
         | Some v \<Rightarrow>
             repair_loop acks servers
               (if is_nil (sid_uuid best_primary) \<or> v_timestamp v > best_timestamp
                then (s, v_timestamp v) else (best_primary, best_timestamp)))
      else Some None)"

definition elect_after_repair :: "ack_frags \<Rightarrow> contract_t \<Rightarrow> contract_t option" where
  "elect_after_repair acks new_c =
     do {
       best \<leftarrow> repair_loop acks (sorted_list_of_set (c_voters new_c)) (from_server_uuid nil_uuid, timestamp_zero);
       Some (case best of None \<Rightarrow> new_c | Some (s, t) \<Rightarrow> new_c\<lparr>c_primary := Some (new_primary s)\<rparr>)
     }"

definition choose_primary ::
  "contract_t \<Rightarrow> shard_t \<Rightarrow> ack_frags \<Rightarrow> server_id set \<Rightarrow> contract_t \<Rightarrow> contract_t option" where
  "choose_primary old_c config acks visible new_c =
     (if c_primary old_c = None \<and> \<not> c_after_emergency_repair old_c then elect_primary config acks visible new_c
      else if c_primary old_c = None \<and> c_after_emergency_repair old_c then elect_after_repair acks new_c
      else Some new_c)"

section \<open>Replacing a primary\<close>

definition set_hand_over :: "server_id option \<Rightarrow> contract_t \<Rightarrow> contract_t" where
  "set_hand_over h c = c\<lparr>c_primary := map_option (\<lambda>p. p\<lparr>p_hand_over := h\<rparr>) (c_primary c)\<rparr>"

definition hand_over_step ::
  "primary_t \<Rightarrow> shard_t \<Rightarrow> ack_frags \<Rightarrow> server_id set \<Rightarrow> contract_t \<Rightarrow> contract_t" where
  "hand_over_step p config acks visible new_c =
     (if p_server p \<noteq> sh_primary_replica config then
        (if p_hand_over p \<noteq> Some (sh_primary_replica config) then
           (if acked acks (sh_primary_replica config) Secondary_streaming \<and> sh_primary_replica config \<in> visible
            then set_hand_over (Some (sh_primary_replica config)) new_c
            else if p_hand_over p \<noteq> None then set_hand_over None new_c
            else new_c)
         else
           (if acked acks (p_server p) Primary_ready then new_c\<lparr>c_primary := None\<rparr>
            else if sh_primary_replica config \<notin> visible then set_hand_over None new_c
            else new_c))
      else if p_hand_over p \<noteq> None then set_hand_over None new_c
      else new_c)"

definition replace_primary ::
  "contract_t \<Rightarrow> shard_t \<Rightarrow> ack_frags \<Rightarrow> server_id set \<Rightarrow> bool \<Rightarrow> contract_t \<Rightarrow> contract_t" where
  "replace_primary old_c config acks visible should_kill new_c =
     (case c_primary old_c of
        None \<Rightarrow> new_c
      | Some p \<Rightarrow>
          if should_kill \<or> p_server p \<notin> visible then new_c\<lparr>c_primary := None\<rparr>
          else hand_over_step p config acks visible new_c)"

definition calculate_contract ::
  "contract_t \<Rightarrow> shard_t \<Rightarrow> ack_frags \<Rightarrow> connections \<Rightarrow> contract_t option" where
  "calculate_contract old_c config acks conn =
     do {
       let c1 = old_c\<lparr>c_replicas := c_replicas old_c \<union> sh_all_replicas config\<rparr>;
       let c2 = stage_voters old_c config acks c1;
       c3 \<leftarrow> commit_voters old_c acks c2;
       let visible = visible_voters conn c3;
       let (c4, should_kill) = drop_obsolete old_c config c3;
       c5 \<leftarrow> choose_primary old_c config acks visible c4;
       Some (replace_primary old_c config acks visible should_kill c5)
     }"


section \<open>Well-formedness\<close>

definition contract_wf :: "contract_t \<Rightarrow> bool" where
  "contract_wf c \<longleftrightarrow>
     finite (c_replicas c) \<and> c_voters c \<noteq> {} \<and>
     (case c_temp_voters c of None \<Rightarrow> True | Some tv \<Rightarrow> tv \<noteq> {} \<and> tv \<subseteq> c_replicas c) \<and>
     contract_sanity_check c"

text \<open>The requirements stated with \<open>table_config_t::shard_t\<close>, and a voting replica.\<close>

definition config_wf :: "shard_t \<Rightarrow> bool" where
  "config_wf config \<longleftrightarrow>
     finite (sh_all_replicas config) \<and> voting_replicas config \<noteq> {} \<and>
     (sh_primary_replica config \<in> voting_replicas config \<or> is_nil (sid_uuid (sh_primary_replica config)))"

text \<open>A voter that reports that it needs a primary also reports how far its data is.\<close>

definition acks_wf :: "contract_t \<Rightarrow> ack_frags \<Rightarrow> bool" where
  "acks_wf c acks \<longleftrightarrow>
     (\<forall>s a. is_voter c s \<and> acks s = Some a \<and> fr_state a = Secondary_need_primary \<longrightarrow>
       (if c_after_emergency_repair c then fr_version a \<noteq> None else fr_common_ancestor a \<noteq> None))"

lemma contract_wfD:
  assumes "contract_wf c"
  shows "finite (c_replicas c)" "c_voters c \<subseteq> c_replicas c" "finite (c_voters c)" "c_voters c \<noteq> {}"
    "\<And>tv. c_temp_voters c = Some tv \<Longrightarrow> tv \<noteq> {} \<and> tv \<subseteq> c_replicas c \<and> finite tv"
    "\<And>p. c_primary c = Some p \<Longrightarrow> p_server p \<in> c_replicas c"
    "\<And>p h. c_primary c = Some p \<Longrightarrow> p_hand_over p = Some h \<Longrightarrow> is_nil (sid_uuid h) \<or> h \<in> c_replicas c"
  using assms by (auto simp: contract_wf_def contract_sanity_check_def intro: finite_subset)

lemma voting_subset: "voting_replicas config \<subseteq> sh_all_replicas config"
  by (auto simp: voting_replicas_def)

section \<open>Staging a new set of voters\<close>

lemma to_remove_set:
  assumes "finite new_voters"
  shows "set (to_remove_list c acks cfg new_voters) = new_voters - cfg"
    and "distinct (to_remove_list c acks cfg new_voters)"
proof -
  have fold: "set (fold (\<lambda>server to_remove. if server \<in> cfg then to_remove
      else if is_streaming c acks server then to_remove @ [server] else server # to_remove) xs ys) =
      set ys \<union> (set xs - cfg)" for xs ys
    by (induction xs arbitrary: ys) auto
  have dist: "distinct (fold (\<lambda>server to_remove. if server \<in> cfg then to_remove
      else if is_streaming c acks server then to_remove @ [server] else server # to_remove) xs ys)"
    if "distinct xs" "distinct ys" "set xs \<inter> set ys = {}" for xs ys
    using that by (induction xs arbitrary: ys) auto
  show "set (to_remove_list c acks cfg new_voters) = new_voters - cfg"
    "distinct (to_remove_list c acks cfg new_voters)"
    using assms fold [of "sorted_list_of_set new_voters" "[]"] dist [of "sorted_list_of_set new_voters" "[]"]
    by (simp_all add: to_remove_list_def)
qed

lemma remove_loop_bounds:
  assumes "remove_voters_loop c acks n k to_remove (nv, ch) = (nv', ch')" and "finite nv" and "k \<le> card nv"
  shows "nv' \<subseteq> nv \<and> nv - set to_remove \<subseteq> nv' \<and> k \<le> card nv'"
  using assms
proof (induction to_remove arbitrary: nv ch)
  case (Cons s to_remove)
  show ?case
  proof (cases "(if is_streaming c acks s then n - 1 else n) \<le> (card nv - 1) div 2 \<or> card nv \<le> k")
    case True
    then have "nv' = nv \<and> ch' = ch" using Cons.prems(1) by (auto simp: Let_def split: if_splits)
    then show ?thesis using Cons.prems(3) by auto
  next
    case False
    then have loop: "remove_voters_loop c acks n k to_remove (nv - {s}, True) = (nv', ch')" and k: "k < card nv"
      using Cons.prems(1) by (auto simp: Let_def split: if_splits)
    have "k \<le> card (nv - {s})" using k Cons.prems(2) by (cases "s \<in> nv") auto
    then have "nv' \<subseteq> nv - {s} \<and> (nv - {s}) - set to_remove \<subseteq> nv' \<and> k \<le> card nv'"
      using Cons.IH [OF loop] Cons.prems(2) by auto
    then show ?thesis by auto
  qed
qed auto

text \<open>The set of voters that is staged.\<close>

definition staged :: "contract_t \<Rightarrow> shard_t \<Rightarrow> ack_frags \<Rightarrow> server_id set \<Rightarrow> bool" where
  "staged old_c config acks tv \<longleftrightarrow>
     c_temp_voters old_c = None \<and> c_voters old_c \<noteq> voting_replicas config \<and>
     tv \<subseteq> c_voters old_c \<union> {s \<in> voting_replicas config. is_streaming old_c acks s} \<and>
     c_voters old_c \<inter> voting_replicas config \<subseteq> tv \<and>
     min (card (c_voters old_c)) (card (voting_replicas config)) \<le> card tv"

lemma stage_voters_cases:
  assumes old: "contract_wf old_c" and cfg: "config_wf config"
  obtains (keep) "stage_voters old_c config acks c = c"
  | (stage) tv where "stage_voters old_c config acks c = c\<lparr>c_temp_voters := Some tv\<rparr>" "staged old_c config acks tv"
proof (cases "c_temp_voters old_c = None \<and> c_voters old_c \<noteq> voting_replicas config")
  case False
  then show ?thesis using keep by (auto simp: stage_voters_def)
next
  case True
  let ?cfg = "voting_replicas config"
  let ?added = "Set.filter (\<lambda>s. s \<notin> c_voters old_c \<and> is_streaming old_c acks s) ?cfg"
  let ?nv = "c_voters old_c \<union> ?added"
  let ?list = "to_remove_list old_c acks ?cfg ?nv"
  let ?n = "card (Set.filter (is_streaming old_c acks) ?nv)"
  let ?k = "min (card (c_voters old_c)) (card ?cfg)"
  obtain nv' ch' where loop: "remove_voters_loop old_c acks ?n ?k ?list (?nv, ?added \<noteq> {}) = (nv', ch')"
    by (meson surj_pair)
  have fin: "finite ?cfg" using cfg voting_subset [of config] by (auto simp: config_wf_def intro: finite_subset)
  then have fin_nv: "finite ?nv" using contract_wfD(3) [OF old] by simp
  have "?k \<le> card ?nv" using card_mono [OF fin_nv, of "c_voters old_c"] by simp
  with remove_loop_bounds [OF loop fin_nv] to_remove_set(1) [OF fin_nv]
  have b: "nv' \<subseteq> ?nv" "?nv \<inter> ?cfg \<subseteq> nv'" "?k \<le> card nv'" by auto
  have eq: "stage_voters old_c config acks c = (if ch' then c\<lparr>c_temp_voters := Some nv'\<rparr> else c)"
    using True loop by (simp add: stage_voters_def Let_def)
  show ?thesis
  proof (cases ch')
    case False
    then show ?thesis using keep eq by simp
  next
    case ch: True
    have "staged old_c config acks nv'" using True b by (auto simp: staged_def)
    then show ?thesis using stage eq ch by simp
  qed
qed


section \<open>The voters of the next contract\<close>

text \<open>
  The voters change only when the primary is ready for the staged ones, and only to these; a new
  set is staged only when none is pending.
\<close>

definition voters_follow :: "contract_t \<Rightarrow> shard_t \<Rightarrow> ack_frags \<Rightarrow> contract_t \<Rightarrow> bool" where
  "voters_follow old_c config acks c \<longleftrightarrow>
     (\<exists>tv p. c_temp_voters old_c = Some tv \<and> c_primary old_c = Some p \<and> acked acks (p_server p) Primary_ready \<and>
        c_voters c = tv \<and> c_temp_voters c = None) \<or>
     c_voters c = c_voters old_c \<and>
       (c_temp_voters c = c_temp_voters old_c \<or> (\<exists>tv. c_temp_voters c = Some tv \<and> staged old_c config acks tv))"

lemma voters_phase:
  assumes old: "contract_wf old_c" and cfg: "config_wf config"
  obtains c3 where
    "commit_voters old_c acks (stage_voters old_c config acks (old_c\<lparr>c_replicas := R\<rparr>)) = Some c3"
    "c_replicas c3 = R" "c_primary c3 = c_primary old_c"
    "c_after_emergency_repair c3 = c_after_emergency_repair old_c"
    "voters_follow old_c config acks c3"
proof -
  let ?c = "old_c\<lparr>c_replicas := R\<rparr>"
  consider (keep) "stage_voters old_c config acks ?c = ?c"
    | (stage) tv where "stage_voters old_c config acks ?c = ?c\<lparr>c_temp_voters := Some tv\<rparr>" "staged old_c config acks tv"
    by (rule stage_voters_cases [OF old cfg, of acks ?c])
  then show ?thesis
  proof cases
    case keep
    show ?thesis
    proof (cases "\<exists>tv p. c_temp_voters old_c = Some tv \<and> c_primary old_c = Some p \<and> acked acks (p_server p) Primary_ready")
      case True
      then obtain tv p where tp: "c_temp_voters old_c = Some tv" "c_primary old_c = Some p" "acked acks (p_server p) Primary_ready"
        by blast
      show ?thesis
        using keep tp by (intro that [of "old_c\<lparr>c_replicas := R, c_voters := tv, c_temp_voters := None\<rparr>"])
          (auto simp: commit_voters_def voters_follow_def)
    next
      case False
      then show ?thesis
        using keep by (intro that [of "old_c\<lparr>c_replicas := R\<rparr>"])
          (auto simp: commit_voters_def voters_follow_def split: option.splits)
  qed
  next
    case (stage tv)
    then have "c_temp_voters old_c = None" by (simp add: staged_def)
    then show ?thesis
      using stage by (intro that [of "old_c\<lparr>c_replicas := R, c_temp_voters := Some tv\<rparr>"])
        (auto simp: commit_voters_def voters_follow_def)
  qed
qed

lemma voters_follow_subset:
  assumes old: "contract_wf old_c" and cfg: "config_wf config" and v: "voters_follow old_c config acks c"
    and R: "c_replicas c = c_replicas old_c \<union> sh_all_replicas config"
  shows "finite (c_replicas c)" "c_voters c \<noteq> {}" "c_voters c \<subseteq> c_replicas c"
    "\<And>tv. c_temp_voters c = Some tv \<Longrightarrow> tv \<noteq> {} \<and> tv \<subseteq> c_replicas c"
proof -
  note wf = contract_wfD [OF old]
  show "finite (c_replicas c)" using wf(1) cfg R by (simp add: config_wf_def)
  show "c_voters c \<noteq> {}" "c_voters c \<subseteq> c_replicas c" using v wf(2,4,5) R by (auto simp: voters_follow_def)
  fix tv assume tv: "c_temp_voters c = Some tv"
  show "tv \<noteq> {} \<and> tv \<subseteq> c_replicas c"
  proof (cases "staged old_c config acks tv")
    case True
    have "finite (voting_replicas config)"
      using cfg voting_subset [of config] by (auto simp: config_wf_def intro: finite_subset)
    then have "0 < min (card (c_voters old_c)) (card (voting_replicas config))"
      using wf(3,4) cfg by (simp add: config_wf_def card_gt_0_iff)
    moreover have "min (card (c_voters old_c)) (card (voting_replicas config)) \<le> card tv"
      using True by (simp add: staged_def)
    ultimately have "0 < card tv" by linarith
    then show ?thesis using True wf(2) R voting_subset [of config] by (auto simp: staged_def)
  next
    case False
    then have "c_temp_voters old_c = Some tv" using v tv by (auto simp: voters_follow_def)
    then show ?thesis using wf(5) R by auto
  qed
qed

section \<open>Candidates\<close>

lemma map_concat_opt_single:
  assumes "\<And>x. x \<in> set xs \<Longrightarrow> P x \<Longrightarrow> f x \<noteq> None"
  shows "map_concat_opt (\<lambda>x. if P x then do { y \<leftarrow> f x; Some [y] } else Some []) xs =
    Some (map (the \<circ> f) (filter P xs))"
  using assms
proof (induction xs)
  case (Cons x xs)
  then show ?case using Cons.prems [of x] by (cases "P x"; cases "f x") auto
qed simp

definition ack_rank :: "ack_frags \<Rightarrow> server_id \<Rightarrow> state_timestamp" where
  "ack_rank acks s = the (Option.bind (acks s) fr_common_ancestor)"

lemma sorted_candidates_eq:
  assumes "\<And>s. s \<in> voters \<Longrightarrow> acked acks s Secondary_need_primary \<Longrightarrow> Option.bind (acks s) fr_common_ancestor \<noteq> None"
    and "finite voters"
  shows "sorted_candidates acks voters =
    Some (sort (map (\<lambda>s. (ack_rank acks s, s)) (filter (\<lambda>s. acked acks s Secondary_need_primary) (sorted_list_of_set voters))))"
proof -
  let ?f = "\<lambda>s. do { a \<leftarrow> acks s; t \<leftarrow> fr_common_ancestor a; Some (t, s) }"
  have eq: "(\<lambda>s. if acked acks s Secondary_need_primary then do { a \<leftarrow> acks s; t \<leftarrow> fr_common_ancestor a; Some [(t, s)] } else Some []) =
      (\<lambda>s. if acked acks s Secondary_need_primary then do { y \<leftarrow> ?f s; Some [y] } else Some [])"
    by (auto simp: fun_eq_iff split: bind_splits)
  have def: "?f s \<noteq> None" if "s \<in> set (sorted_list_of_set voters)" "acked acks s Secondary_need_primary" for s
    using assms(1) [of s] that assms(2) by (auto split: bind_splits)
  have single: "map_concat_opt (\<lambda>s. if acked acks s Secondary_need_primary then do { y \<leftarrow> ?f s; Some [y] } else Some [])
      (sorted_list_of_set voters) =
    Some (map (the \<circ> ?f) (filter (\<lambda>s. acked acks s Secondary_need_primary) (sorted_list_of_set voters)))"
    by (rule map_concat_opt_single) (rule def)
  have "the (?f s) = (ack_rank acks s, s)" if "s \<in> voters" "acked acks s Secondary_need_primary" for s
    using assms(1) [OF that] by (auto simp: ack_rank_def split: bind_splits)
  then have "map (the \<circ> ?f) (filter (\<lambda>s. acked acks s Secondary_need_primary) (sorted_list_of_set voters)) =
      map (\<lambda>s. (ack_rank acks s, s)) (filter (\<lambda>s. acked acks s Secondary_need_primary) (sorted_list_of_set voters))"
    using assms(2) by (intro map_cong) auto
  then show ?thesis unfolding sorted_candidates_def eq single by (simp only: option.map)
qed

lemma up_to_date_loop_bound:
  assumes "sorted (map fst cands)" and "i < length cands" and "i < n" "n \<le> length cands"
    and "\<And>j. j < n \<Longrightarrow> fst (cands ! j) \<le> fst (cands ! i)"
  shows "up_to_date_loop cands i n \<le> length cands \<and> n \<le> up_to_date_loop cands i n \<and>
    (\<forall>j < up_to_date_loop cands i n. fst (cands ! j) \<le> fst (cands ! i))"
  using assms
proof (induction cands i n rule: up_to_date_loop.induct)
  case (1 cands i n)
  show ?case
  proof (cases "n < length cands \<and> fst (cands ! n) = fst (cands ! i)")
    case True
    then have "\<And>j. j < n + 1 \<Longrightarrow> fst (cands ! j) \<le> fst (cands ! i)"
      using "1.prems"(5) by (metis less_antisym Suc_eq_plus1 order.refl)
    then show ?thesis using "1.IH" [OF True] "1.prems" True up_to_date_loop.simps [of cands i n] by auto
  next
    case False
    then show ?thesis using "1.prems" up_to_date_loop.simps [of cands i n] by auto
  qed
qed


definition reporting :: "ack_frags \<Rightarrow> server_id set \<Rightarrow> server_id set" where
  "reporting acks voters = {s \<in> voters. acked acks s Secondary_need_primary}"

definition candidates :: "ack_frags \<Rightarrow> server_id set \<Rightarrow> (state_timestamp \<times> server_id) list" where
  "candidates acks voters =
     sort (map (\<lambda>s. (ack_rank acks s, s)) (filter (\<lambda>s. acked acks s Secondary_need_primary) (sorted_list_of_set voters)))"

lemma candidates_facts:
  assumes "finite voters"
  shows "set (candidates acks voters) = (\<lambda>s. (ack_rank acks s, s)) ` reporting acks voters"
    and "distinct (map snd (candidates acks voters))" and "sorted (map fst (candidates acks voters))"
    and "i < length (candidates acks voters) \<Longrightarrow>
      snd (candidates acks voters ! i) \<in> reporting acks voters \<and>
      fst (candidates acks voters ! i) = ack_rank acks (snd (candidates acks voters ! i))"
proof -
  let ?l = "map (\<lambda>s. (ack_rank acks s, s)) (filter (\<lambda>s. acked acks s Secondary_need_primary) (sorted_list_of_set voters))"
  show set: "set (candidates acks voters) = (\<lambda>s. (ack_rank acks s, s)) ` reporting acks voters"
    using assms by (auto simp: candidates_def reporting_def)
  have "distinct (map snd ?l)" using assms by (simp add: comp_def)
  moreover have "mset (map snd (sort ?l)) = mset (map snd ?l)" by (simp only: mset_map mset_sort)
  ultimately have "distinct (map snd (sort ?l))" using mset_eq_imp_distinct_iff by blast
  then show "distinct (map snd (candidates acks voters))" by (simp add: candidates_def)
  have "sorted (candidates acks voters)" by (simp add: candidates_def)
  then show "sorted (map fst (candidates acks voters))"
    by (auto simp: sorted_map less_eq_prod_def elim!: sorted_wrt_mono_rel [rotated])
  show "snd (candidates acks voters ! i) \<in> reporting acks voters \<and>
      fst (candidates acks voters ! i) = ack_rank acks (snd (candidates acks voters ! i))"
    if "i < length (candidates acks voters)"
    using nth_mem [OF that] unfolding set by auto
qed

lemma eligible_majority:
  assumes fin: "finite voters" and s: "s \<in> set (eligible_candidates (candidates acks voters) visible voters)"
  shows "s \<in> visible" and "s \<in> reporting acks voters"
    and "majority voters {v \<in> reporting acks voters. ack_rank acks v \<le> ack_rank acks s}"
proof -
  let ?c = "candidates acks voters"
  obtain i where i: "i < length ?c" "s = snd (?c ! i)" "s \<in> visible" "up_to_date_loop ?c i (i + 1) > card voters div 2"
    using s by (auto simp: eligible_candidates_def)
  note facts = candidates_facts [OF fin, where acks = acks]
  show "s \<in> visible" "s \<in> reporting acks voters" using i facts(4) by auto
  let ?n = "up_to_date_loop ?c i (i + 1)" and ?A = "{v \<in> reporting acks voters. ack_rank acks v \<le> ack_rank acks s}"
  have "fst (?c ! j) \<le> fst (?c ! i)" if "j < i + 1" for j
    using sorted_nth_mono [OF facts(3), of j i] that i(1) by simp
  then have n: "?n \<le> length ?c" "\<forall>j < ?n. fst (?c ! j) \<le> fst (?c ! i)"
    using up_to_date_loop_bound [OF facts(3) i(1), of "i + 1"] i(1) by auto
  have sub: "snd ` set (take ?n ?c) \<subseteq> ?A"
  proof
    fix v assume "v \<in> snd ` set (take ?n ?c)"
    then obtain j where j: "j < ?n" "j < length ?c" "v = snd (?c ! j)" by (auto simp: in_set_conv_nth)
    then show "v \<in> ?A" using n(2) facts(4) [OF j(2)] facts(4) [OF i(1)] i(2) by auto
  qed
  have "distinct (map snd (take ?n ?c))" using facts(2) by (simp add: take_map [symmetric])
  then have "card (snd ` set (take ?n ?c)) = ?n"
    using n(1) distinct_card [of "map snd (take ?n ?c)"] by simp
  moreover have "finite ?A" using fin by (simp add: reporting_def)
  ultimately have "?n \<le> card ?A" using card_mono [OF _ sub] by simp
  then show "majority voters ?A" using fin i(4) by (auto simp: majority_def reporting_def)
qed

section \<open>The next contract\<close>

definition acks_defined :: "ack_frags \<Rightarrow> bool \<Rightarrow> server_id set \<Rightarrow> bool" where
  "acks_defined acks repair voters \<longleftrightarrow>
     (\<forall>s \<in> reporting acks voters. if repair then Option.bind (acks s) fr_version \<noteq> None
        else Option.bind (acks s) fr_common_ancestor \<noteq> None)"

lemma acks_wf_defined:
  assumes "acks_wf old_c acks" and "voters_follow old_c config acks c"
  shows "acks_defined acks (c_after_emergency_repair old_c) (c_voters c)"
proof -
  have "is_voter old_c s" if "s \<in> c_voters c" for s
    using assms(2) that by (auto simp: voters_follow_def is_voter_def)
  then show ?thesis
    using assms(1) unfolding acks_defined_def reporting_def acks_wf_def acked_def
    by (fastforce split: option.splits)
qed

lemma elect_primary_cases:
  assumes fin: "finite (c_voters c)" and def: "acks_defined acks False (c_voters c)"
  shows "\<exists>c'. elect_primary config acks visible c = Some c' \<and>
    (c' = c \<or> (\<exists>s \<in> set (eligible_candidates (candidates acks (c_voters c)) visible (c_voters c)).
      c' = c\<lparr>c_primary := Some (new_primary s)\<rparr>))"
proof -
  have "sorted_candidates acks (c_voters c) = Some (candidates acks (c_voters c))"
    unfolding candidates_def using def by (intro sorted_candidates_eq fin) (auto simp: acks_defined_def reporting_def)
  then show ?thesis by (auto simp: elect_primary_def Let_def)
qed

lemma repair_loop_cases:
  assumes "\<And>s. s \<in> set servers \<Longrightarrow> acked acks s Secondary_need_primary \<Longrightarrow> Option.bind (acks s) fr_version \<noteq> None"
    and "servers \<noteq> [] \<or> fst best \<in> S" and "set servers \<subseteq> S" and "is_nil (sid_uuid (fst best)) \<or> fst best \<in> S"
  shows "repair_loop acks servers best = Some None \<or>
    (\<exists>s t. repair_loop acks servers best = Some (Some (s, t)) \<and> s \<in> S)"
  using assms
proof (induction servers arbitrary: best)
  case Nil
  then show ?case by (cases best) auto
next
  case (Cons s servers)
  obtain b t where best: "best = (b, t)" by (cases best)
  show ?case
  proof (cases "acked acks s Secondary_need_primary")
    case True
    then obtain v where v: "Option.bind (acks s) fr_version = Some v" using Cons.prems(1) [of s] by auto
    let ?best = "if is_nil (sid_uuid b) \<or> v_timestamp v > t then (s, v_timestamp v) else (b, t)"
    have "fst ?best \<in> S" using Cons.prems(3,4) by (auto simp: best)
    then have "repair_loop acks servers ?best = Some None \<or>
      (\<exists>s t. repair_loop acks servers ?best = Some (Some (s, t)) \<and> s \<in> S)"
      using Cons.prems by (intro Cons.IH) auto
    then show ?thesis using True v by (simp add: best)
  next
    case False
    then show ?thesis by (simp add: best)
  qed
qed

lemma choose_primary_cases:
  assumes fin: "finite (c_voters c)" and ne: "c_voters c \<noteq> {}"
    and def: "acks_defined acks (c_after_emergency_repair old_c) (c_voters c)"
  obtains (keep) "choose_primary old_c config acks visible c = Some c"
  | (elect) s where "choose_primary old_c config acks visible c = Some (c\<lparr>c_primary := Some (new_primary s)\<rparr>)"
      "s \<in> c_voters c" "c_primary old_c = None"
      "if c_after_emergency_repair old_c then True
       else s \<in> set (eligible_candidates (candidates acks (c_voters c)) visible (c_voters c))"
proof (cases "c_primary old_c")
  case (Some p)
  then show ?thesis using keep by (simp add: choose_primary_def)
next
  case None
  show ?thesis
  proof (cases "c_after_emergency_repair old_c")
    case True
    have servers: "set (sorted_list_of_set (c_voters c)) = c_voters c" using fin by simp
    have "repair_loop acks (sorted_list_of_set (c_voters c)) (from_server_uuid nil_uuid, timestamp_zero) = Some None \<or>
      (\<exists>s t. repair_loop acks (sorted_list_of_set (c_voters c)) (from_server_uuid nil_uuid, timestamp_zero) = Some (Some (s, t)) \<and>
        s \<in> c_voters c)"
      using True def ne fin
      by (intro repair_loop_cases)
        (auto simp: acks_defined_def reporting_def from_server_uuid_def is_nil_def)
    then show ?thesis
      using keep elect None True by (auto simp: choose_primary_def elect_after_repair_def)
  next
    case False
    then have "choose_primary old_c config acks visible c = elect_primary config acks visible c"
      using None by (simp add: choose_primary_def)
    then show ?thesis
      using elect_primary_cases [OF fin, of acks config visible] def False None keep elect eligible_majority(2) [OF fin]
      by (auto simp: reporting_def)
  qed
qed


text \<open>
  A primary is only replaced by way of a contract without a primary; a new one is elected among
  the eligible voters.
\<close>

definition primary_follows ::
  "contract_t \<Rightarrow> shard_t \<Rightarrow> ack_frags \<Rightarrow> server_id set \<Rightarrow> contract_t \<Rightarrow> contract_t \<Rightarrow> bool" where
  "primary_follows old_c config acks visible c3 c \<longleftrightarrow>
     (case c_primary old_c of
        None \<Rightarrow>
          c_primary c = None \<or>
          (\<exists>s. c_primary c = Some (new_primary s) \<and> s \<in> c_voters c3 \<and>
            (if c_after_emergency_repair old_c then True
             else s \<in> set (eligible_candidates (candidates acks (c_voters c3)) visible (c_voters c3))))
      | Some p \<Rightarrow>
          c_primary c = None \<or>
          (\<exists>h. c_primary c = Some (p\<lparr>p_hand_over := h\<rparr>) \<and> p_server p \<in> visible \<and>
            p_server p \<notin> obsolete_replicas old_c config c3 \<and> (h = None \<or> h = Some (sh_primary_replica config))))"

lemma hand_over_step_cases:
  assumes "c_primary c = Some p"
  shows "hand_over_step p config acks visible c = c\<lparr>c_primary := None\<rparr> \<or>
    (\<exists>h. hand_over_step p config acks visible c = c\<lparr>c_primary := Some (p\<lparr>p_hand_over := h\<rparr>)\<rparr> \<and>
      (h = None \<or> h = Some (sh_primary_replica config)))"
proof -
  have same: "c = c\<lparr>c_primary := Some (p\<lparr>p_hand_over := p_hand_over p\<rparr>)\<rparr>" using assms by simp
  have set: "set_hand_over h c = c\<lparr>c_primary := Some (p\<lparr>p_hand_over := h\<rparr>)\<rparr>" for h
    using assms by (simp add: set_hand_over_def)
  show ?thesis
    unfolding hand_over_step_def set by (auto intro!: same)
qed

lemma calculate_contract_unfold:
  assumes "commit_voters old_c acks
    (stage_voters old_c config acks (old_c\<lparr>c_replicas := c_replicas old_c \<union> sh_all_replicas config\<rparr>)) = Some c3"
  shows "calculate_contract old_c config acks conn =
    map_option (replace_primary old_c config acks (visible_voters conn c3)
        (case c_primary old_c of None \<Rightarrow> False | Some p \<Rightarrow> p_server p \<in> obsolete_replicas old_c config c3))
      (choose_primary old_c config acks (visible_voters conn c3)
        (c3\<lparr>c_replicas := c_replicas c3 - obsolete_replicas old_c config c3\<rparr>))"
  using assms by (simp add: calculate_contract_def drop_obsolete_def Let_def map_conv_bind_option comp_def)

lemma calculate_contract_next:
  assumes old: "contract_wf old_c" and cfg: "config_wf config" and acks: "acks_wf old_c acks"
  obtains c3 c where "calculate_contract old_c config acks conn = Some c"
    "c_replicas c3 = c_replicas old_c \<union> sh_all_replicas config"
    "voters_follow old_c config acks c3"
    "c_replicas c = c_replicas c3 - obsolete_replicas old_c config c3"
    "c_voters c = c_voters c3" "c_temp_voters c = c_temp_voters c3"
    "c_after_emergency_repair c = c_after_emergency_repair old_c"
    "primary_follows old_c config acks (visible_voters conn c3) c3 c"
proof -
  let ?R = "c_replicas old_c \<union> sh_all_replicas config"
  obtain c3 where c3: "commit_voters old_c acks (stage_voters old_c config acks (old_c\<lparr>c_replicas := ?R\<rparr>)) = Some c3"
    "c_replicas c3 = ?R" "c_primary c3 = c_primary old_c"
    "c_after_emergency_repair c3 = c_after_emergency_repair old_c" "voters_follow old_c config acks c3"
    by (rule voters_phase [OF old cfg])
  note vf = voters_follow_subset [OF old cfg c3(5,2)]
  have fin: "finite (c_voters c3)" using vf(1,3) by (rule rev_finite_subset)
  let ?vis = "visible_voters conn c3" and ?gone = "obsolete_replicas old_c config c3"
  let ?c4 = "c3\<lparr>c_replicas := c_replicas c3 - ?gone\<rparr>"
  let ?kill = "case c_primary old_c of None \<Rightarrow> False | Some p \<Rightarrow> p_server p \<in> ?gone"
  have calc: "calculate_contract old_c config acks conn =
      map_option (replace_primary old_c config acks ?vis ?kill) (choose_primary old_c config acks ?vis ?c4)"
    by (rule calculate_contract_unfold [OF c3(1)])
  have fin4: "finite (c_voters ?c4)" "c_voters ?c4 \<noteq> {}"
    "acks_defined acks (c_after_emergency_repair old_c) (c_voters ?c4)"
    using fin vf(2) acks_wf_defined [OF acks c3(5)] by simp_all
  consider (keep) "choose_primary old_c config acks ?vis ?c4 = Some ?c4"
    | (elect) s where "choose_primary old_c config acks ?vis ?c4 = Some (?c4\<lparr>c_primary := Some (new_primary s)\<rparr>)"
      "s \<in> c_voters ?c4" "c_primary old_c = None"
      "if c_after_emergency_repair old_c then True
       else s \<in> set (eligible_candidates (candidates acks (c_voters ?c4)) ?vis (c_voters ?c4))"
    by (rule choose_primary_cases [OF fin4])
  then show ?thesis
  proof cases
    case (elect s)
    then show ?thesis
      using c3 calc by (intro that [of "?c4\<lparr>c_primary := Some (new_primary s)\<rparr>" c3])
        (auto simp: replace_primary_def primary_follows_def)
  next
    case keep
    show ?thesis
    proof (cases "c_primary old_c")
      case None
      then show ?thesis
        using c3 calc keep by (intro that [of ?c4 c3]) (auto simp: replace_primary_def primary_follows_def)
    next
      case (Some p)
      let ?new = "replace_primary old_c config acks ?vis ?kill ?c4"
      have new: "calculate_contract old_c config acks conn = Some ?new" using calc keep by simp
      have "?new = ?c4\<lparr>c_primary := None\<rparr> \<or>
          (\<exists>h. ?new = ?c4\<lparr>c_primary := Some (p\<lparr>p_hand_over := h\<rparr>)\<rparr> \<and> p_server p \<in> ?vis \<and> p_server p \<notin> ?gone \<and>
            (h = None \<or> h = Some (sh_primary_replica config)))"
        using hand_over_step_cases [of ?c4 p config acks ?vis] Some c3(3) by (simp add: replace_primary_def)
      then consider (gone) "?new = ?c4\<lparr>c_primary := None\<rparr>"
        | (stay) h where "?new = ?c4\<lparr>c_primary := Some (p\<lparr>p_hand_over := h\<rparr>)\<rparr>" "p_server p \<in> ?vis" "p_server p \<notin> ?gone"
          "h = None \<or> h = Some (sh_primary_replica config)"
        by blast
      then show ?thesis
      proof cases
        case gone
        show ?thesis
          by (rule that [OF new [unfolded gone] c3(2,5)]) (use c3(4) Some in \<open>simp_all add: primary_follows_def\<close>)
      next
        case (stay h)
        show ?thesis
          by (rule that [OF new [unfolded stay(1)] c3(2,5)])
            (use c3(4) Some stay(2-4) in \<open>auto simp: primary_follows_def\<close>)
      qed
    qed
  qed
qed

lemma calculate_contract_wf:
  assumes old: "contract_wf old_c" and cfg: "config_wf config" and acks: "acks_wf old_c acks"
  shows "\<exists>c. calculate_contract old_c config acks conn = Some c \<and> contract_wf c"
proof -
  obtain c3 c where c: "calculate_contract old_c config acks conn = Some c"
    "c_replicas c3 = c_replicas old_c \<union> sh_all_replicas config"
    "voters_follow old_c config acks c3"
    "c_replicas c = c_replicas c3 - obsolete_replicas old_c config c3"
    "c_voters c = c_voters c3" "c_temp_voters c = c_temp_voters c3"
    "c_after_emergency_repair c = c_after_emergency_repair old_c"
    "primary_follows old_c config acks (visible_voters conn c3) c3 c"
    by (rule calculate_contract_next [OF assms])
  note vf = voters_follow_subset [OF old cfg c(3,2)]
  have voter: "s \<in> c_replicas c" if "s \<in> c_replicas c3" "is_voter c3 s" for s
    using that c(4) by (auto simp: obsolete_replicas_def)
  have voters: "c_voters c \<subseteq> c_replicas c" using voter vf(3) c(5) by (auto simp: is_voter_def)
  have tv: "tv \<subseteq> c_replicas c" if tv: "c_temp_voters c3 = Some tv" for tv
  proof
    fix s assume "s \<in> tv"
    then show "s \<in> c_replicas c" using vf(4) [OF tv] tv by (intro voter) (auto simp: is_voter_def)
  qed
  have temp: "case c_temp_voters c of None \<Rightarrow> True | Some tv \<Rightarrow> tv \<noteq> {} \<and> tv \<subseteq> c_replicas c"
    using tv vf(4) c(6) by (simp split: option.split)
  have config: "s \<in> c_replicas c" if "s \<in> sh_all_replicas config" for s
    using that c(2,4) by (auto simp: obsolete_replicas_def)
  have hand: "is_nil (sid_uuid (sh_primary_replica config)) \<or> sh_primary_replica config \<in> c_replicas c"
    using cfg config voting_subset [of config] by (auto simp: config_wf_def)
  have prim: "case c_primary c of None \<Rightarrow> True | Some q \<Rightarrow> p_server q \<in> c_replicas c \<and>
      (case p_hand_over q of None \<Rightarrow> True | Some h \<Rightarrow> is_nil (sid_uuid h) \<or> h \<in> c_replicas c)"
  proof (cases "c_primary old_c")
    case None
    then show ?thesis
      using c(8) voters c(5) by (auto simp: primary_follows_def new_primary_def split: option.splits)
  next
    case (Some p)
    have "p_server p \<in> c_replicas c" if "p_server p \<in> visible_voters conn c3" "p_server p \<notin> obsolete_replicas old_c config c3"
      using that c(4) by (simp add: visible_voters_def)
    then show ?thesis using Some c(8) hand by (auto simp: primary_follows_def split: option.splits)
  qed
  have "finite (c_replicas c)" "c_voters c \<noteq> {}" using vf(1,2) c(4,5) by simp_all
  then have "contract_wf c"
    using voters temp prim by (auto simp: contract_wf_def contract_sanity_check_def)
  then show ?thesis using c(1) by blast
qed


section \<open>Properties\<close>

text \<open>
  Property C6. The contract invariant. From a well-formed contract, for a well-formed shard
  configuration and whatever the connections are, \<open>calculate_contract()\<close> never aborts and its
  result passes \<open>contract_t::sanity_check()\<close> again: voters, staged voters, primary and hand-over
  target are replicas, and there is at least one voter.
\<close>

theorem calculate_contract_invariant:
  assumes "contract_wf old_c" and "config_wf config" and "acks_wf old_c acks"
  shows "\<exists>c. calculate_contract old_c config acks conn = Some c \<and> contract_wf c \<and> contract_sanity_check c"
  using calculate_contract_wf [OF assms, of conn] by (auto simp: contract_wf_def)

definition srv :: "nat \<Rightarrow> server_id" where
  "srv n = from_server_uuid (of_nat n)"

definition demo_contract :: contract_t where
  "demo_contract =
     \<lparr>c_replicas = {srv 4, srv 2, srv 3}, c_voters = {srv 4, srv 2, srv 3}, c_temp_voters = None,
      c_primary = None, c_after_emergency_repair = False\<rparr>"

definition demo_shard :: shard_t where
  "demo_shard =
     \<lparr>sh_all_replicas = {srv 4, srv 2, srv 3}, sh_nonvoting_replicas = {}, sh_primary_replica = srv 4\<rparr>"

definition need_primary :: "nat \<Rightarrow> contract_ack_frag" where
  "need_primary t =
     \<lparr>fr_state = Secondary_need_primary, fr_branch = None,
      fr_version = Some \<lparr>v_branch = 1, v_timestamp = of_nat t\<rparr>, fr_common_ancestor = Some (of_nat t)\<rparr>"

definition demo_acks :: ack_frags where
  "demo_acks = [srv 4 \<mapsto> need_primary 5, srv 2 \<mapsto> need_primary 7]"

lemma srv_eq [simp]: "srv 4 \<noteq> srv 2" "srv 4 \<noteq> srv 3" "srv 2 \<noteq> srv 3" "srv 2 \<noteq> srv 4" "srv 3 \<noteq> srv 4" "srv 3 \<noteq> srv 2"
  by (simp_all add: srv_def from_server_uuid_def)

lemma demo_wf: "contract_wf demo_contract" "config_wf demo_shard" "acks_wf demo_contract demo_acks"
proof -
  show "contract_wf demo_contract" by (simp add: contract_wf_def demo_contract_def contract_sanity_check_def)
  show "config_wf demo_shard" by (simp add: config_wf_def demo_shard_def voting_replicas_def)
  show "acks_wf demo_contract demo_acks"
    by (auto simp: acks_wf_def demo_contract_def demo_acks_def need_primary_def split: if_splits)
qed

theorem calculate_contract_invariant_witness:
  "\<exists>c. calculate_contract demo_contract demo_shard demo_acks (\<lambda>_. True) = Some c \<and> contract_wf c \<and>
    contract_sanity_check c"
  by (rule calculate_contract_invariant [OF demo_wf])

text \<open>
  Property C5. No acknowledged write is lost by an election. When \<open>calculate_contract()\<close> gives a
  region without a primary a new one, outside an emergency repair, the new primary is a voter that
  reported, and it is at least as far along the branch as everything that any majority of the
  voters has: if all members of a majority that reported have reached the timestamp \<open>t\<close>, so has
  the new primary.
\<close>

theorem elected_primary_has_acked_writes:
  assumes "contract_wf old_c" and "config_wf config" and "acks_wf old_c acks"
    and "c_primary old_c = None" and "\<not> c_after_emergency_repair old_c"
    and "calculate_contract old_c config acks conn = Some c" and "c_primary c = Some p"
    and "majority (c_voters c) Q" and "\<And>s. s \<in> Q \<Longrightarrow> acked acks s Secondary_need_primary \<Longrightarrow> t \<le> ack_rank acks s"
  shows "p_server p \<in> c_voters c \<and> acked acks (p_server p) Secondary_need_primary \<and> t \<le> ack_rank acks (p_server p)"
proof -
  obtain c3 c' where c': "calculate_contract old_c config acks conn = Some c'"
    "c_replicas c3 = c_replicas old_c \<union> sh_all_replicas config" "voters_follow old_c config acks c3"
    "c_voters c' = c_voters c3" "primary_follows old_c config acks (visible_voters conn c3) c3 c'"
    by (rule calculate_contract_next [OF assms(1-3)])
  have [simp]: "c' = c" using c'(1) assms(6) by simp
  have fin: "finite (c_voters c3)" using assms(8) c'(4) by (simp add: majority_def)
  have s: "p_server p \<in> set (eligible_candidates (candidates acks (c_voters c3)) (visible_voters conn c3) (c_voters c3))"
    using c'(5) assms(4,5,7) by (auto simp: primary_follows_def new_primary_def)
  note el = eligible_majority [OF fin s]
  have "majority (c_voters c3) Q" using assms(8) c'(4) by simp
  from maj.overlap [OF el(3) this]
  obtain v where "v \<in> Q" "v \<in> reporting acks (c_voters c3)" "ack_rank acks v \<le> ack_rank acks (p_server p)" by blast
  then have "t \<le> ack_rank acks (p_server p)" using assms(9) [of v] by (simp add: reporting_def)
  then show ?thesis using el(2) c'(4) by (simp add: reporting_def)
qed

theorem elected_primary_has_acked_writes_witness:
  "\<exists>c p. calculate_contract demo_contract demo_shard demo_acks (\<lambda>_. True) = Some c \<and> c_primary c = Some p \<and>
    p_server p \<in> c_voters c \<and> acked demo_acks (p_server p) Secondary_need_primary \<and>
    7 \<le> ack_rank demo_acks (p_server p)"
proof -
  have "map_option (\<lambda>c. (c_voters c = {srv 4, srv 2, srv 3}, map_option p_server (c_primary c)))
      (calculate_contract demo_contract demo_shard demo_acks (\<lambda>_. True)) = Some (True, Some (srv 2))"
    by code_simp
  then obtain c p where c: "calculate_contract demo_contract demo_shard demo_acks (\<lambda>_. True) = Some c"
    "c_primary c = Some p" "c_voters c = {srv 4, srv 2, srv 3}" by auto
  have "majority (c_voters c) {srv 2, srv 3}" unfolding c(3) by (simp add: majority_def)
  moreover have "7 \<le> ack_rank demo_acks s" if "s \<in> {srv 2, srv 3}" "acked demo_acks s Secondary_need_primary" for s
    using that by (auto simp: demo_acks_def acked_def ack_rank_def need_primary_def)
  ultimately show ?thesis
    using elected_primary_has_acked_writes [OF demo_wf _ _ c(1,2), of "{srv 2, srv 3}" 7] c(1,2)
    by (auto simp: demo_contract_def)
qed


text \<open>
  Property C10. Changes go through the intermediate contracts. The voters change only to the staged
  voters, and only after the primary has reported that it is ready; a staged set is at least as
  large as the smaller of the current and the configured voter sets, and every server it adds is
  streaming; a primary is never replaced by another one directly.
\<close>

theorem contract_changes_are_staged:
  assumes "contract_wf old_c" and "config_wf config" and "acks_wf old_c acks"
    and "calculate_contract old_c config acks conn = Some c"
  shows "(c_voters c \<noteq> c_voters old_c \<longrightarrow>
      c_temp_voters old_c = Some (c_voters c) \<and>
      (\<exists>p. c_primary old_c = Some p \<and> acked acks (p_server p) Primary_ready)) \<and>
    (\<forall>tv. c_temp_voters old_c = None \<and> c_temp_voters c = Some tv \<longrightarrow>
      min (card (c_voters old_c)) (card (voting_replicas config)) \<le> card tv \<and>
      (\<forall>s \<in> tv - c_voters old_c. s \<in> voting_replicas config \<and> is_streaming old_c acks s)) \<and>
    (\<forall>p q. c_primary old_c = Some p \<and> c_primary c = Some q \<longrightarrow> p_server q = p_server p)"
proof -
  obtain c3 c' where "calculate_contract old_c config acks conn = Some c'"
    "voters_follow old_c config acks c3" "c_voters c' = c_voters c3" "c_temp_voters c' = c_temp_voters c3"
    "primary_follows old_c config acks (visible_voters conn c3) c3 c'"
    by (rule calculate_contract_next [OF assms(1-3)])
  then show ?thesis
    using assms(4) by (auto simp: voters_follow_def primary_follows_def staged_def)
qed

theorem contract_changes_are_staged_witness:
  "\<exists>c. calculate_contract demo_contract demo_shard demo_acks (\<lambda>_. True) = Some c \<and>
    (c_voters c \<noteq> c_voters demo_contract \<longrightarrow> c_temp_voters demo_contract = Some (c_voters c)) \<and>
    c_voters c = c_voters demo_contract"
proof -
  obtain c where c: "calculate_contract demo_contract demo_shard demo_acks (\<lambda>_. True) = Some c"
    using calculate_contract_wf [OF demo_wf] by blast
  then show ?thesis
    using contract_changes_are_staged [OF demo_wf c] by (auto simp: demo_contract_def)
qed

definition removal_contract :: contract_t where
  "removal_contract =
     \<lparr>c_replicas = srv ` {1, 2, 3, 4, 5, 6, 7}, c_voters = srv ` {1, 2, 3, 4, 5, 6, 7}, c_temp_voters = None,
      c_primary = Some (new_primary (srv 1)), c_after_emergency_repair = False\<rparr>"

definition removal_shard :: shard_t where
  "removal_shard =
     \<lparr>sh_all_replicas = {srv 6, srv 7}, sh_nonvoting_replicas = {}, sh_primary_replica = srv 6\<rparr>"

definition streaming_ack :: contract_ack_frag where
  "streaming_ack =
     \<lparr>fr_state = Secondary_streaming, fr_branch = None, fr_version = None, fr_common_ancestor = None\<rparr>"

definition removal_acks :: ack_frags where
  "removal_acks =
     [srv 1 \<mapsto> streaming_ack\<lparr>fr_state := Primary_ready\<rparr>, srv 2 \<mapsto> streaming_ack, srv 3 \<mapsto> streaming_ack,
      srv 4 \<mapsto> streaming_ack, srv 5 \<mapsto> streaming_ack]"


end
