(* ===== verification/Contract_Progress.thy ===== *)
theory Contract_Progress
  imports Contracts
begin

text \<open>
  Progress of the coordinator. When the executors answer every contract the way
  \<open>contract_metadata.hpp\<close> describes for a healthy cluster, repeated calls of
  \<open>calculate_contract()\<close> reach the contract the user configured, and stay there.
\<close>

section \<open>A healthy cluster\<close>

text \<open>
  Replicas without a primary ask for one, all with the same data; the primary is ready and the
  other replicas stream.
\<close>

definition ideal_acks :: "state_timestamp \<Rightarrow> contract_t \<Rightarrow> ack_frags" where
  "ideal_acks t c s =
     (if s \<in> c_replicas c then
        Some \<lparr>fr_state = (case c_primary c of None \<Rightarrow> Secondary_need_primary
                 | Some p \<Rightarrow> if s = p_server p then Primary_ready else Secondary_streaming),
              fr_branch = None, fr_version = Some \<lparr>v_branch = 1, v_timestamp = t\<rparr>, fr_common_ancestor = Some t\<rparr>
      else None)"

definition coordinator_step :: "shard_t \<Rightarrow> state_timestamp \<Rightarrow> contract_t \<Rightarrow> contract_t option" where
  "coordinator_step config t c = calculate_contract c config (ideal_acks t c) (\<lambda>_. True)"

primrec coordinator_run :: "shard_t \<Rightarrow> state_timestamp \<Rightarrow> nat \<Rightarrow> contract_t \<Rightarrow> contract_t option" where
  "coordinator_run config t 0 c = Some c"
| "coordinator_run config t (Suc n) c = Option.bind (coordinator_step config t c) (coordinator_run config t n)"

lemma coordinator_run_add:
  assumes "coordinator_run config t n c = Some c'"
  shows "coordinator_run config t (n + k) c = coordinator_run config t k c'"
  using assms by (induction n arbitrary: c) (auto split: bind_splits)

definition leads_to :: "shard_t \<Rightarrow> state_timestamp \<Rightarrow> (contract_t \<Rightarrow> bool) \<Rightarrow> (contract_t \<Rightarrow> bool) \<Rightarrow> bool" where
  "leads_to config t P Q \<longleftrightarrow> (\<forall>c. P c \<longrightarrow> (\<exists>n c'. coordinator_run config t n c = Some c' \<and> Q c'))"

lemma leads_to_trans: "leads_to config t P Q \<Longrightarrow> leads_to config t Q R \<Longrightarrow> leads_to config t P R"
  unfolding leads_to_def by (metis coordinator_run_add)

lemma leads_to_step:
  "(\<And>c. P c \<Longrightarrow> \<exists>c'. coordinator_step config t c = Some c' \<and> Q c') \<Longrightarrow> leads_to config t P Q"
  unfolding leads_to_def
proof (intro allI impI)
  fix c assume step: "\<And>c. P c \<Longrightarrow> \<exists>c'. coordinator_step config t c = Some c' \<and> Q c'" and "P c"
  then obtain c' where "coordinator_step config t c = Some c'" "Q c'" by blast
  then show "\<exists>n c'. coordinator_run config t n c = Some c' \<and> Q c'" by (intro exI [of _ 1] exI [of _ c']) simp
qed

lemma leads_to_refl: "(\<And>c. P c \<Longrightarrow> Q c) \<Longrightarrow> leads_to config t P Q"
  unfolding leads_to_def by (metis coordinator_run.simps(1))

lemma leads_to_cases:
  assumes "\<And>c. P c \<Longrightarrow> P1 c \<or> P2 c" and "leads_to config t P1 Q" and "leads_to config t P2 Q"
  shows "leads_to config t P Q"
  using assms unfolding leads_to_def by blast

section \<open>One step of a healthy cluster\<close>

lemma ideal_facts:
  shows "acks_wf c (ideal_acks t c)"
    and "is_streaming c (ideal_acks t c) s \<longleftrightarrow> s \<in> c_replicas c \<and> c_primary c \<noteq> None"
    and "acked (ideal_acks t c) s Secondary_need_primary \<longleftrightarrow> s \<in> c_replicas c \<and> c_primary c = None"
    and "acked (ideal_acks t c) s Primary_ready \<longleftrightarrow>
      s \<in> c_replicas c \<and> (\<exists>p. c_primary c = Some p \<and> s = p_server p)"
    and "acked (ideal_acks t c) s Secondary_streaming \<longleftrightarrow>
      s \<in> c_replicas c \<and> (\<exists>p. c_primary c = Some p \<and> s \<noteq> p_server p)"
    and "s \<in> c_replicas c \<Longrightarrow> ack_rank (ideal_acks t c) s = t"
  by (auto simp: acks_wf_def ideal_acks_def is_streaming_def acked_def ack_rank_def split: option.splits if_splits)

lemma visible_all:
  assumes "finite (c_voters c)" "c_voters c \<noteq> {}" and "\<And>tv. c_temp_voters c = Some tv \<Longrightarrow> finite tv \<and> tv \<noteq> {}"
  shows "visible_voters (\<lambda>_. True) c = {s \<in> c_replicas c. is_voter c s}"
proof -
  have "\<not> invisible_to_majority_of_set s J (\<lambda>_. True)" if "finite J" "J \<noteq> {}" for s J
  proof -
    have "0 < card J" using that by (simp add: card_gt_0_iff)
    moreover have "Set.filter (\<lambda>_. True) J = J" by auto
    ultimately show ?thesis by (simp add: invisible_to_majority_of_set_def Let_def)
  qed
  then show ?thesis using assms by (auto simp: visible_voters_def split: option.splits)
qed

lemma remove_loop_all:
  assumes "finite cfg" "cfg \<noteq> {}" and "set xs \<inter> cfg = {}" and "distinct xs" and "\<And>s. s \<in> set xs \<Longrightarrow> is_streaming c acks s"
    and "length xs + card cfg \<le> n" and "k \<le> card cfg"
  shows "remove_voters_loop c acks n k xs (set xs \<union> cfg, ch) = (cfg, ch \<or> xs \<noteq> [])"
  using assms
proof (induction xs arbitrary: ch)
  case (Cons s xs)
  have card: "card (set (s # xs) \<union> cfg) = Suc (length xs) + card cfg"
    using Cons.prems(1,3,4) by (subst card_Un_disjoint) (auto simp: distinct_card)
  have pos: "0 < card cfg" using Cons.prems(1,2) by (simp add: card_gt_0_iff)
  then have "\<not> (n - 1 \<le> (card (set (s # xs) \<union> cfg) - 1) div 2) \<and> \<not> card (set (s # xs) \<union> cfg) \<le> k"
    unfolding card using Cons.prems(6,7) by auto
  moreover have "set (s # xs) \<union> cfg - {s} = set xs \<union> cfg" using Cons.prems(3,4) by auto
  moreover have "is_streaming c acks s" using Cons.prems(5) by simp
  moreover have "remove_voters_loop c acks n k xs (set xs \<union> cfg, True) = (cfg, True)"
    using Cons.IH [of True] Cons.prems by auto
  ultimately show ?case by (simp add: Let_def del: list.set)
qed simp

lemma stage_ideal:
  assumes wf: "contract_wf c" and cfg: "config_wf config"
  shows "c_primary c = None \<Longrightarrow> stage_voters c config (ideal_acks t c) d = d"
    and "c_primary c \<noteq> None \<Longrightarrow> c_temp_voters c = None \<Longrightarrow> c_voters c \<noteq> voting_replicas config \<Longrightarrow>
      voting_replicas config \<subseteq> c_replicas c \<Longrightarrow>
      stage_voters c config (ideal_acks t c) d = d\<lparr>c_temp_voters := Some (voting_replicas config)\<rparr>"
proof -
  let ?A = "ideal_acks t c" and ?cfg = "voting_replicas config"
  note facts = ideal_facts [where c = c and t = t]
  have fin: "finite ?cfg" "?cfg \<noteq> {}"
    using cfg voting_subset [of config] by (auto simp: config_wf_def intro: finite_subset)
  show "stage_voters c config ?A d = d" if "c_primary c = None"
  proof -
    have none: "is_streaming c ?A s = False" for s using facts(2) that by simp
    have "remove_voters_loop c ?A 0 k xs (nv, False) = (nv, False)" for k xs nv
      using none by (cases xs) (simp_all add: Let_def)
    then show ?thesis by (simp add: stage_voters_def none Let_def)
  qed
  assume p: "c_primary c \<noteq> None" and t: "c_temp_voters c = None" and ne: "c_voters c \<noteq> ?cfg" and sub: "?cfg \<subseteq> c_replicas c"
  let ?added = "Set.filter (\<lambda>s. s \<notin> c_voters c \<and> is_streaming c ?A s) ?cfg"
  let ?nv = "c_voters c \<union> ?added"
  have str: "is_streaming c ?A s" if "s \<in> c_replicas c" for s using facts(2) p that by simp
  have added: "?added = ?cfg - c_voters c" using str sub by auto
  then have nv: "?nv = c_voters c \<union> ?cfg" by auto
  have nv_sub: "?nv \<subseteq> c_replicas c" using nv sub contract_wfD(2) [OF wf] by auto
  have nv_fin: "finite ?nv" using contract_wfD(3) [OF wf] fin nv by simp
  have all: "Set.filter (is_streaming c ?A) ?nv = ?nv" using str nv_sub by auto
  let ?xs = "to_remove_list c ?A ?cfg ?nv"
  note xs = to_remove_set [OF nv_fin, of c ?A ?cfg]
  have nv_eq: "set ?xs \<union> ?cfg = ?nv" using xs(1) nv by auto
  have disj: "set ?xs \<inter> ?cfg = {}" using xs(1) by auto
  then have "card (set ?xs \<union> ?cfg) = length ?xs + card ?cfg"
    using fin(1) distinct_card [OF xs(2)] by (simp add: card_Un_disjoint)
  then have len: "length ?xs + card ?cfg \<le> card ?nv" by (simp only: nv_eq)
  have str_xs: "is_streaming c ?A s" if "s \<in> set ?xs" for s using that xs(1) nv_sub by (intro str) auto
  have loop: "remove_voters_loop c ?A (card ?nv) (min (card (c_voters c)) (card ?cfg)) ?xs (?nv, ?added \<noteq> {}) =
      (?cfg, ?added \<noteq> {} \<or> ?xs \<noteq> [])"
    using remove_loop_all [OF fin disj xs(2) str_xs len min.cobounded2, of "card (c_voters c)" "?added \<noteq> {}"]
    unfolding nv_eq .
  have "?added \<noteq> {} \<or> ?xs \<noteq> []"
  proof (rule ccontr)
    assume "\<not> ?thesis"
    then have "?cfg \<subseteq> c_voters c" "?nv - ?cfg = {}" using added xs(1) by (auto simp del: Set.filter_eq)
    then show False using ne by auto
  qed
  then show "stage_voters c config ?A d = d\<lparr>c_temp_voters := Some ?cfg\<rparr>"
    using t ne loop all by (simp add: stage_voters_def Let_def)
qed


definition next_voters :: "shard_t \<Rightarrow> contract_t \<Rightarrow> server_id set \<times> server_id set option" where
  "next_voters config c =
     (if c_primary c = None then (c_voters c, c_temp_voters c)
      else
        (case c_temp_voters c of
           Some tv \<Rightarrow> (tv, None)
         | None \<Rightarrow>
             if c_voters c = voting_replicas config then (c_voters c, None)
             else (c_voters c, Some (voting_replicas config))))"

lemma commit_ideal:
  assumes wf: "contract_wf c" and cfg: "config_wf config" and sub: "voting_replicas config \<subseteq> c_replicas c"
  shows "commit_voters c (ideal_acks t c) (stage_voters c config (ideal_acks t c) (c\<lparr>c_replicas := R\<rparr>)) =
    Some (c\<lparr>c_replicas := R, c_voters := fst (next_voters config c), c_temp_voters := snd (next_voters config c)\<rparr>)"
proof (cases "c_primary c")
  case None
  then show ?thesis
    using stage_ideal(1) [OF wf cfg None, of t]
    by (simp add: commit_voters_def next_voters_def split: option.split)
next
  case (Some p)
  then have ready: "acked (ideal_acks t c) (p_server p) Primary_ready"
    using ideal_facts(4) contract_wfD(6) [OF wf Some] by auto
  show ?thesis
  proof (cases "c_temp_voters c")
    case None
    show ?thesis
    proof (cases "c_voters c = voting_replicas config")
      case True
      then have "stage_voters c config (ideal_acks t c) (c\<lparr>c_replicas := R\<rparr>) = c\<lparr>c_replicas := R\<rparr>"
        by (simp add: stage_voters_def)
      then show ?thesis using Some None True by (simp add: commit_voters_def next_voters_def)
    next
      case False
      then show ?thesis
        using stage_ideal(2) [OF wf cfg _ None False sub, of t] Some None
        by (simp add: commit_voters_def next_voters_def)
    qed
  next
    case tv: (Some tv)
    then have "stage_voters c config (ideal_acks t c) (c\<lparr>c_replicas := R\<rparr>) = c\<lparr>c_replicas := R\<rparr>"
      by (simp add: stage_voters_def)
    then show ?thesis using Some tv ready by (simp add: commit_voters_def next_voters_def)
  qed
qed

lemma next_voters_facts:
  assumes wf: "contract_wf c" and cfg: "config_wf config" and sub: "voting_replicas config \<subseteq> c_replicas c"
    and nx: "next_voters config c = (V, T)"
  shows "finite V" "V \<noteq> {}" "V \<subseteq> c_replicas c" "\<And>tv. T = Some tv \<Longrightarrow> finite tv \<and> tv \<noteq> {} \<and> tv \<subseteq> c_replicas c"
proof -
  note wfd = contract_wfD [OF wf]
  have fin: "finite (voting_replicas config)" "voting_replicas config \<noteq> {}"
    using cfg voting_subset [of config] by (auto simp: config_wf_def intro: finite_subset)
  have "finite V \<and> V \<noteq> {} \<and> V \<subseteq> c_replicas c \<and> (\<forall>tv. T = Some tv \<longrightarrow> finite tv \<and> tv \<noteq> {} \<and> tv \<subseteq> c_replicas c)"
  proof (cases "c_temp_voters c")
    case None
    then show ?thesis
      using nx wfd(2-4) fin sub by (auto simp: next_voters_def split: if_splits)
  next
    case (Some tv)
    then show ?thesis
      using nx wfd(2-4) wfd(5) [OF Some] by (auto simp: next_voters_def split: if_splits)
  qed
  then show "finite V" "V \<noteq> {}" "V \<subseteq> c_replicas c" "\<And>tv. T = Some tv \<Longrightarrow> finite tv \<and> tv \<noteq> {} \<and> tv \<subseteq> c_replicas c"
    by blast+
qed

lemma up_to_date_loop_all:
  assumes "\<And>j. j < length cands \<Longrightarrow> fst (cands ! j) = r" and "i < length cands" and "n \<le> length cands"
  shows "up_to_date_loop cands i n = length cands"
  using assms
proof (induction cands i n rule: up_to_date_loop.induct)
  case (1 cands i n)
  show ?case
  proof (cases "n < length cands")
    case True
    then have "fst (cands ! n) = fst (cands ! i)" using "1.prems"(1) [of n] "1.prems"(1) [of i] "1.prems"(2) by simp
    then show ?thesis using "1.IH" "1.prems" True by (subst up_to_date_loop.simps) simp
  next
    case False
    then show ?thesis using "1.prems"(3) by (subst up_to_date_loop.simps) simp
  qed
qed

lemma eligible_all:
  assumes fin: "finite V" "V \<noteq> {}" and vis: "V \<subseteq> vis" and rep: "reporting acks V = V"
    and rank: "\<And>s. s \<in> V \<Longrightarrow> ack_rank acks s = r"
  shows "set (eligible_candidates (candidates acks V) vis V) = V"
proof -
  let ?c = "candidates acks V"
  note facts = candidates_facts [OF fin(1), where acks = acks]
  have len: "length ?c = card V"
  proof -
    have "set (map snd ?c) = V" using facts(1) rep by (auto simp: image_image)
    then show ?thesis using distinct_card [OF facts(2)] by simp
  qed
  have all: "fst (?c ! j) = r" if "j < length ?c" for j using facts(4) [OF that] rep rank by auto
  have "up_to_date_loop ?c i (i + 1) > card V div 2" if "i < length ?c" for i
  proof -
    have "0 < card V" using fin by (simp add: card_gt_0_iff)
    then show ?thesis using up_to_date_loop_all [of ?c r i "i + 1", OF all that] that by (simp add: len)
  qed
  then have "filter (\<lambda>i. snd (?c ! i) \<in> vis \<and> up_to_date_loop ?c i (i + 1) > card V div 2) [0..<length ?c] = [0..<length ?c]"
    using facts(4) rep vis by (intro filter_True) auto
  then have "set (eligible_candidates ?c vis V) = snd ` set ?c"
    by (force simp: eligible_candidates_def in_set_conv_nth)
  then show ?thesis using facts(1) rep by (auto simp: image_image)
qed


text \<open>What a step does to the primary of a healthy region.\<close>

definition next_primary :: "shard_t \<Rightarrow> contract_t \<Rightarrow> server_id set \<Rightarrow> primary_t option \<Rightarrow> bool" where
  "next_primary config c voting q \<longleftrightarrow>
     (case c_primary c of
        None \<Rightarrow> \<exists>s \<in> fst (next_voters config c). q = Some (new_primary s) \<and>
          (sh_primary_replica config \<in> fst (next_voters config c) \<longrightarrow> s = sh_primary_replica config)
      | Some p \<Rightarrow>
          if p_server p \<notin> voting then q = None
          else if p_server p = sh_primary_replica config then q = Some (new_primary (p_server p))
          else if p_hand_over p = Some (sh_primary_replica config) then q = None
          else if sh_primary_replica config \<in> voting \<and> sh_primary_replica config \<in> c_replicas c
          then q = Some (p\<lparr>p_hand_over := Some (sh_primary_replica config)\<rparr>)
          else q = Some (p\<lparr>p_hand_over := None\<rparr>))"

lemma primary_eqI: "p_server p = s \<Longrightarrow> p_hand_over p = None \<Longrightarrow> p = new_primary s"
  by (cases p) (simp add: new_primary_def)

lemma hand_over_ideal:
  assumes d: "c_primary d = Some p" and ready: "acked acks (p_server p) Primary_ready"
    and stream: "\<And>s. acked acks s Secondary_streaming \<longleftrightarrow> s \<in> R \<and> s \<noteq> p_server p"
  shows "\<exists>q. hand_over_step p config acks voting d = d\<lparr>c_primary := q\<rparr> \<and>
    (if p_server p = sh_primary_replica config then q = Some (new_primary (p_server p))
     else if p_hand_over p = Some (sh_primary_replica config) then q = None
     else if sh_primary_replica config \<in> voting \<and> sh_primary_replica config \<in> R
     then q = Some (p\<lparr>p_hand_over := Some (sh_primary_replica config)\<rparr>)
     else q = Some (p\<lparr>p_hand_over := None\<rparr>))"
proof -
  let ?s = "sh_primary_replica config"
  have set: "set_hand_over h d = d\<lparr>c_primary := Some (p\<lparr>p_hand_over := h\<rparr>)\<rparr>" for h
    using d by (simp add: set_hand_over_def)
  have same: "d\<lparr>c_primary := Some (p\<lparr>p_hand_over := None\<rparr>)\<rparr> = d" if "p_hand_over p = None"
    using d that by (cases d; cases p) simp
  consider (own) "p_server p = ?s" | (over) "p_server p \<noteq> ?s" "p_hand_over p = Some ?s"
    | (start) "p_server p \<noteq> ?s" "p_hand_over p \<noteq> Some ?s" by blast
  then show ?thesis
  proof cases
    case own
    then have new: "p\<lparr>p_hand_over := None\<rparr> = new_primary ?s" by (intro primary_eqI) simp_all
    show ?thesis
      using own same [unfolded new] by (cases "p_hand_over p") (auto simp: hand_over_step_def set new)
  next
    case over
    then show ?thesis using ready by (auto simp: hand_over_step_def)
  next
    case start
    then show ?thesis
      using same stream by (cases "p_hand_over p") (auto simp: hand_over_step_def set)
  qed
qed

lemma step_ideal:
  assumes wf: "contract_wf c" and cfg: "config_wf config" and sub: "voting_replicas config \<subseteq> c_replicas c"
    and norepair: "\<not> c_after_emergency_repair c" and nx: "next_voters config c = (V, T)"
  defines "all_voters \<equiv> V \<union> (case T of None \<Rightarrow> {} | Some tv \<Rightarrow> tv)"
  shows "\<exists>c'. coordinator_step config t c = Some c' \<and> contract_wf c' \<and> \<not> c_after_emergency_repair c' \<and>
    c_voters c' = V \<and> c_temp_voters c' = T \<and>
    c_replicas c' = (c_replicas c \<union> sh_all_replicas config) - (c_replicas c - sh_all_replicas config - all_voters) \<and>
    next_primary config c all_voters (c_primary c')"
proof -
  let ?A = "ideal_acks t c" and ?R = "c_replicas c \<union> sh_all_replicas config"
  let ?c3 = "c\<lparr>c_replicas := ?R, c_voters := V, c_temp_voters := T\<rparr>"
  note nv = next_voters_facts [OF wf cfg sub nx]
  have commit: "commit_voters c ?A (stage_voters c config ?A (c\<lparr>c_replicas := ?R\<rparr>)) = Some ?c3"
    using commit_ideal [OF wf cfg sub, of t ?R] nx by simp
  have voter: "is_voter ?c3 s \<longleftrightarrow> s \<in> all_voters" for s
    by (auto simp: is_voter_def all_voters_def split: option.splits)
  have av: "all_voters \<subseteq> c_replicas c" using nv(3,4) by (auto simp: all_voters_def split: option.splits)
  have vis: "visible_voters (\<lambda>_. True) ?c3 = all_voters"
    using visible_all [of ?c3] nv voter av by auto
  have gone: "obsolete_replicas c config ?c3 = c_replicas c - sh_all_replicas config - all_voters"
    using voter by (auto simp: obsolete_replicas_def)
  let ?R' = "?R - (c_replicas c - sh_all_replicas config - all_voters)"
  let ?c4 = "?c3\<lparr>c_replicas := ?R'\<rparr>"
  have calc: "coordinator_step config t c =
      map_option (replace_primary c config ?A all_voters
          (case c_primary c of None \<Rightarrow> False | Some p \<Rightarrow> p_server p \<in> c_replicas c - sh_all_replicas config - all_voters))
        (choose_primary c config ?A all_voters ?c4)"
    unfolding coordinator_step_def calculate_contract_unfold [OF commit] vis gone by simp
  obtain c' where c': "coordinator_step config t c = Some c'" "contract_wf c'"
    using calculate_contract_wf [OF wf cfg ideal_facts(1)] by (auto simp: coordinator_step_def)
  have "\<exists>q. c' = ?c4\<lparr>c_primary := q\<rparr> \<and> next_primary config c all_voters q"
  proof (cases "c_primary c")
    case None
    have rep: "reporting ?A V = V" using None nv(3) ideal_facts(3) by (auto simp: reporting_def)
    have el: "set (eligible_candidates (candidates ?A V) all_voters V) = V"
      using nv rep ideal_facts(6) by (intro eligible_all [where r = t]) (auto simp: all_voters_def)
    then have ne: "eligible_candidates (candidates ?A V) all_voters V \<noteq> []" using nv(2) by auto
    have cands: "sorted_candidates ?A V = Some (candidates ?A V)"
      unfolding candidates_def using nv(1,3)
      by (intro sorted_candidates_eq) (auto simp: ideal_acks_def split: if_splits)
    have acked: "ideal_acks t c s \<noteq> None" if "s \<in> all_voters" for s using av that by (auto simp: ideal_acks_def)
    have "\<exists>s \<in> V. choose_primary c config ?A all_voters ?c4 = Some (?c4\<lparr>c_primary := Some (new_primary s)\<rparr>) \<and>
        (sh_primary_replica config \<in> V \<longrightarrow> s = sh_primary_replica config)"
    proof (cases "sh_primary_replica config \<in> V")
      case True
      then show ?thesis using None norepair cands el by (auto simp: choose_primary_def elect_primary_def Let_def)
    next
      case False
      have "List.last (eligible_candidates (candidates ?A V) all_voters V) \<in> V" using el ne last_in_set by blast
      then show ?thesis
        using None norepair cands el ne acked [of "sh_primary_replica config"] False
        by (auto simp: choose_primary_def elect_primary_def Let_def)
    qed
    then show ?thesis
      using calc c'(1) None nx by (auto simp: replace_primary_def next_primary_def)
  next
    case (Some p)
    have p: "p_server p \<in> c_replicas c" by (rule contract_wfD(6) [OF wf Some])
    have ready: "acked ?A (p_server p) Primary_ready" using ideal_facts(4) p Some by auto
    have stream: "acked ?A s Secondary_streaming \<longleftrightarrow> s \<in> c_replicas c \<and> s \<noteq> p_server p" for s
      using ideal_facts(5) Some by auto
    have c4: "choose_primary c config ?A all_voters ?c4 = Some ?c4" using Some by (simp add: choose_primary_def)
    then have c'_eq: "c' = (if p_server p \<notin> all_voters then ?c4\<lparr>c_primary := None\<rparr>
        else hand_over_step p config ?A all_voters ?c4)"
      using calc c'(1) Some by (auto simp: replace_primary_def)
    obtain q where "hand_over_step p config ?A all_voters ?c4 = ?c4\<lparr>c_primary := q\<rparr>"
      "if p_server p = sh_primary_replica config then q = Some (new_primary (p_server p))
       else if p_hand_over p = Some (sh_primary_replica config) then q = None
       else if sh_primary_replica config \<in> all_voters \<and> sh_primary_replica config \<in> c_replicas c
       then q = Some (p\<lparr>p_hand_over := Some (sh_primary_replica config)\<rparr>)
       else q = Some (p\<lparr>p_hand_over := None\<rparr>)"
      using hand_over_ideal [of ?c4 p ?A "c_replicas c" config all_voters] Some ready stream by auto
    then show ?thesis
      using c'_eq Some by (cases "p_server p \<in> all_voters") (auto simp: next_primary_def)
  qed
  then obtain q where q: "c' = ?c4\<lparr>c_primary := q\<rparr>" "next_primary config c all_voters q" by blast
  show ?thesis
    using c' norepair q(2) by (intro exI [of _ c']) (simp add: q(1))
qed


section \<open>Convergence\<close>

definition healthy :: "shard_t \<Rightarrow> contract_t \<Rightarrow> bool" where
  "healthy config c \<longleftrightarrow>
     contract_wf c \<and> \<not> c_after_emergency_repair c \<and> sh_all_replicas config \<subseteq> c_replicas c"

definition voters_settled :: "shard_t \<Rightarrow> contract_t \<Rightarrow> bool" where
  "voters_settled config c \<longleftrightarrow>
     healthy config c \<and> c_voters c = voting_replicas config \<and> c_temp_voters c = None"

definition replicas_settled :: "shard_t \<Rightarrow> contract_t \<Rightarrow> bool" where
  "replicas_settled config c \<longleftrightarrow> voters_settled config c \<and> c_replicas c = sh_all_replicas config"

definition configured_contract :: "shard_t \<Rightarrow> contract_t" where
  "configured_contract config =
     \<lparr>c_replicas = sh_all_replicas config, c_voters = voting_replicas config, c_temp_voters = None,
      c_primary = Some (new_primary (sh_primary_replica config)), c_after_emergency_repair = False\<rparr>"

lemma healthy_step:
  assumes cfg: "config_wf config" and c: "healthy config c" and nx: "next_voters config c = (V, T)"
  shows "\<exists>c'. coordinator_step config t c = Some c' \<and> healthy config c' \<and> c_voters c' = V \<and> c_temp_voters c' = T \<and>
    c_replicas c' = c_replicas c - (c_replicas c - sh_all_replicas config - (V \<union> (case T of None \<Rightarrow> {} | Some tv \<Rightarrow> tv))) \<and>
    next_primary config c (V \<union> (case T of None \<Rightarrow> {} | Some tv \<Rightarrow> tv)) (c_primary c')"
proof -
  have sub: "voting_replicas config \<subseteq> c_replicas c" using c voting_subset [of config] by (auto simp: healthy_def)
  have wf: "contract_wf c" "\<not> c_after_emergency_repair c" using c by (auto simp: healthy_def)
  have R: "c_replicas c \<union> sh_all_replicas config = c_replicas c" using c by (auto simp: healthy_def)
  from step_ideal [OF wf(1) cfg sub wf(2) nx, of t, unfolded R] c
  show ?thesis by (auto simp: healthy_def)
qed

lemma elect_step:
  assumes "config_wf config" and "healthy config c" and "c_primary c = None"
  shows "\<exists>c'. coordinator_step config t c = Some c' \<and> healthy config c' \<and> c_primary c' \<noteq> None \<and>
    c_voters c' = c_voters c \<and> c_temp_voters c' = c_temp_voters c"
proof -
  have "next_voters config c = (c_voters c, c_temp_voters c)" using assms(3) by (simp add: next_voters_def)
  from healthy_step [OF assms(1,2) this, of t] show ?thesis
    using assms(3) by (auto simp: next_primary_def)
qed

lemma commit_step:
  assumes "config_wf config" and "healthy config c" and "c_primary c \<noteq> None" and "c_temp_voters c = Some tv"
  shows "\<exists>c'. coordinator_step config t c = Some c' \<and> healthy config c' \<and> c_voters c' = tv \<and> c_temp_voters c' = None"
proof -
  have "next_voters config c = (tv, None)" using assms(3,4) by (simp add: next_voters_def)
  from healthy_step [OF assms(1,2) this, of t] show ?thesis by auto
qed

lemma stage_step:
  assumes "config_wf config" and "healthy config c" and "c_primary c \<noteq> None" and "c_temp_voters c = None"
    and "c_voters c \<noteq> voting_replicas config"
  shows "\<exists>c'. coordinator_step config t c = Some c' \<and> healthy config c' \<and> c_temp_voters c' = Some (voting_replicas config)"
proof -
  have "next_voters config c = (c_voters c, Some (voting_replicas config))" using assms(3-5) by (simp add: next_voters_def)
  from healthy_step [OF assms(1,2) this, of t] show ?thesis by auto
qed

lemma start_to_healthy:
  assumes cfg: "config_wf config"
  shows "leads_to config t (\<lambda>c. contract_wf c \<and> \<not> c_after_emergency_repair c) (healthy config)"
proof (rule leads_to_step)
  fix c assume c: "contract_wf c \<and> \<not> c_after_emergency_repair c"
  then have wf: "contract_wf c" by simp
  obtain c3 c' where "calculate_contract c config (ideal_acks t c) (\<lambda>_. True) = Some c'"
    "c_replicas c3 = c_replicas c \<union> sh_all_replicas config"
    "c_replicas c' = c_replicas c3 - obsolete_replicas c config c3"
    "c_after_emergency_repair c' = c_after_emergency_repair c"
    by (rule calculate_contract_next [OF wf cfg ideal_facts(1)])
  moreover have "contract_wf c'"
    using calculate_contract_wf [OF wf cfg ideal_facts(1), of t "\<lambda>_. True"] calculation(1) by simp
  ultimately show "\<exists>c'. coordinator_step config t c = Some c' \<and> healthy config c'"
    using c by (auto simp: healthy_def coordinator_step_def obsolete_replicas_def)
qed

lemma healthy_to_primary:
  assumes "config_wf config"
  shows "leads_to config t (\<lambda>c. healthy config c \<and> K (c_voters c) (c_temp_voters c))
    (\<lambda>c. healthy config c \<and> K (c_voters c) (c_temp_voters c) \<and> c_primary c \<noteq> None)"
    (is "leads_to _ _ ?P ?Q")
proof (rule leads_to_cases [where ?P1.0 = "\<lambda>c. ?P c \<and> c_primary c = None" and ?P2.0 = ?Q])
  show "leads_to config t (\<lambda>c. ?P c \<and> c_primary c = None) ?Q"
  proof (rule leads_to_step)
    fix c assume "?P c \<and> c_primary c = None"
    then show "\<exists>c'. coordinator_step config t c = Some c' \<and> ?Q c'"
      using elect_step [OF assms, of c t] by auto
  qed
qed (auto intro: leads_to_refl)

lemma staged_to_committed:
  assumes "config_wf config"
  shows "leads_to config t (\<lambda>c. healthy config c \<and> c_temp_voters c = Some tv)
    (\<lambda>c. healthy config c \<and> c_temp_voters c = None \<and> c_voters c = tv)"
proof (rule leads_to_trans [OF healthy_to_primary [OF assms, where K = "\<lambda>V T. T = Some tv"] leads_to_step])
  fix c assume "healthy config c \<and> c_temp_voters c = Some tv \<and> c_primary c \<noteq> None"
  then show "\<exists>c'. coordinator_step config t c = Some c' \<and> healthy config c' \<and> c_temp_voters c' = None \<and> c_voters c' = tv"
    using commit_step [OF assms, of c tv t] by auto
qed

lemma unstaged_to_settled:
  assumes cfg: "config_wf config"
  shows "leads_to config t (\<lambda>c. healthy config c \<and> c_temp_voters c = None) (voters_settled config)"
proof (rule leads_to_cases [where ?P1.0 = "voters_settled config"
      and ?P2.0 = "\<lambda>c. healthy config c \<and> c_temp_voters c = None \<and> c_voters c \<noteq> voting_replicas config"])
  let ?staged = "\<lambda>c. healthy config c \<and> c_temp_voters c = Some (voting_replicas config)"
  note primary = healthy_to_primary [OF cfg, where K = "\<lambda>V T. T = None \<and> V \<noteq> voting_replicas config" and t = t]
  have stage: "leads_to config t (\<lambda>c. healthy config c \<and>
      (c_temp_voters c = None \<and> c_voters c \<noteq> voting_replicas config) \<and> c_primary c \<noteq> None) ?staged"
  proof (rule leads_to_step)
    fix c assume "healthy config c \<and> (c_temp_voters c = None \<and> c_voters c \<noteq> voting_replicas config) \<and> c_primary c \<noteq> None"
    then show "\<exists>c'. coordinator_step config t c = Some c' \<and> ?staged c'"
      using stage_step [OF cfg, of c t] by auto
  qed
  have settle: "leads_to config t (\<lambda>c. healthy config c \<and> c_temp_voters c = None \<and> c_voters c = voting_replicas config)
      (voters_settled config)"
    by (rule leads_to_refl) (simp add: voters_settled_def)
  show "leads_to config t
    (\<lambda>c. healthy config c \<and> c_temp_voters c = None \<and> c_voters c \<noteq> voting_replicas config) (voters_settled config)"
    by (rule leads_to_trans [OF leads_to_trans [OF primary stage] leads_to_trans [OF staged_to_committed [OF cfg] settle]])
qed (auto intro: leads_to_refl simp: voters_settled_def)

lemma healthy_to_settled:
  assumes cfg: "config_wf config"
  shows "leads_to config t (healthy config) (voters_settled config)"
proof (rule leads_to_cases [where ?P1.0 = "\<lambda>c. healthy config c \<and> c_temp_voters c = None"
      and ?P2.0 = "\<lambda>c. healthy config c \<and> c_temp_voters c \<noteq> None"])
  have unstage: "leads_to config t (\<lambda>c. healthy config c \<and> c_temp_voters c = Some tv)
      (\<lambda>c. healthy config c \<and> c_temp_voters c = None)" for tv
    by (rule leads_to_trans [OF staged_to_committed [OF cfg] leads_to_refl]) simp
  have "leads_to config t (\<lambda>c. healthy config c \<and> c_temp_voters c \<noteq> None) (\<lambda>c. healthy config c \<and> c_temp_voters c = None)"
    unfolding leads_to_def
  proof (intro allI impI)
    fix c assume "healthy config c \<and> c_temp_voters c \<noteq> None"
    then obtain tv where "healthy config c \<and> c_temp_voters c = Some tv" by blast
    with unstage [of tv] show "\<exists>n c'. coordinator_run config t n c = Some c' \<and> healthy config c' \<and> c_temp_voters c' = None"
      unfolding leads_to_def by blast
  qed
  then show "leads_to config t (\<lambda>c. healthy config c \<and> c_temp_voters c \<noteq> None) (voters_settled config)"
    by (rule leads_to_trans [OF _ unstaged_to_settled [OF cfg]])
qed (auto intro: unstaged_to_settled [OF cfg])

lemma settled_step:
  assumes cfg: "config_wf config" and c: "voters_settled config c"
  shows "\<exists>c'. coordinator_step config t c = Some c' \<and> replicas_settled config c' \<and>
    next_primary config c (voting_replicas config) (c_primary c')"
proof -
  have c': "healthy config c" "c_voters c = voting_replicas config" "c_temp_voters c = None"
    using c by (auto simp: voters_settled_def)
  have nx: "next_voters config c = (voting_replicas config, None)" using c' by (simp add: next_voters_def)
  have "c_replicas c - (c_replicas c - sh_all_replicas config - voting_replicas config) = sh_all_replicas config"
    using c'(1) voting_subset [of config] by (auto simp: healthy_def)
  with healthy_step [OF cfg c'(1) nx, of t] show ?thesis
    by (auto simp: replicas_settled_def voters_settled_def)
qed

lemma settled_to_configured:
  assumes cfg: "config_wf config" and prim: "sh_primary_replica config \<in> voting_replicas config"
  shows "leads_to config t (replicas_settled config) (\<lambda>c. c = configured_contract config)"
proof -
  let ?s = "sh_primary_replica config"
  let ?S = "\<lambda>P c. replicas_settled config c \<and> P (c_primary c)"
  have final: "c = configured_contract config"
    if "replicas_settled config c" "c_primary c = Some (new_primary ?s)" for c
    using that by (cases c) (simp add: replicas_settled_def voters_settled_def healthy_def configured_contract_def)
  have step: "\<exists>c'. coordinator_step config t c = Some c' \<and> replicas_settled config c' \<and>
      next_primary config c (voting_replicas config) (c_primary c')" if "replicas_settled config c" for c
    using settled_step [OF cfg] that by (simp add: replicas_settled_def)
  have nv: "fst (next_voters config c) = voting_replicas config" if "replicas_settled config c" for c
    using that by (simp add: replicas_settled_def voters_settled_def next_voters_def)
  have mem: "?s \<in> c_replicas c" if "replicas_settled config c" for c
    using that prim voting_subset [of config] by (auto simp: replicas_settled_def)
  have none: "leads_to config t (?S (\<lambda>q. q = None)) (\<lambda>c. c = configured_contract config)"
  proof (rule leads_to_step)
    fix c assume c: "?S (\<lambda>q. q = None) c"
    then obtain c' where "coordinator_step config t c = Some c'" "replicas_settled config c'"
      "next_primary config c (voting_replicas config) (c_primary c')" using step by blast
    then show "\<exists>c'. coordinator_step config t c = Some c' \<and> c' = configured_contract config"
      using c nv [of c] prim final by (auto simp: next_primary_def)
  qed
  have over: "leads_to config t (?S (\<lambda>q. \<exists>p. q = Some p \<and> p_server p \<noteq> ?s \<and>
      (p_server p \<notin> voting_replicas config \<or> p_hand_over p = Some ?s))) (?S (\<lambda>q. q = None))"
  proof (rule leads_to_step)
    fix c assume c: "?S (\<lambda>q. \<exists>p. q = Some p \<and> p_server p \<noteq> ?s \<and>
      (p_server p \<notin> voting_replicas config \<or> p_hand_over p = Some ?s)) c"
    then obtain c' where "coordinator_step config t c = Some c'" "replicas_settled config c'"
      "next_primary config c (voting_replicas config) (c_primary c')" using step by blast
    then show "\<exists>c'. coordinator_step config t c = Some c' \<and> ?S (\<lambda>q. q = None) c'"
      using c by (auto simp: next_primary_def split: if_splits)
  qed
  have start: "leads_to config t (?S (\<lambda>q. \<exists>p. q = Some p \<and> p_server p \<noteq> ?s \<and>
      \<not> (p_server p \<notin> voting_replicas config \<or> p_hand_over p = Some ?s)))
    (?S (\<lambda>q. \<exists>p. q = Some p \<and> p_server p \<noteq> ?s \<and> (p_server p \<notin> voting_replicas config \<or> p_hand_over p = Some ?s)))"
  proof (rule leads_to_step)
    fix c assume c: "?S (\<lambda>q. \<exists>p. q = Some p \<and> p_server p \<noteq> ?s \<and>
      \<not> (p_server p \<notin> voting_replicas config \<or> p_hand_over p = Some ?s)) c"
    then obtain c' where "coordinator_step config t c = Some c'" "replicas_settled config c'"
      "next_primary config c (voting_replicas config) (c_primary c')" using step by blast
    then show "\<exists>c'. coordinator_step config t c = Some c' \<and> ?S (\<lambda>q. \<exists>p. q = Some p \<and> p_server p \<noteq> ?s \<and>
      (p_server p \<notin> voting_replicas config \<or> p_hand_over p = Some ?s)) c'"
      using c prim mem [of c] by (auto simp: next_primary_def split: if_splits)
  qed
  have own: "leads_to config t (?S (\<lambda>q. \<exists>p. q = Some p \<and> p_server p = ?s)) (\<lambda>c. c = configured_contract config)"
  proof (rule leads_to_step)
    fix c assume c: "?S (\<lambda>q. \<exists>p. q = Some p \<and> p_server p = ?s) c"
    then obtain c' where "coordinator_step config t c = Some c'" "replicas_settled config c'"
      "next_primary config c (voting_replicas config) (c_primary c')" using step by blast
    then show "\<exists>c'. coordinator_step config t c = Some c' \<and> c' = configured_contract config"
      using c prim final by (auto simp: next_primary_def split: if_splits)
  qed
  note handed = leads_to_trans [OF over none]
  show ?thesis
    using none own handed leads_to_trans [OF start handed] unfolding leads_to_def by (metis option.exhaust)
qed

lemma configured_fixed:
  assumes cfg: "config_wf config" and prim: "sh_primary_replica config \<in> voting_replicas config"
  shows "coordinator_step config t (configured_contract config) = Some (configured_contract config)"
proof -
  let ?c = "configured_contract config"
  have "contract_wf ?c"
    using cfg prim voting_subset [of config]
    by (auto simp: contract_wf_def config_wf_def configured_contract_def contract_sanity_check_def new_primary_def is_voter_def)
  then have "voters_settled config ?c"
    by (simp add: voters_settled_def healthy_def configured_contract_def)
  from settled_step [OF cfg this, of t]
  obtain c' where c': "coordinator_step config t ?c = Some c'" "replicas_settled config c'"
    "next_primary config ?c (voting_replicas config) (c_primary c')" by blast
  moreover have "c_primary c' = Some (new_primary (sh_primary_replica config))"
    using c'(3) prim by (simp add: next_primary_def configured_contract_def new_primary_def)
  ultimately have "c' = ?c"
    by (cases c') (simp add: replicas_settled_def voters_settled_def healthy_def configured_contract_def)
  with c'(1) show ?thesis by simp
qed

lemma configured_run:
  assumes "config_wf config" and "sh_primary_replica config \<in> voting_replicas config"
  shows "coordinator_run config t n (configured_contract config) = Some (configured_contract config)"
  by (induction n) (simp_all add: configured_fixed [OF assms])

text \<open>
  Property C7. The coordinator makes progress. From every well-formed contract that is not under
  emergency repair, in a cluster whose servers are connected and answer the contracts they are given,
  finitely many calls of \<open>calculate_contract()\<close> reach the contract of the user's configuration
  (exactly its replicas, its voting replicas as voters, no staged voters, its primary with no
  hand-over pending), none of the calls on the way aborts, and all later calls keep that contract.
\<close>

theorem contract_converges:
  assumes "contract_wf c" and "\<not> c_after_emergency_repair c"
    and cfg: "config_wf config" and prim: "sh_primary_replica config \<in> voting_replicas config"
  shows "\<exists>n. \<forall>k. coordinator_run config t (n + k) c = Some (configured_contract config)"
proof -
  have settled: "leads_to config t (voters_settled config) (replicas_settled config)"
    using settled_step [OF cfg] by (intro leads_to_step) blast
  have "leads_to config t (\<lambda>c. contract_wf c \<and> \<not> c_after_emergency_repair c) (\<lambda>c. c = configured_contract config)"
    by (rule leads_to_trans [OF leads_to_trans [OF leads_to_trans
      [OF start_to_healthy [OF cfg] healthy_to_settled [OF cfg]] settled] settled_to_configured [OF cfg prim]])
  then obtain n where "coordinator_run config t n c = Some (configured_contract config)"
    using assms(1,2) unfolding leads_to_def by blast
  then show ?thesis
    using coordinator_run_add configured_run [OF cfg prim] by (intro exI [of _ n]) simp
qed

definition grown_shard :: shard_t where
  "grown_shard =
     \<lparr>sh_all_replicas = {srv 4, srv 5, srv 6}, sh_nonvoting_replicas = {srv 5}, sh_primary_replica = srv 6\<rparr>"

theorem contract_converges_witness:
  "(\<exists>n. \<forall>k. coordinator_run grown_shard 9 (n + k) demo_contract = Some (configured_contract grown_shard)) \<and>
   configured_contract grown_shard \<noteq> demo_contract"
proof -
  have cfg: "config_wf grown_shard" "sh_primary_replica grown_shard \<in> voting_replicas grown_shard"
    by (auto simp: config_wf_def grown_shard_def voting_replicas_def srv_def from_server_uuid_def)
  have "\<not> c_after_emergency_repair demo_contract" "configured_contract grown_shard \<noteq> demo_contract"
    by (auto simp: demo_contract_def configured_contract_def)
  then show ?thesis using contract_converges [OF demo_wf(1) _ cfg, of 9] by blast
qed

end
