(* ===== verification/Region_Visit.thy ===== *)
theory Region_Visit
  imports Region_Map
begin

text \<open>
  What \<open>region_map_t::visit()\<close> calls its callback with: sub-regions that cut up the visited region,
  each with the value the map holds on it. The components that walk over region maps rest on this.
\<close>

section \<open>Edges\<close>

text \<open>The keys of a \<open>store_key_t\<close> fit its buffer; so do the edges of a map built from them.\<close>

definition edge_ok :: "right_bound \<Rightarrow> bool" where
  "edge_ok b \<longleftrightarrow> (case b of Unbounded \<Rightarrow> True | Bound k \<Rightarrow> key_ok k)"

definition edges_ok :: "'v region_map \<Rightarrow> bool" where
  "edges_ok m \<longleftrightarrow> list_all edge_ok (rm_left (rgm_inner m) # map fst (rm_zones (rgm_inner m)))"

lemma visit_loop_edges:
  "visit_loop prev r zs = Some ps \<Longrightarrow> (a, b, v) \<in> set ps \<Longrightarrow>
    (a = prev \<or> a \<in> fst ` set zs) \<and> (b = r \<or> b \<in> fst ` set zs)"
proof (induction prev r zs arbitrary: ps rule: visit_loop.induct)
  case (2 prev r k v' zs)
  then show ?case by (auto split: if_splits)
qed simp

lemma rm_visit_edges:
  assumes "rm_visit m l r = Some ps" and "(a, b, v) \<in> set ps"
  shows "(a = l \<or> a \<in> fst ` set (rm_zones m)) \<and> (b = r \<or> b \<in> fst ` set (rm_zones m))"
proof -
  have "set (omap_upper_bound l (rm_zones m)) \<subseteq> set (rm_zones m)"
    unfolding omap_upper_bound_def by (rule set_dropWhileD [THEN subsetI])
  then show ?thesis
    using assms visit_loop_edges [of l r "omap_upper_bound l (rm_zones m)" ps a b v]
    by (auto simp: rm_visit_def split: if_splits)
qed

section \<open>Cutting up a product\<close>

lemma concat_cuts:
  assumes "tiles l r cells"
    and empty: "\<And>a. S a a = {}"
    and additive: "\<And>a b c. a < b \<Longrightarrow> b \<le> c \<Longrightarrow> S a c = S a b \<union> S b c \<and> S a b \<inter> S b c = {}"
    and step: "\<And>a b v. (a, b, v) \<in> set cells \<Longrightarrow> \<exists>qs. f (a, b, v) = Some qs \<and> cuts points ok (S a b) (map fst qs) \<and> list_all (Q v) qs"
  shows "\<exists>ps. map_concat_opt f cells = Some ps \<and> cuts points ok (S l r) (map fst ps) \<and>
    (\<forall>q \<in> set ps. \<exists>a b v. (a, b, v) \<in> set cells \<and> points (fst q) \<subseteq> S a b \<and> Q v q)"
  using assms(1) step
proof (induction l r cells rule: tiles.induct)
  case (1 l r)
  then show ?case by (simp add: empty cuts_def disjoint_pieces_def)
next
  case (2 l r a b v cells)
  have t: "a = l" "l < b" "tiles b r cells" "b \<le> r" using "2.prems"(1) tiles_le by auto
  obtain qs where qs: "f (a, b, v) = Some qs" "cuts points ok (S l b) (map fst qs)" "list_all (Q v) qs"
    using "2.prems"(2) [of a b v] t(1) by auto
  have "\<exists>ps. map_concat_opt f cells = Some ps \<and> cuts points ok (S b r) (map fst ps) \<and>
    (\<forall>q \<in> set ps. \<exists>a b v. (a, b, v) \<in> set cells \<and> points (fst q) \<subseteq> S a b \<and> Q v q)"
    using "2.prems"(2) by (intro "2.IH" [OF t(3)]) simp
  then obtain ps where ps: "map_concat_opt f cells = Some ps" "cuts points ok (S b r) (map fst ps)"
    "\<And>q. q \<in> set ps \<Longrightarrow> \<exists>a b v. (a, b, v) \<in> set cells \<and> points (fst q) \<subseteq> S a b \<and> Q v q"
    by blast
  have "cuts points ok (S l r) (map fst qs @ map fst ps)"
    using cuts_append [OF qs(2) ps(2)] additive [OF t(2,4)] by simp
  moreover have "\<exists>a' b' v'. (a', b', v') \<in> set ((a, b, v) # cells) \<and> points (fst q) \<subseteq> S a' b' \<and> Q v' q"
    if q: "q \<in> set (qs @ ps)" for q
  proof (cases "q \<in> set qs")
    case True
    then have "points (fst q) \<subseteq> S a b" using cuts_subset [OF qs(2)] t(1) by auto
    moreover have "Q v q" using True qs(3) by (simp add: list_all_iff)
    ultimately show ?thesis by (intro exI [of _ a] exI [of _ b] exI [of _ v]) simp
  next
    case False
    then have "q \<in> set ps" using q by simp
    then show ?thesis using ps(3) [of q] by (meson list.set_intros(2))
  qed
  ultimately show ?case using qs(1) ps(1) by simp
qed

section \<open>The pieces of a region\<close>

definition keys_between :: "right_bound \<Rightarrow> right_bound \<Rightarrow> store_key set" where
  "keys_between l r = {k. key_ok k \<and> l \<le> Bound k \<and> Bound k < r}"

lemma sub_region_points:
  "l < r \<Longrightarrow> region_points (sub_region l r b e) = {h. b \<le> h \<and> h < e} \<times> keys_between l r"
  by (cases l) (auto simp: region_points_def sub_region_def key_set_def keys_between_def contains_key_iff)

lemma sub_region_ok:
  assumes "l < r" and "b < e" and "edge_ok l" and "edge_ok r"
  shows "hash_region_ok (sub_region l r b e)" and "region_points (sub_region l r b e) \<noteq> {}"
proof -
  obtain k where l: "l = Bound k" using assms(1) by (cases l) auto
  show "hash_region_ok (sub_region l r b e)"
    using assms l
    by (auto simp: hash_region_ok_def sub_region_def key_range_ok_def edge_ok_def key_range_is_empty_def
        split: right_bound.splits)
  have "(b, k) \<in> region_points (sub_region l r b e)"
    using assms l by (simp add: sub_region_points keys_between_def edge_ok_def)
  then show "region_points (sub_region l r b e) \<noteq> {}" by blast
qed

text \<open>\<open>visit()\<close> cuts up the region and hands out the values the map holds.\<close>

lemma region_map_visit_cuts:
  assumes m: "region_map_ok m" "edges_ok m" and inside: "region_inside region m"
    and region: "hash_region_ok region" "region_points region \<noteq> {}"
  shows "\<exists>ps. region_map_visit m region = Some ps \<and>
    cuts region_points hash_region_ok (region_points region) (map fst ps) \<and>
    (\<forall>(r, v) \<in> set ps. \<forall>h k. (h, k) \<in> region_points r \<longrightarrow> region_map_at m (Bound k, h) = Some v)"
proof -
  let ?m = "rgm_inner m" and ?l = "Bound (kr_left (hr_inner region))" and ?r = "kr_right (hr_inner region)"
  let ?b = "hr_beg region" and ?e = "hr_end region"
  have ms: "slices_ok (rgm_hash_beg m) (rgm_hash_end m) ?m" using m(1) by (simp add: region_map_ok_def)
  note edges = inside [unfolded region_inside_iff]
  have ok: "rm_ok ?m" "rm_left ?m \<le> ?l" "?l \<le> ?r" "?r \<le> right_edge ?m"
    using slices_ok_rm_ok [OF ms] edges by simp_all
  obtain cells where cells: "rm_visit ?m ?l ?r = Some cells" "tiles ?l ?r cells"
    "\<And>a b v e. (a, b, v) \<in> set cells \<Longrightarrow> a \<le> e \<Longrightarrow> e < b \<Longrightarrow> rm_at ?m e = Some v"
    using rm_visit_tiles [OF ok] by blast
  have bounds: "edge_ok ?l" "edge_ok ?r"
    using region by (auto simp: hash_region_ok_def edge_ok_def key_range_ok_def split: right_bound.splits)
  let ?S = "\<lambda>l r. {h. ?b \<le> h \<and> h < ?e} \<times> keys_between l r"
  let ?f = "\<lambda>(l, r, hrm). do { pieces \<leftarrow> rm_visit hrm ?b ?e;
      map_concat_opt (\<lambda>(b, e, v). do { reg \<leftarrow> piece_region l r b e; Some [(reg, v)] }) pieces }"
  let ?Q = "\<lambda>hrm q. \<forall>h k. (h, k) \<in> region_points (fst q) \<longrightarrow> rm_at hrm h = Some (snd q)"
  have step: "\<exists>qs. ?f (l, r, hrm) = Some qs \<and> cuts region_points hash_region_ok (?S l r) (map fst qs) \<and> list_all (?Q hrm) qs"
    if cell: "(l, r, hrm) \<in> set cells" for l r hrm
  proof -
    have lr: "?l \<le> l" "l < r" using tiles_bounds [OF cells(2) cell] by auto
    have "edge_ok l" "edge_ok r"
      using rm_visit_edges [OF cells(1) cell] bounds m(2) by (auto simp: edges_ok_def list_all_iff)
    note sub = sub_region_ok [OF lr(2) _ this]
    have "rm_at ?m l = Some hrm" using cells(3) [OF cell order.refl lr(2)] .
    then have hrm: "rm_ok hrm" "rm_left hrm \<le> ?b" "?b \<le> ?e" "?e \<le> right_edge hrm"
      using slice_okD [OF ms] edges by (auto simp: slice_ok_def)
    obtain pieces where pieces: "rm_visit hrm ?b ?e = Some pieces" "tiles ?b ?e pieces"
      "\<And>a b v e. (a, b, v) \<in> set pieces \<Longrightarrow> a \<le> e \<Longrightarrow> e < b \<Longrightarrow> rm_at hrm e = Some v"
      using rm_visit_tiles [OF hrm] by blast
    let ?g = "\<lambda>(b, e, v). do { reg \<leftarrow> piece_region l r b e; Some [(reg, v)] }"
    have "\<exists>ps. map_concat_opt ?g pieces = Some ps \<and> cuts region_points hash_region_ok (?S l r) (map fst ps) \<and>
      (\<forall>q \<in> set ps. \<exists>a b v. (a, b, v) \<in> set pieces \<and> region_points (fst q) \<subseteq> {h. a \<le> h \<and> h < b} \<times> keys_between l r \<and> v = snd q)"
    proof (rule concat_cuts [OF pieces(2), where Q = "\<lambda>v q. v = snd q"])
      fix a b v assume piece: "(a, b, v) \<in> set pieces"
      then have ab: "a < b" using tiles_bounds [OF pieces(2)] by auto
      show "\<exists>qs. ?g (a, b, v) = Some qs \<and>
          cuts region_points hash_region_ok ({h. a \<le> h \<and> h < b} \<times> keys_between l r) (map fst qs) \<and>
          list_all (\<lambda>q. v = snd q) qs"
        using sub [OF ab] lr ab by (simp add: piece_region_eq cuts_def disjoint_pieces_def sub_region_points)
    qed auto
    then obtain ps where ps: "map_concat_opt ?g pieces = Some ps" "cuts region_points hash_region_ok (?S l r) (map fst ps)"
      "\<And>q. q \<in> set ps \<Longrightarrow> \<exists>a b. (a, b, snd q) \<in> set pieces \<and> region_points (fst q) \<subseteq> {h. a \<le> h \<and> h < b} \<times> keys_between l r"
      by blast
    have "?Q hrm q" if "q \<in> set ps" for q
      using ps(3) [OF that] pieces(3) by blast
    then show ?thesis using ps(1,2) pieces(1) by (simp add: list_all_iff)
  qed
  have "\<exists>ps. map_concat_opt ?f cells = Some ps \<and> cuts region_points hash_region_ok (?S ?l ?r) (map fst ps) \<and>
    (\<forall>q \<in> set ps. \<exists>a b v. (a, b, v) \<in> set cells \<and> region_points (fst q) \<subseteq> ?S a b \<and> ?Q v q)"
  proof (rule concat_cuts [OF cells(2), where Q = ?Q])
    show "?S a a = {}" for a by (auto simp: keys_between_def)
    show "?S a c = ?S a b \<union> ?S b c \<and> ?S a b \<inter> ?S b c = {}" if "a < b" "b \<le> c" for a b c
      using that by (auto simp: keys_between_def)
  qed (rule step)
  then obtain ps where ps: "map_concat_opt ?f cells = Some ps" "cuts region_points hash_region_ok (?S ?l ?r) (map fst ps)"
    "\<And>q. q \<in> set ps \<Longrightarrow> \<exists>a b v. (a, b, v) \<in> set cells \<and> region_points (fst q) \<subseteq> ?S a b \<and> ?Q v q" by blast
  have "region_map_at m (Bound k, h) = Some v" if q: "(r, v) \<in> set ps" and p: "(h, k) \<in> region_points r" for r v h k
  proof -
    obtain a b hrm where c: "(a, b, hrm) \<in> set cells" "region_points r \<subseteq> ?S a b" "?Q hrm (r, v)"
      using ps(3) [OF q] by auto
    then have "a \<le> Bound k" "Bound k < b" "rm_at hrm h = Some v" using p by (auto simp: keys_between_def)
    then show ?thesis using cells(3) [OF c(1)] by (simp add: region_map_at_def inner_at_def)
  qed
  moreover have "?S ?l ?r = region_points region"
    by (auto simp: region_points_def key_set_def keys_between_def contains_key_iff)
  moreover have "region_map_visit m region = Some ps" using cells(1) ps(1) by (simp add: region_map_visit_def)
  ultimately show ?thesis using ps(2) by (intro exI [of _ ps]) auto
qed

end
