(* ===== verification/Branch_History.thy ===== *)
theory Branch_History
  imports Cluster_Types Region_Visit
begin

text \<open>
  \<open>clustering/immediate_consistency/history\<close> and \<open>clustering/table_contract/branch_history_gc\<close>:
  birth certificates of branches, the readers of a branch history, the export of the history a
  branch depends on, and the copying and marking the garbage collection of the history rests on.
  A \<open>missing_branch_exc_t\<close> of \<open>get_branch()\<close> is \<open>None\<close>.
\<close>

section \<open>Histories and their readers\<close>

record birth_certificate =
  bc_initial_timestamp :: state_timestamp
  bc_origin :: "version_t region_map"

type_synonym branch_history = "(branch_id, birth_certificate) omap"

text \<open>The interface \<open>branch_history_reader_t\<close>.\<close>

record branch_reader =
  rd_get_branch :: "branch_id \<Rightarrow> birth_certificate option"
  rd_is_branch_known :: "branch_id \<Rightarrow> bool"

definition history_get_branch :: "branch_history \<Rightarrow> branch_id \<Rightarrow> birth_certificate option" where
  "history_get_branch h branch = map_of h branch"

definition history_is_branch_known :: "branch_history \<Rightarrow> branch_id \<Rightarrow> bool" where
  "history_is_branch_known h branch \<longleftrightarrow> map_of h branch \<noteq> None"

definition history_reader :: "branch_history \<Rightarrow> branch_reader" where
  "history_reader h = \<lparr>rd_get_branch = history_get_branch h, rd_is_branch_known = history_is_branch_known h\<rparr>"

definition combiner_get_branch :: "branch_reader \<Rightarrow> branch_reader \<Rightarrow> branch_id \<Rightarrow> birth_certificate option" where
  "combiner_get_branch r1 r2 branch =
     (if rd_is_branch_known r1 branch then rd_get_branch r1 branch else rd_get_branch r2 branch)"

definition combiner_is_branch_known :: "branch_reader \<Rightarrow> branch_reader \<Rightarrow> branch_id \<Rightarrow> bool" where
  "combiner_is_branch_known r1 r2 branch \<longleftrightarrow> rd_is_branch_known r1 branch \<or> rd_is_branch_known r2 branch"

definition combiner :: "branch_reader \<Rightarrow> branch_reader \<Rightarrow> branch_reader" where
  "combiner r1 r2 =
     \<lparr>rd_get_branch = combiner_get_branch r1 r2, rd_is_branch_known = combiner_is_branch_known r1 r2\<rparr>"

text \<open>\<open>origin.visit(origin.get_domain(), ...)\<close>\<close>

definition origin_versions :: "birth_certificate \<Rightarrow> version_t list option" where
  "origin_versions bc =
     do {
       d \<leftarrow> get_domain (bc_origin bc);
       pieces \<leftarrow> region_map_visit (bc_origin bc) d;
       Some (map snd pieces)
     }"

definition insert_branches :: "(version_t \<Rightarrow> bool) \<Rightarrow> version_t list \<Rightarrow> branch_id set \<Rightarrow> branch_id set" where
  "insert_branches P vs S = fold (\<lambda>v S. if P v then insert (v_branch v) S else S) vs S"

lemma insert_branches_eq [simp]: "insert_branches P vs S = S \<union> v_branch ` {v \<in> set vs. P v}"
  by (induction vs arbitrary: S) (auto simp: insert_branches_def)

lemma insert_branches_shrinks:
  fixes S :: "branch_id set"
  assumes "b \<in> S" and "b \<in> D" and "\<And>v. P v \<Longrightarrow> v_branch v \<notin> D"
  shows "card (insert_branches P vs (S - {b}) \<inter> D) < card (S \<inter> D)"
  using assms by (intro psubset_card_mono) auto

section \<open>Exporting\<close>

lemma card_done:
  fixes D :: "uuid_u set"
  shows "b \<notin> D \<Longrightarrow> card (- insert b D) < card (- D)"
  by (rule psubset_card_mono) auto

text \<open>Every round processes a new branch or forgets one that had been processed already.\<close>

function export_loop ::
  "branch_reader \<Rightarrow> branch_history \<Rightarrow> branch_id set \<Rightarrow> branch_id set \<Rightarrow> branch_history option" where
  "export_loop rd out to_process done =
     (if to_process = {} then Some out
      else
        let next = Min to_process; to_process = to_process - {next}; done = insert next done
        in
          if rd_is_branch_known rd next then
            (case rd_get_branch rd next of
               None \<Rightarrow> None
             | Some bc \<Rightarrow>
                 if map_of out next \<noteq> None then None
                 else
                   let out = omap_insert next bc out
                   in do {
                     vs \<leftarrow> origin_versions bc;
                     export_loop rd out
                       (insert_branches (\<lambda>v. \<not> is_nil (v_branch v) \<and> map_of out (v_branch v) = None \<and>
                          v_branch v \<notin> done) vs to_process) done
                   })
          else export_loop rd out to_process done)"
  by pat_completeness auto

termination export_loop
proof (relation "measures [\<lambda>(rd, out, tp, dn). card (- dn), \<lambda>(rd, out, tp, dn). card (tp \<inter> dn)]", goal_cases)
  case 1
  show ?case by simp
next
  case (2 rd out tp dn b tp' dn' bc out' vs)
  have b: "b \<in> tp" using 2(1,2) Min_in [of tp] by simp
  show ?case
  proof (cases "b \<in> dn")
    case True
    then have dn': "dn' = dn" and tp': "tp' = tp - {b}" using 2 by auto
    show ?thesis
      by (simp add: dn' tp' del: insert_branches_eq) (rule insert_branches_shrinks [OF b True], simp)
  next
    case False
    have dn': "dn' = insert b dn" using 2(4) by simp
    show ?thesis using card_done [OF False] by (simp add: dn')
  qed
next
  case (3 rd out tp dn b tp' dn')
  have b: "b \<in> tp" using 3(1,2) Min_in [of tp] by simp
  show ?case
  proof (cases "b \<in> dn")
    case True
    then have "dn' = dn" "tp' \<inter> dn \<subset> tp \<inter> dn" using 3(3,4) b by auto
    then show ?thesis by (simp add: psubset_card_mono)
  next
    case False
    have dn': "dn' = insert b dn" using 3(4) by simp
    show ?thesis using card_done [OF False] by (simp add: dn')
  qed
qed

declare export_loop.simps [simp del]

definition export_branch_history :: "branch_reader \<Rightarrow> branch_id \<Rightarrow> branch_history \<Rightarrow> branch_history option" where
  "export_branch_history rd branch out =
     (if map_of out branch \<noteq> None then Some out else export_loop rd out {branch} {})"

definition export_version_map :: "branch_reader \<Rightarrow> version_t region_map \<Rightarrow> branch_history \<Rightarrow> branch_history option" where
  "export_version_map rd region_map out =
     do {
       d \<leftarrow> get_domain region_map;
       pieces \<leftarrow> region_map_visit region_map d;
       fold_opt (\<lambda>(reg, vers) out. if \<not> is_nil (v_branch vers) then export_branch_history rd (v_branch vers) out else Some out)
         pieces out
     }"

section \<open>Garbage collection\<close>

abbreviation branches_of :: "branch_history \<Rightarrow> branch_id set" where
  "branches_of h \<equiv> fst ` set h"

function copy_loop ::
  "branch_history \<Rightarrow> branch_history \<Rightarrow> branch_id set \<Rightarrow> branch_history \<Rightarrow> branch_history option" where
  "copy_loop source existing todo add_out =
     (if todo = {} then Some add_out
      else
        let b = Min todo; todo = todo - {b}
        in
          case map_of source b of
            None \<Rightarrow> copy_loop source existing todo add_out
          | Some bc \<Rightarrow>
              let add_out = omap_insert b bc add_out
              in do {
                vs \<leftarrow> origin_versions bc;
                copy_loop source existing
                  (insert_branches (\<lambda>v. v \<noteq> version_zero \<and> map_of existing (v_branch v) = None \<and>
                     map_of add_out (v_branch v) = None) vs todo) add_out
              })"
  by pat_completeness auto

termination copy_loop
proof (relation "measures [\<lambda>(s, e, todo, a). card (- branches_of a), \<lambda>(s, e, todo, a). card (todo \<inter> branches_of a),
    \<lambda>(s, e, todo, a). card todo]", goal_cases)
  case 1
  show ?case by simp
next
  case (2 s e todo a b todo')
  have b: "b \<in> todo" using 2(1,2) Min_in [of todo] by simp
  then have "card todo' < card todo" using 2(3) by (intro psubset_card_mono) auto
  moreover have "card (todo' \<inter> branches_of a) \<le> card (todo \<inter> branches_of a)"
    using 2(3) by (intro card_mono) auto
  ultimately show ?case by auto
next
  case (3 s e todo a b todo' bc a' vs)
  have b: "b \<in> todo" using 3(1,2) Min_in [of todo] by simp
  show ?case
  proof (cases "b \<in> branches_of a")
    case True
    then have eq: "branches_of a' = branches_of a" and todo': "todo' = todo - {b}"
      using 3(3,5) by (auto simp: omap_insert_keys)
    show ?thesis
      by (simp add: eq todo' map_of_eq_None_iff del: insert_branches_eq)
        (rule disjI1, rule insert_branches_shrinks [OF b True], simp)
  next
    case False
    have a': "branches_of a' = insert b (branches_of a)" using 3(5) by (simp add: omap_insert_keys)
    show ?thesis using card_done [OF False] by (simp add: a')
  qed
qed

declare copy_loop.simps [simp del]

text \<open>\<open>old_state\<close> contributes only its branch history. The missing branches are logged, which is not modelled.\<close>

definition copy_branch_history_for_branch ::
  "branch_id \<Rightarrow> branch_history \<Rightarrow> branch_history \<Rightarrow> branch_history \<Rightarrow> branch_history option" where
  "copy_branch_history_for_branch root source existing add_out =
     copy_loop source existing (if map_of existing root = None \<and> map_of add_out root = None then {root} else {}) add_out"

text \<open>A \<open>std::multimap\<close>: a list ordered by key; a new entry goes behind the entries of the same key.\<close>

definition multimap_insert :: "'k::linorder \<Rightarrow> 'v \<Rightarrow> ('k \<times> 'v) list \<Rightarrow> ('k \<times> 'v) list" where
  "multimap_insert k v m = takeWhile (\<lambda>(e, w). e \<le> k) m @ (k, v) # dropWhile (\<lambda>(e, w). e \<le> k) m"

lemma mset_multimap_insert [simp]: "mset (multimap_insert k v m) = add_mset (k, v) (mset m)"
proof -
  have "mset (takeWhile (\<lambda>(e, w). e \<le> k) m) + mset (dropWhile (\<lambda>(e, w). e \<le> k) m) = mset m"
    by (metis mset_append takeWhile_dropWhile_id)
  then show ?thesis by (simp add: multimap_insert_def)
qed

definition insert_todo ::
  "(version_t \<Rightarrow> bool) \<Rightarrow> (hash_region \<times> version_t) list \<Rightarrow> (branch_id \<times> hash_region) list \<Rightarrow>
     (branch_id \<times> hash_region) list" where
  "insert_todo P pieces todo =
     fold (\<lambda>(reg, v) todo. if P v then multimap_insert (v_branch v) reg todo else todo) pieces todo"

lemma mset_insert_todo:
  "mset (insert_todo P pieces todo) =
     mset todo + image_mset (\<lambda>(reg, v). (v_branch v, reg)) (mset (filter (P \<circ> snd) pieces))"
  by (induction pieces arbitrary: todo) (auto simp: insert_todo_def)

lemma set_insert_todo:
  "set (insert_todo P pieces todo) = set todo \<union> {(v_branch v, reg) |reg v. (reg, v) \<in> set pieces \<and> P v}"
  using arg_cong [OF mset_insert_todo [of P pieces todo], of set_mset] by force

lemma insert_todo_done:
  assumes "\<And>v. P v \<Longrightarrow> v_branch v \<notin> D"
  shows "size (filter_mset (\<lambda>x. fst x \<in> D) (mset (insert_todo P pieces todo))) = size (filter_mset (\<lambda>x. fst x \<in> D) (mset todo))"
proof -
  have "filter_mset (\<lambda>x. fst x \<in> D) (image_mset (\<lambda>(reg, v). (v_branch v, reg)) (mset (filter (P \<circ> snd) pieces))) = {#}"
    using assms by (auto simp: filter_mset_eq_conv)
  then show ?thesis by (simp add: mset_insert_todo)
qed

definition todo_order :: "((branch_id \<times> hash_region) list \<times> branch_id set) rel" where
  "todo_order =
     measures [\<lambda>(todo, dn). card (- dn), \<lambda>(todo, dn). size (filter_mset (\<lambda>x. fst x \<in> dn) (mset todo))]"

lemma todo_decreases:
  assumes "\<And>v. P v \<Longrightarrow> v_branch v \<notin> insert b dn"
  shows "((insert_todo P pieces todo, insert b dn), ((b, reg) # todo, dn)) \<in> todo_order"
proof (cases "b \<in> dn")
  case True
  then show ?thesis
    using insert_todo_done [of P "insert b dn", OF assms] by (simp add: todo_order_def insert_absorb)
next
  case False
  then show ?thesis using card_done by (simp add: todo_order_def)
qed

function mark_all_loop ::
  "branch_reader \<Rightarrow> (branch_id \<times> hash_region) list \<Rightarrow> branch_id set \<Rightarrow> branch_id set \<Rightarrow> branch_id set option" where
  "mark_all_loop rd todo done remove_out =
     (case todo of
        [] \<Rightarrow> Some remove_out
      | (b, reg) # todo \<Rightarrow>
          let done = insert b done
          in do {
            bc \<leftarrow> rd_get_branch rd b;
            pieces \<leftarrow> region_map_visit (bc_origin bc) reg;
            mark_all_loop rd
              (insert_todo (\<lambda>v. v \<noteq> version_zero \<and> rd_is_branch_known rd (v_branch v) \<and> v_branch v \<notin> done) pieces todo)
              done (remove_out - {b})
          })"
  by pat_completeness auto

termination mark_all_loop
proof (relation "inv_image todo_order (\<lambda>(rd, todo, dn, rm). (todo, dn))", goal_cases)
  case 1
  show ?case unfolding todo_order_def by (intro wf_inv_image wf_measures)
next
  case (2 rd todo dn rm x todo' b reg dn' bc pieces)
  then show ?case by (auto intro!: todo_decreases)
qed

declare mark_all_loop.simps [simp del]

definition mark_all_ancestors_live ::
  "branch_id \<Rightarrow> hash_region \<Rightarrow> branch_reader \<Rightarrow> branch_id set \<Rightarrow> branch_id set option" where
  "mark_all_ancestors_live root region rd remove_out =
     (if is_nil root then None else mark_all_loop rd [(root, region)] {} remove_out)"

function mark_since_loop ::
  "branch_reader \<Rightarrow> branch_reader \<Rightarrow> (branch_id \<times> hash_region) list \<Rightarrow> branch_id set \<Rightarrow> branch_id set \<Rightarrow>
     branch_id set option" where
  "mark_since_loop rd base todo done remove_out =
     (case todo of
        [] \<Rightarrow> Some remove_out
      | (b, reg) # todo \<Rightarrow>
          let done = insert b done; next_in_base = rd_is_branch_known base b
          in do {
            bc \<leftarrow> rd_get_branch rd b;
            pieces \<leftarrow> region_map_visit (bc_origin bc) reg;
            mark_since_loop rd base
              (insert_todo (\<lambda>v. v \<noteq> version_zero \<and> rd_is_branch_known rd (v_branch v) \<and> v_branch v \<notin> done \<and>
                 \<not> (next_in_base \<and> \<not> rd_is_branch_known base (v_branch v))) pieces todo)
              done (remove_out - {b})
          })"
  by pat_completeness auto

termination mark_since_loop
proof (relation "inv_image todo_order (\<lambda>(rd, base, todo, dn, rm). (todo, dn))", goal_cases)
  case 1
  show ?case unfolding todo_order_def by (intro wf_inv_image wf_measures)
next
  case (2 rd base todo dn rm x todo' b reg dn' nb bc pieces)
  then show ?case by (auto intro!: todo_decreases)
qed

declare mark_since_loop.simps [simp del]

definition mark_ancestors_since_base_live ::
  "branch_id \<Rightarrow> hash_region \<Rightarrow> branch_reader \<Rightarrow> branch_reader \<Rightarrow> branch_id set \<Rightarrow> branch_id set option" where
  "mark_ancestors_since_base_live root region rd base remove_out =
     (if is_nil root then None else mark_since_loop rd base [(root, region)] {} remove_out)"

end
