(* ===== verification/History_Closure.thy ===== *)
theory History_Closure
  imports Branch_History
begin

text \<open>
  What the work lists of \<open>Branch_History\<close> compute. Every reader of a history promises that the
  branches it knows are the ones it can look up (locale \<open>lawful_reader\<close>); under that contract the
  export and the copy of a history terminate without an abort and are closed under ancestors, and
  the marking only spares ancestors. The marking does not spare all of them.
\<close>

section \<open>Certificates\<close>

text \<open>An origin covers a region that is not empty, with keys that fit a key buffer.\<close>

definition origin_ok :: "version_t region_map \<Rightarrow> bool" where
  "origin_ok m \<longleftrightarrow>
     region_map_ok m \<and> edges_ok m \<and> rm_left (rgm_inner m) < right_edge (rgm_inner m) \<and>
     rgm_hash_beg m < rgm_hash_end m"

definition origin_at :: "version_t region_map \<Rightarrow> u64 \<times> store_key \<Rightarrow> version_t option" where
  "origin_at m p = (if key_ok (snd p) then region_map_at m (Bound (snd p), fst p) else None)"

definition parent_versions :: "birth_certificate \<Rightarrow> version_t set" where
  "parent_versions bc = ran (origin_at (bc_origin bc))"

lemma origin_domain:
  assumes "origin_ok m"
  obtains d where "get_domain m = Some d" "hash_region_ok d" "region_points d \<noteq> {}" "region_inside d m"
    "region_points d = dom (origin_at m)"
proof -
  let ?l = "rm_left (rgm_inner m)" and ?r = "right_edge (rgm_inner m)"
  let ?d = "sub_region ?l ?r (rgm_hash_beg m) (rgm_hash_end m)"
  have m: "region_map_ok m" "?l < ?r" "rgm_hash_beg m < rgm_hash_end m" "rm_ok (rgm_inner m)"
    using assms by (auto simp: origin_ok_def region_map_ok_def slices_ok_def)
  then have ne: "rm_zones (rgm_inner m) \<noteq> []" by (auto simp: right_edge_def)
  then have "last (rm_zones (rgm_inner m)) \<in> set (rm_zones (rgm_inner m))" by simp
  then have edges: "edge_ok ?l" "edge_ok ?r"
    using assms ne by (auto simp: origin_ok_def edges_ok_def list_all_iff right_edge_def)
  obtain k where k: "?l = Bound k" using m(2) by (cases ?l) auto
  have dom: "get_domain m = Some ?d"
    using ne k by (simp add: get_domain_def empty_domain_def left_edge_def edge_key_def sub_region_def)
  have inside: "region_inside ?d m"
    using m(2,3) k by (auto simp: region_inside_iff sub_region_def)
  have at: "origin_at m (h, x) = (if key_ok x then do { hrm \<leftarrow> rm_at (rgm_inner m) (Bound x); rm_at hrm h } else None)" for h x
    by (simp add: origin_at_def region_map_at_def inner_at_def)
  have "(h, x) \<in> region_points ?d \<longleftrightarrow> (h, x) \<in> dom (origin_at m)" for h x
  proof (cases "rm_at (rgm_inner m) (Bound x)")
    case None
    then show ?thesis
      using rm_at_dom [OF m(4), of "Bound x"]
      by (auto simp: sub_region_points [OF m(2)] keys_between_def dom_def at split: if_splits)
  next
    case (Some hrm)
    then have "slice_ok (rgm_hash_beg m) (rgm_hash_end m) hrm" using m(1) by (auto simp: region_map_ok_def slices_ok_def)
    then show ?thesis
      using Some rm_at_dom [OF m(4), of "Bound x"] rm_at_dom [of hrm h]
      by (auto simp: sub_region_points [OF m(2)] keys_between_def dom_def at slice_ok_def split: if_splits)
  qed
  then have "region_points ?d = dom (origin_at m)" by auto
  then show thesis by (rule that [OF dom sub_region_ok [OF m(2,3) edges] inside])
qed

lemma visit_values:
  assumes "region_map_ok m" "edges_ok m" "region_inside region m" "hash_region_ok region" "region_points region \<noteq> {}"
  obtains ps where "region_map_visit m region = Some ps"
    "cuts region_points hash_region_ok (region_points region) (map fst ps)"
    "\<forall>(r, v) \<in> set ps. \<forall>p \<in> region_points r. origin_at m p = Some v"
    "snd ` set ps = {v. \<exists>p \<in> region_points region. origin_at m p = Some v}"
proof -
  obtain ps where ps: "region_map_visit m region = Some ps"
    "cuts region_points hash_region_ok (region_points region) (map fst ps)"
    "\<And>r v h k. (r, v) \<in> set ps \<Longrightarrow> (h, k) \<in> region_points r \<Longrightarrow> region_map_at m (Bound k, h) = Some v"
    using region_map_visit_cuts [OF assms] by blast
  have at: "origin_at m p = Some v" if "(r, v) \<in> set ps" "p \<in> region_points r" for r v p
    using that ps(3) [of r v "fst p" "snd p"] by (auto simp: origin_at_def region_points_def key_set_def)
  have "snd ` set ps = {v. \<exists>p \<in> region_points region. origin_at m p = Some v}"
  proof (intro set_eqI iffI)
    fix v assume "v \<in> snd ` set ps"
    then obtain r where r: "(r, v) \<in> set ps" by auto
    then obtain p where "p \<in> region_points r" using ps(2) unfolding cuts_def by fastforce
    moreover from this have "p \<in> region_points region" using cuts_subset [OF ps(2)] r by force
    ultimately show "v \<in> {v. \<exists>p \<in> region_points region. origin_at m p = Some v}" using at [OF r] by blast
  next
    fix v assume "v \<in> {v. \<exists>p \<in> region_points region. origin_at m p = Some v}"
    then obtain p where p: "p \<in> region_points region" "origin_at m p = Some v" by blast
    then obtain r w where "(r, w) \<in> set ps" "p \<in> region_points r" using ps(2) unfolding cuts_def by force
    moreover from this have "w = v" using at [of r w p] p(2) by simp
    ultimately show "v \<in> snd ` set ps" by (metis image_eqI snd_conv)
  qed
  moreover have "\<forall>(r, v) \<in> set ps. \<forall>p \<in> region_points r. origin_at m p = Some v" using at by blast
  ultimately show thesis using ps(1,2) by (intro that)
qed

lemma origin_versions_eq:
  assumes "origin_ok (bc_origin bc)"
  shows "\<exists>vs. origin_versions bc = Some vs \<and> set vs = parent_versions bc"
proof -
  obtain d where d: "get_domain (bc_origin bc) = Some d" "hash_region_ok d" "region_points d \<noteq> {}"
    "region_inside d (bc_origin bc)" "region_points d = dom (origin_at (bc_origin bc))"
    by (rule origin_domain [OF assms])
  have ok: "region_map_ok (bc_origin bc)" "edges_ok (bc_origin bc)" using assms by (auto simp: origin_ok_def)
  obtain ps where ps: "region_map_visit (bc_origin bc) d = Some ps"
    "snd ` set ps = {v. \<exists>p \<in> region_points d. origin_at (bc_origin bc) p = Some v}"
    by (rule visit_values [OF ok d(4,2,3)])
  have "snd ` set ps = parent_versions bc"
    unfolding ps(2) d(5) parent_versions_def ran_def by auto
  then show ?thesis using d(1) ps(1) by (simp add: origin_versions_def)
qed

section \<open>Readers\<close>

definition parent :: "branch_reader \<Rightarrow> branch_id \<Rightarrow> branch_id \<Rightarrow> bool" where
  "parent rd b c \<longleftrightarrow>
     (\<exists>bc v. rd_get_branch rd b = Some bc \<and> v \<in> parent_versions bc \<and> \<not> is_nil (v_branch v) \<and> v_branch v = c)"

definition certificates_ok :: "branch_reader \<Rightarrow> bool" where
  "certificates_ok rd \<longleftrightarrow> (\<forall>b bc. rd_get_branch rd b = Some bc \<longrightarrow> origin_ok (bc_origin bc))"

text \<open>A history that has, with a branch, everything \<open>rd\<close> knows of its ancestors.\<close>

definition closed_under :: "branch_reader \<Rightarrow> branch_id set \<Rightarrow> bool" where
  "closed_under rd S \<longleftrightarrow> (\<forall>b \<in> S. \<forall>c. parent rd b c \<and> rd_is_branch_known rd c \<longrightarrow> c \<in> S)"

locale lawful_reader =
  fixes rd :: branch_reader
  assumes known_iff: "rd_is_branch_known rd b \<longleftrightarrow> rd_get_branch rd b \<noteq> None"
begin

lemma known_certificate:
  assumes "rd_is_branch_known rd b" and "certificates_ok rd"
  obtains bc vs where "rd_get_branch rd b = Some bc" "origin_versions bc = Some vs"
    "\<And>c. parent rd b c \<longleftrightarrow> (\<exists>v \<in> set vs. \<not> is_nil (v_branch v) \<and> v_branch v = c)"
proof -
  obtain bc where bc: "rd_get_branch rd b = Some bc" using assms(1) known_iff by auto
  then have "origin_ok (bc_origin bc)" using assms(2) by (simp add: certificates_ok_def)
  then obtain vs where "origin_versions bc = Some vs" "set vs = parent_versions bc"
    using origin_versions_eq by blast
  then show thesis using bc by (intro that [of bc vs]) (auto simp: parent_def)
qed

end

interpretation of_history: lawful_reader "history_reader h" for h
  by unfold_locales (simp add: history_reader_def history_is_branch_known_def history_get_branch_def)

locale two_readers = first: lawful_reader r1 + second: lawful_reader r2 for r1 r2
begin

sublocale both: lawful_reader "combiner r1 r2"
  by unfold_locales
    (simp add: combiner_def combiner_is_branch_known_def combiner_get_branch_def first.known_iff second.known_iff)

end

interpretation of_histories: two_readers "history_reader h1" "history_reader h2" for h1 h2
  by unfold_locales

section \<open>Exporting\<close>

text \<open>
  What holds between the rounds of an export of \<open>root\<close> into \<open>out0\<close>: what has been added was
  reachable, and what it descends from has been added, is known to be missing, or is still to be
  processed.
\<close>

definition export_inv ::
  "branch_reader \<Rightarrow> branch_id \<Rightarrow> branch_history \<Rightarrow> branch_history \<Rightarrow> branch_id set \<Rightarrow> branch_id set \<Rightarrow> bool" where
  "export_inv rd root out0 out tp dn \<longleftrightarrow>
     omap_ok out \<and> tp \<inter> dn = {} \<and> tp \<inter> dom (map_of out) = {} \<and> map_of out0 \<subseteq>\<^sub>m map_of out \<and>
     {b \<in> dn. rd_is_branch_known rd b} \<subseteq> dom (map_of out) \<and> root \<in> tp \<union> dn \<and>
     (\<forall>b \<in> tp. (parent rd)\<^sup>*\<^sup>* root b) \<and>
     (\<forall>b \<in> dom (map_of out) - dom (map_of out0).
        map_of out b = rd_get_branch rd b \<and> (parent rd)\<^sup>*\<^sup>* root b \<and>
        (\<forall>c. parent rd b c \<longrightarrow> c \<in> dom (map_of out) \<union> tp \<union> dn))"

lemma export_inv_skip:
  assumes "export_inv rd root out0 out tp dn" and "b \<in> tp" and "\<not> rd_is_branch_known rd b"
  shows "export_inv rd root out0 out (tp - {b}) (insert b dn)"
  using assms unfolding export_inv_def by blast

lemma export_inv_add:
  assumes inv: "export_inv rd root out0 out tp dn" and b: "b \<in> tp" and bc: "rd_get_branch rd b = Some bc"
    and parents: "\<And>c. parent rd b c \<longleftrightarrow> (\<exists>v \<in> set vs. \<not> is_nil (v_branch v) \<and> v_branch v = c)"
  defines "out' \<equiv> omap_insert b bc out"
  shows "export_inv rd root out0 out'
    (insert_branches (\<lambda>v. \<not> is_nil (v_branch v) \<and> map_of out' (v_branch v) = None \<and> v_branch v \<notin> insert b dn) vs (tp - {b}))
    (insert b dn)"
proof -
  have ok: "omap_ok out" and new: "map_of out b = None"
    using inv b unfolding export_inv_def by auto
  have out': "map_of out' = (map_of out)(b \<mapsto> bc)"
    using map_of_omap_insert [OF ok, of b bc] new by (simp add: out'_def)
  have reach: "(parent rd)\<^sup>*\<^sup>* root b" using inv b unfolding export_inv_def by blast
  then have onward: "(parent rd)\<^sup>*\<^sup>* root c" if "parent rd b c" for c
    using that by (rule rtranclp.rtrancl_into_rtrancl)
  let ?tp = "tp - {b} \<union> {c. parent rd b c \<and> ((map_of out)(b \<mapsto> bc)) c = None \<and> c \<notin> insert b dn}"
  have tp: "insert_branches (\<lambda>v. \<not> is_nil (v_branch v) \<and> map_of out' (v_branch v) = None \<and> v_branch v \<notin> insert b dn) vs (tp - {b}) = ?tp"
    unfolding insert_branches_eq parents out' by auto
  have old: "map_of out x = rd_get_branch rd x \<and> (parent rd)\<^sup>*\<^sup>* root x \<and> (\<forall>c. parent rd x c \<longrightarrow> c \<in> dom (map_of out) \<union> tp \<union> dn)"
    if "x \<in> dom (map_of out) - dom (map_of out0)" for x
    using inv that unfolding export_inv_def by blast
  show ?thesis
    unfolding tp unfolding export_inv_def out'
  proof (intro conjI)
    show "omap_ok out'" unfolding out'_def by (rule omap_insert_ok [OF ok])
    show "?tp \<inter> insert b dn = {}" using inv unfolding export_inv_def by blast
    show "?tp \<inter> dom ((map_of out)(b \<mapsto> bc)) = {}" using inv unfolding export_inv_def out' by auto
    show "map_of out0 \<subseteq>\<^sub>m (map_of out)(b \<mapsto> bc)"
      using inv new unfolding export_inv_def map_le_def by (metis domIff fun_upd_apply)
    show "{x \<in> insert b dn. rd_is_branch_known rd x} \<subseteq> dom ((map_of out)(b \<mapsto> bc))"
      using inv unfolding export_inv_def by auto
    show "root \<in> ?tp \<union> insert b dn" using inv unfolding export_inv_def by blast
    show "\<forall>x \<in> ?tp. (parent rd)\<^sup>*\<^sup>* root x" using inv onward unfolding export_inv_def by blast
    show "\<forall>x \<in> dom ((map_of out)(b \<mapsto> bc)) - dom (map_of out0).
        ((map_of out)(b \<mapsto> bc)) x = rd_get_branch rd x \<and> (parent rd)\<^sup>*\<^sup>* root x \<and>
        (\<forall>c. parent rd x c \<longrightarrow> c \<in> dom ((map_of out)(b \<mapsto> bc)) \<union> ?tp \<union> insert b dn)"
    proof
      fix x assume x: "x \<in> dom ((map_of out)(b \<mapsto> bc)) - dom (map_of out0)"
      show "((map_of out)(b \<mapsto> bc)) x = rd_get_branch rd x \<and> (parent rd)\<^sup>*\<^sup>* root x \<and>
          (\<forall>c. parent rd x c \<longrightarrow> c \<in> dom ((map_of out)(b \<mapsto> bc)) \<union> ?tp \<union> insert b dn)"
      proof (cases "x = b")
        case True
        then show ?thesis using bc reach by (auto simp: out')
      next
        case False
        then have "x \<in> dom (map_of out) - dom (map_of out0)" using x by auto
        from old [OF this] False show ?thesis by auto
      qed
    qed
  qed
qed

lemma export_loop_inv:
  assumes "lawful_reader rd" and "certificates_ok rd" and "export_inv rd root out0 out tp dn"
  shows "\<exists>out' dn'. export_loop rd out tp dn = Some out' \<and> export_inv rd root out0 out' {} dn'"
  using assms
proof (induction rd out tp dn rule: export_loop.induct)
  case (1 rd out tp dn)
  note inv = "1.prems"(3)
  show ?case
  proof (cases "tp = {}")
    case True
    then show ?thesis using inv by (subst export_loop.simps) auto
  next
    case False
    define b where "b = Min tp"
    have b: "b \<in> tp" using False by (simp add: b_def)
    show ?thesis
    proof (cases "rd_is_branch_known rd b")
      case True
      obtain bc vs where bc: "rd_get_branch rd b = Some bc" "origin_versions bc = Some vs"
        "\<And>c. parent rd b c \<longleftrightarrow> (\<exists>v \<in> set vs. \<not> is_nil (v_branch v) \<and> v_branch v = c)"
        by (rule lawful_reader.known_certificate [OF "1.prems"(1) True "1.prems"(2)]) blast
      have new: "map_of out b = None" using inv b unfolding export_inv_def by auto
      let ?out = "omap_insert b bc out"
      let ?tp = "insert_branches (\<lambda>v. \<not> is_nil (v_branch v) \<and> map_of ?out (v_branch v) = None \<and> v_branch v \<notin> insert b dn) vs (tp - {b})"
      have "export_loop rd out tp dn = export_loop rd ?out ?tp (insert b dn)"
        using False True bc(1,2) new by (subst export_loop.simps) (simp add: b_def [symmetric] Let_def del: insert_branches_eq)
      moreover have "\<exists>out' dn'. export_loop rd ?out ?tp (insert b dn) = Some out' \<and> export_inv rd root out0 out' {} dn'"
        using False True bc(1,2) new
        by (intro "1.IH"(1) [OF _ b_def refl refl _ _ _ refl] "1.prems"(1,2) export_inv_add [OF inv b bc(1,3)]) auto
      ultimately show ?thesis by simp
    next
      case unknown: False
      have "export_loop rd out tp dn = export_loop rd out (tp - {b}) (insert b dn)"
        using False unknown by (subst export_loop.simps) (simp add: b_def [symmetric] Let_def)
      moreover have "\<exists>out' dn'. export_loop rd out (tp - {b}) (insert b dn) = Some out' \<and> export_inv rd root out0 out' {} dn'"
        using False unknown
        by (intro "1.IH"(2) [OF _ b_def refl refl] "1.prems"(1,2) export_inv_skip [OF inv b]) auto
      ultimately show ?thesis by simp
    qed
  qed
qed

lemma export_inv_final:
  assumes inv: "export_inv rd root out0 out {} dn" and closed: "closed_under rd (dom (map_of out0))"
  shows "closed_under rd (dom (map_of out))" and "rd_is_branch_known rd root \<Longrightarrow> root \<in> dom (map_of out)"
proof -
  have known: "c \<in> dom (map_of out)" if "c \<in> dn" "rd_is_branch_known rd c" for c
    using inv that unfolding export_inv_def by blast
  have "map_of out0 \<subseteq>\<^sub>m map_of out" using inv unfolding export_inv_def by blast
  then have le: "dom (map_of out0) \<subseteq> dom (map_of out)" by (rule map_le_implies_dom_le)
  show "closed_under rd (dom (map_of out))"
    unfolding closed_under_def
  proof (intro ballI allI impI)
    fix b c assume b: "b \<in> dom (map_of out)" and c: "parent rd b c \<and> rd_is_branch_known rd c"
    show "c \<in> dom (map_of out)"
    proof (cases "b \<in> dom (map_of out0)")
      case True
      then show ?thesis using closed c le unfolding closed_under_def by blast
    next
      case False
      then have "c \<in> dom (map_of out) \<union> dn" using inv b c unfolding export_inv_def by blast
      then show ?thesis using known c by blast
    qed
  qed
  show "root \<in> dom (map_of out)" if "rd_is_branch_known rd root"
    using inv known that unfolding export_inv_def by blast
qed

lemma export_branch_history_inv:
  assumes "lawful_reader rd" and "certificates_ok rd" and "omap_ok out"
  shows "\<exists>out'. export_branch_history rd branch out = Some out' \<and> omap_ok out' \<and> map_of out \<subseteq>\<^sub>m map_of out' \<and>
    (\<forall>b \<in> dom (map_of out') - dom (map_of out). map_of out' b = rd_get_branch rd b \<and> (parent rd)\<^sup>*\<^sup>* branch b) \<and>
    (closed_under rd (dom (map_of out)) \<longrightarrow> closed_under rd (dom (map_of out')) \<and>
      (rd_is_branch_known rd branch \<longrightarrow> branch \<in> dom (map_of out')))"
proof (cases "map_of out branch")
  case None
  then have "export_inv rd branch out out {branch} {}" using assms(3) unfolding export_inv_def by auto
  then obtain out' dn' where out': "export_loop rd out {branch} {} = Some out'" "export_inv rd branch out out' {} dn'"
    using export_loop_inv [OF assms(1,2)] by blast
  have "omap_ok out'" "map_of out \<subseteq>\<^sub>m map_of out'"
    "\<forall>b \<in> dom (map_of out') - dom (map_of out). map_of out' b = rd_get_branch rd b \<and> (parent rd)\<^sup>*\<^sup>* branch b"
    using out'(2) unfolding export_inv_def by blast+
  then show ?thesis
    using out'(1) None export_inv_final [OF out'(2)] by (simp add: export_branch_history_def)
next
  case (Some bc)
  then show ?thesis using assms(3) by (auto simp: export_branch_history_def)
qed

section \<open>Marking\<close>

text \<open>
  The ancestry \<open>mark_ancestors_since_base_live()\<close> describes, at one point of the table: back to a
  branch of \<open>base\<close> and on while the branches are in \<open>base\<close>.
\<close>

inductive lineage :: "branch_reader \<Rightarrow> branch_reader \<Rightarrow> u64 \<times> store_key \<Rightarrow> branch_id \<Rightarrow> branch_id \<Rightarrow> bool"
  for rd base p where
  self: "lineage rd base p b b"
| older: "lineage rd base p b c \<Longrightarrow> rd_get_branch rd c = Some bc \<Longrightarrow> origin_at (bc_origin bc) p = Some v \<Longrightarrow>
    v \<noteq> version_zero \<Longrightarrow> rd_is_branch_known rd (v_branch v) \<Longrightarrow>
    \<not> (rd_is_branch_known base c \<and> \<not> rd_is_branch_known base (v_branch v)) \<Longrightarrow> lineage rd base p b (v_branch v)"

text \<open>A branch covers the regions in which other branches descend from it.\<close>

definition regions_nest :: "branch_reader \<Rightarrow> bool" where
  "regions_nest rd \<longleftrightarrow>
     (\<forall>b bc p v bc'. rd_get_branch rd b = Some bc \<and> origin_at (bc_origin bc) p = Some v \<and> v \<noteq> version_zero \<and>
        rd_get_branch rd (v_branch v) = Some bc' \<longrightarrow> p \<in> dom (origin_at (bc_origin bc')))"

lemma region_inside_origin:
  assumes "origin_ok m" and "hash_region_ok r" and "region_points r \<noteq> {}" and "region_points r \<subseteq> dom (origin_at m)"
  shows "region_inside r m"
proof -
  obtain d where d: "hash_region_ok d" "region_inside d m" "region_points d = dom (origin_at m)"
    by (rule origin_domain [OF assms(1)])
  have "region_map_within (region_map_of r undefined) (region_map_of d undefined)"
    using d assms by (intro region_map_of_within) auto
  then have "Bound (kr_left (hr_inner d)) \<le> Bound (kr_left (hr_inner r))" "kr_right (hr_inner r) \<le> kr_right (hr_inner d)"
    "hr_beg d \<le> hr_beg r" "hr_end r \<le> hr_end d"
    by (simp_all add: region_map_within_def rm_within_def region_map_of_def)
  then show ?thesis
    using d(2) hash_region_ok_proper [OF assms(2)] unfolding region_inside_iff region_proper_def
    by (meson order.trans)
qed

definition todo_ok ::
  "branch_reader \<Rightarrow> branch_reader \<Rightarrow> branch_id \<Rightarrow> hash_region \<Rightarrow> branch_id \<times> hash_region \<Rightarrow> bool" where
  "todo_ok rd base root region x \<longleftrightarrow>
     (\<exists>bc. rd_get_branch rd (fst x) = Some bc \<and> region_points (snd x) \<subseteq> dom (origin_at (bc_origin bc))) \<and>
     hash_region_ok (snd x) \<and> region_points (snd x) \<noteq> {} \<and> region_points (snd x) \<subseteq> region_points region \<and>
     (\<forall>p \<in> region_points (snd x). lineage rd base p root (fst x))"

lemma todo_ok_visit:
  assumes rd: "lawful_reader rd" "certificates_ok rd" "regions_nest rd" and x: "todo_ok rd base root region (b, reg)"
  obtains bc pieces where "rd_get_branch rd b = Some bc" "region_map_visit (bc_origin bc) reg = Some pieces"
    "\<And>r v. (r, v) \<in> set pieces \<Longrightarrow> v \<noteq> version_zero \<Longrightarrow> rd_is_branch_known rd (v_branch v) \<Longrightarrow>
      \<not> (rd_is_branch_known base b \<and> \<not> rd_is_branch_known base (v_branch v)) \<Longrightarrow>
      todo_ok rd base root region (v_branch v, r)"
proof -
  obtain bc where bc: "rd_get_branch rd b = Some bc" "region_points reg \<subseteq> dom (origin_at (bc_origin bc))"
    and reg: "hash_region_ok reg" "region_points reg \<noteq> {}" "region_points reg \<subseteq> region_points region"
      "\<And>p. p \<in> region_points reg \<Longrightarrow> lineage rd base p root b"
    using x by (auto simp: todo_ok_def)
  have ok: "origin_ok (bc_origin bc)" using rd(2) bc(1) by (simp add: certificates_ok_def)
  then have ok': "region_map_ok (bc_origin bc)" "edges_ok (bc_origin bc)" by (simp_all add: origin_ok_def)
  obtain ps where ps: "region_map_visit (bc_origin bc) reg = Some ps"
    "cuts region_points hash_region_ok (region_points reg) (map fst ps)"
    and at_all: "\<forall>(r, v) \<in> set ps. \<forall>p \<in> region_points r. origin_at (bc_origin bc) p = Some v" and
    "snd ` set ps = {v. \<exists>p \<in> region_points reg. origin_at (bc_origin bc) p = Some v}"
    by (rule visit_values [OF ok' region_inside_origin [OF ok reg(1,2) bc(2)] reg(1,2)])
  have at: "origin_at (bc_origin bc) p = Some v" if "(r, v) \<in> set ps" "p \<in> region_points r" for r v p
    using at_all that by blast
  show thesis
  proof (rule that [OF bc(1) ps(1)])
    fix r v
    assume r: "(r, v) \<in> set ps" and v: "v \<noteq> version_zero" "rd_is_branch_known rd (v_branch v)"
      and base: "\<not> (rd_is_branch_known base b \<and> \<not> rd_is_branch_known base (v_branch v))"
    have mem: "r \<in> set (map fst ps)" using r by force
    have sub: "region_points r \<subseteq> region_points reg" by (rule cuts_subset [OF ps(2) mem])
    obtain bc' where bc': "rd_get_branch rd (v_branch v) = Some bc'"
      using v(2) rd(1) unfolding lawful_reader_def by auto
    have "region_points r \<subseteq> dom (origin_at (bc_origin bc'))"
    proof
      fix p assume "p \<in> region_points r"
      then have "origin_at (bc_origin bc) p = Some v" by (rule at [OF r])
      then show "p \<in> dom (origin_at (bc_origin bc'))"
        using rd(3) bc(1) v(1) bc' unfolding regions_nest_def by blast
    qed
    moreover have "lineage rd base p root (v_branch v)" if "p \<in> region_points r" for p
    proof (rule lineage.older [OF _ bc(1) at [OF r that] v base])
      show "lineage rd base p root b" using reg(4) sub that by blast
    qed
    moreover have "hash_region_ok r" "region_points r \<noteq> {}" using ps(2) mem unfolding cuts_def by blast+
    ultimately show "todo_ok rd base root region (v_branch v, r)"
      using bc' sub reg(3) by (auto simp: todo_ok_def)
  qed
qed

lemma mark_since_loop_sound:
  assumes "lawful_reader rd" "certificates_ok rd" "regions_nest rd" and "list_all (todo_ok rd base root region) todo"
  shows "\<exists>S. mark_since_loop rd base todo dn rm = Some (rm - S) \<and> fst ` set todo \<subseteq> S \<and>
    S \<subseteq> {c. \<exists>p \<in> region_points region. lineage rd base p root c}"
  using assms
proof (induction rd base todo dn rm rule: mark_since_loop.induct)
  case (1 rd base todo dn rm)
  show ?case
  proof (cases todo)
    case Nil
    then show ?thesis by (subst mark_since_loop.simps) (auto intro: exI [of _ "{}"])
  next
    case (Cons x todo')
    obtain b reg where x: "x = (b, reg)" by (cases x)
    have b: "todo_ok rd base root region (b, reg)" using "1.prems"(4) Cons x by simp
    obtain bc pieces where bc: "rd_get_branch rd b = Some bc" "region_map_visit (bc_origin bc) reg = Some pieces"
      "\<And>r v. (r, v) \<in> set pieces \<Longrightarrow> v \<noteq> version_zero \<Longrightarrow> rd_is_branch_known rd (v_branch v) \<Longrightarrow>
        \<not> (rd_is_branch_known base b \<and> \<not> rd_is_branch_known base (v_branch v)) \<Longrightarrow>
        todo_ok rd base root region (v_branch v, r)"
      by (rule todo_ok_visit [OF "1.prems"(1-3) b]) blast
    let ?P = "\<lambda>v. v \<noteq> version_zero \<and> rd_is_branch_known rd (v_branch v) \<and> v_branch v \<notin> insert b dn \<and>
      \<not> (rd_is_branch_known base b \<and> \<not> rd_is_branch_known base (v_branch v))"
    let ?todo = "insert_todo ?P pieces todo'"
    have todo: "list_all (todo_ok rd base root region) ?todo"
      unfolding list_all_iff set_insert_todo using bc(3) "1.prems"(4) Cons by (auto simp: list_all_iff)
    have "\<exists>S. mark_since_loop rd base ?todo (insert b dn) (rm - {b}) = Some (rm - {b} - S) \<and> fst ` set ?todo \<subseteq> S \<and>
      S \<subseteq> {c. \<exists>p \<in> region_points region. lineage rd base p root c}"
      by (rule "1.IH" [OF Cons x [symmetric] refl refl bc(1,2) "1.prems"(1-3) todo])
    then obtain S where S: "mark_since_loop rd base ?todo (insert b dn) (rm - {b}) = Some (rm - {b} - S)"
      "fst ` set ?todo \<subseteq> S" "S \<subseteq> {c. \<exists>p \<in> region_points region. lineage rd base p root c}"
      by blast
    have "mark_since_loop rd base todo dn rm = mark_since_loop rd base ?todo (insert b dn) (rm - {b})"
      using bc(1,2) Cons x by (subst mark_since_loop.simps) (simp add: Let_def)
    moreover have "rm - {b} - S = rm - insert b S" by blast
    ultimately have "mark_since_loop rd base todo dn rm = Some (rm - insert b S)" using S(1) by simp
    moreover have "fst ` set todo \<subseteq> insert b S" using S(2) Cons x unfolding set_insert_todo by auto
    moreover have "\<exists>p \<in> region_points region. lineage rd base p root b" using b by (auto simp: todo_ok_def)
    ultimately show ?thesis using S(3) by (intro exI [of _ "insert b S"]) auto
  qed
qed

text \<open>With an empty \<open>base\<close> the two ways of marking are the same, as the comment on the second says.\<close>

lemma mark_all_is_since_nothing:
  assumes "\<And>b. \<not> rd_is_branch_known base b"
  shows "mark_all_loop rd todo dn rm = mark_since_loop rd base todo dn rm"
  using assms
proof (induction rd todo dn rm rule: mark_all_loop.induct)
  case (1 rd todo dn rm)
  show ?case
  proof (cases todo)
    case (Cons x todo')
    obtain b reg where x: "x = (b, reg)" by (cases x)
    show ?thesis
      using "1.IH" [OF Cons x [symmetric] refl _ _ "1.prems"] "1.prems"
      by (subst mark_all_loop.simps, subst mark_since_loop.simps) (simp add: Cons x Let_def split: bind_split)
  qed (subst mark_all_loop.simps, subst mark_since_loop.simps, simp)
qed

section \<open>Copying\<close>

text \<open>Only \<open>version_t::zero()\<close> is on the nil branch.\<close>

definition rooted_at_zero :: "branch_reader \<Rightarrow> bool" where
  "rooted_at_zero rd \<longleftrightarrow>
     (\<forall>b bc. rd_get_branch rd b = Some bc \<longrightarrow> (\<forall>v \<in> parent_versions bc. is_nil (v_branch v) \<longrightarrow> v = version_zero))"

definition copy_inv ::
  "branch_history \<Rightarrow> branch_history \<Rightarrow> branch_id \<Rightarrow> branch_history \<Rightarrow> branch_id set \<Rightarrow> branch_history \<Rightarrow> bool" where
  "copy_inv source existing root add0 todo add \<longleftrightarrow>
     omap_ok add \<and> todo \<inter> dom (map_of add) = {} \<and> map_of add0 \<subseteq>\<^sub>m map_of add \<and>
     root \<in> dom (map_of add) \<union> dom (map_of existing) \<union> todo \<union> - dom (map_of source) \<and>
     (\<forall>b \<in> todo. (parent (history_reader source))\<^sup>*\<^sup>* root b) \<and>
     (\<forall>b \<in> dom (map_of add) - dom (map_of add0).
        map_of add b = map_of source b \<and> (parent (history_reader source))\<^sup>*\<^sup>* root b \<and>
        (\<forall>c. parent (history_reader source) b c \<longrightarrow>
           c \<in> dom (map_of add) \<union> dom (map_of existing) \<union> todo \<union> - dom (map_of source)))"

lemma copy_inv_skip:
  assumes "copy_inv source existing root add0 todo add" and "b \<in> todo" and "map_of source b = None"
  shows "copy_inv source existing root add0 (todo - {b}) add"
  using assms unfolding copy_inv_def by blast

lemma copy_inv_add:
  assumes inv: "copy_inv source existing root add0 todo add" and b: "b \<in> todo" and bc: "map_of source b = Some bc"
    and parents: "\<And>c. parent (history_reader source) b c \<longleftrightarrow> (\<exists>v \<in> set vs. v \<noteq> version_zero \<and> v_branch v = c)"
  defines "add' \<equiv> omap_insert b bc add"
  shows "copy_inv source existing root add0
    (insert_branches (\<lambda>v. v \<noteq> version_zero \<and> map_of existing (v_branch v) = None \<and> map_of add' (v_branch v) = None) vs (todo - {b}))
    add'"
proof -
  let ?parent = "parent (history_reader source)"
  have ok: "omap_ok add" and new: "map_of add b = None" and reach: "?parent\<^sup>*\<^sup>* root b"
    using inv b unfolding copy_inv_def by auto
  have add': "map_of add' = (map_of add)(b \<mapsto> bc)"
    using map_of_omap_insert [OF ok, of b bc] new by (simp add: add'_def)
  have onward: "?parent\<^sup>*\<^sup>* root c" if "?parent b c" for c
    using reach that by (rule rtranclp.rtrancl_into_rtrancl)
  let ?todo = "todo - {b} \<union> {c. ?parent b c \<and> map_of existing c = None \<and> ((map_of add)(b \<mapsto> bc)) c = None}"
  have todo: "insert_branches (\<lambda>v. v \<noteq> version_zero \<and> map_of existing (v_branch v) = None \<and> map_of add' (v_branch v) = None) vs (todo - {b}) = ?todo"
    unfolding insert_branches_eq parents add' by auto
  have old: "map_of add x = map_of source x \<and> ?parent\<^sup>*\<^sup>* root x \<and>
      (\<forall>c. ?parent x c \<longrightarrow> c \<in> dom (map_of add) \<union> dom (map_of existing) \<union> todo \<union> - dom (map_of source))"
    if "x \<in> dom (map_of add) - dom (map_of add0)" for x
    using inv that unfolding copy_inv_def by blast
  show ?thesis
    unfolding todo unfolding copy_inv_def add'
  proof (intro conjI)
    show "omap_ok add'" unfolding add'_def by (rule omap_insert_ok [OF ok])
    show "?todo \<inter> dom ((map_of add)(b \<mapsto> bc)) = {}" using inv unfolding copy_inv_def by auto
    show "map_of add0 \<subseteq>\<^sub>m (map_of add)(b \<mapsto> bc)"
      using inv new unfolding copy_inv_def map_le_def by (metis domIff fun_upd_apply)
    show "root \<in> dom ((map_of add)(b \<mapsto> bc)) \<union> dom (map_of existing) \<union> ?todo \<union> - dom (map_of source)"
      using inv unfolding copy_inv_def by auto
    show "\<forall>x \<in> ?todo. ?parent\<^sup>*\<^sup>* root x" using inv onward unfolding copy_inv_def by blast
    show "\<forall>x \<in> dom ((map_of add)(b \<mapsto> bc)) - dom (map_of add0).
        ((map_of add)(b \<mapsto> bc)) x = map_of source x \<and> ?parent\<^sup>*\<^sup>* root x \<and>
        (\<forall>c. ?parent x c \<longrightarrow> c \<in> dom ((map_of add)(b \<mapsto> bc)) \<union> dom (map_of existing) \<union> ?todo \<union> - dom (map_of source))"
    proof
      fix x assume x: "x \<in> dom ((map_of add)(b \<mapsto> bc)) - dom (map_of add0)"
      show "((map_of add)(b \<mapsto> bc)) x = map_of source x \<and> ?parent\<^sup>*\<^sup>* root x \<and>
          (\<forall>c. ?parent x c \<longrightarrow> c \<in> dom ((map_of add)(b \<mapsto> bc)) \<union> dom (map_of existing) \<union> ?todo \<union> - dom (map_of source))"
      proof (cases "x = b")
        case True
        then show ?thesis using bc reach by auto
      next
        case False
        then have "x \<in> dom (map_of add) - dom (map_of add0)" using x by auto
        from old [OF this] False show ?thesis by auto
      qed
    qed
  qed
qed

lemma copy_loop_inv:
  assumes "certificates_ok (history_reader source)" and "rooted_at_zero (history_reader source)"
    and "copy_inv source existing root add0 todo add"
  shows "\<exists>add'. copy_loop source existing todo add = Some add' \<and> copy_inv source existing root add0 {} add'"
  using assms
proof (induction source existing todo add rule: copy_loop.induct)
  case (1 source existing todo add)
  note inv = "1.prems"(3)
  show ?case
  proof (cases "todo = {}")
    case True
    then show ?thesis using inv by (subst copy_loop.simps) auto
  next
    case False
    define b where "b = Min todo"
    have b: "b \<in> todo" using False by (simp add: b_def)
    show ?thesis
    proof (cases "map_of source b")
      case (Some bc)
      have get: "rd_get_branch (history_reader source) b = Some bc"
        using Some by (simp add: history_reader_def history_get_branch_def)
      then have "origin_ok (bc_origin bc)" using "1.prems"(1) by (simp add: certificates_ok_def)
      then obtain vs where vs: "origin_versions bc = Some vs" "set vs = parent_versions bc"
        using origin_versions_eq by blast
      have "\<not> is_nil (v_branch v) \<longleftrightarrow> v \<noteq> version_zero" if "v \<in> set vs" for v
        using "1.prems"(2) [unfolded rooted_at_zero_def, rule_format, OF get, of v] that vs(2)
        by (auto simp: version_zero_def is_nil_def)
      then have parents: "parent (history_reader source) b c \<longleftrightarrow> (\<exists>v \<in> set vs. v \<noteq> version_zero \<and> v_branch v = c)" for c
        using get vs(2) by (auto simp: parent_def)
      let ?add = "omap_insert b bc add"
      let ?todo = "insert_branches (\<lambda>v. v \<noteq> version_zero \<and> map_of existing (v_branch v) = None \<and> map_of ?add (v_branch v) = None) vs (todo - {b})"
      have "copy_loop source existing todo add = copy_loop source existing ?todo ?add"
        using False Some vs(1) by (subst copy_loop.simps) (simp add: b_def [symmetric] Let_def del: insert_branches_eq)
      moreover have "\<exists>add'. copy_loop source existing ?todo ?add = Some add' \<and> copy_inv source existing root add0 {} add'"
        using False vs(1)
        by (intro "1.IH"(2) [OF _ b_def refl Some refl] "1.prems"(1,2) copy_inv_add [OF inv b Some parents]) auto
      ultimately show ?thesis by simp
    next
      case None
      have "copy_loop source existing todo add = copy_loop source existing (todo - {b}) add"
        using False None by (subst copy_loop.simps) (simp add: b_def [symmetric] Let_def)
      moreover have "\<exists>add'. copy_loop source existing (todo - {b}) add = Some add' \<and> copy_inv source existing root add0 {} add'"
        using False by (intro "1.IH"(1) [OF _ b_def refl None] "1.prems"(1,2) copy_inv_skip [OF inv b None]) auto
      ultimately show ?thesis by simp
    qed
  qed
qed

section \<open>A history with a split and a merge\<close>

text \<open>
  Two shards, branches 3 and 4, are merged into branch 1; branch 2 is split off for the upper half;
  branch 9 merges the halves again.
\<close>

definition vers :: "branch_id \<Rightarrow> state_timestamp \<Rightarrow> version_t" where
  "vers b t = \<lparr>v_branch = b, v_timestamp = t\<rparr>"

definition two_halves :: "version_t \<Rightarrow> version_t \<Rightarrow> version_t region_map" where
  "two_halves v w =
     \<lparr>rgm_inner = range_map_of (Bound (Store_key [1])) Unbounded \<lparr>rm_left = 0, rm_zones = [(4, v), (9, w)]\<rparr>,
      rgm_hash_beg = 0, rgm_hash_end = 9\<rparr>"

definition merge_history :: branch_history where
  "merge_history =
     [(1, \<lparr>bc_initial_timestamp = 6, bc_origin = two_halves (vers 3 5) (vers 4 6)\<rparr>),
      (2, \<lparr>bc_initial_timestamp = 7, bc_origin = region_map_of (demo_region 4 9 1) (vers 1 7)\<rparr>),
      (3, \<lparr>bc_initial_timestamp = 0, bc_origin = region_map_of (demo_region 0 4 1) version_zero\<rparr>),
      (4, \<lparr>bc_initial_timestamp = 0, bc_origin = region_map_of (demo_region 4 9 1) version_zero\<rparr>),
      (9, \<lparr>bc_initial_timestamp = 9, bc_origin = two_halves (vers 1 8) (vers 2 9)\<rparr>)]"

lemma origin_ok_of: "hash_region_ok r \<Longrightarrow> region_points r \<noteq> {} \<Longrightarrow> origin_ok (region_map_of r v)"
proof -
  assume r: "hash_region_ok r" "region_points r \<noteq> {}"
  then have "hr_beg r < hr_end r" "Bound (kr_left (hr_inner r)) < kr_right (hr_inner r)" "edge_ok (Bound (kr_left (hr_inner r)))"
    "edge_ok (kr_right (hr_inner r))"
    by (auto simp: hash_region_ok_def key_range_ok_def key_range_is_empty_def edge_ok_def split: right_bound.splits)
  moreover have "region_map_ok (region_map_of r v)" by (rule region_map_of_ok [OF hash_region_ok_proper [OF r(1)]])
  ultimately show ?thesis
    by (auto simp: origin_ok_def edges_ok_def region_map_of_def range_map_of_def right_edge_def)
qed

lemma demo_region_points:
  assumes "b < e"
  shows "hash_region_ok (demo_region b e k)" "region_points (demo_region b e k) \<noteq> {}"
    "region_points (demo_region b e k) = {h. b \<le> h \<and> h < e} \<times> {x. key_ok x \<and> Store_key [k] \<le> x}"
proof -
  have k: "key_ok (Store_key [k])" by (simp add: key_ok_def key_size_def MAX_KEY_SIZE_def)
  show "hash_region_ok (demo_region b e k)"
    using assms k by (simp add: hash_region_ok_def demo_region_def key_range_ok_def key_range_is_empty_def)
  show eq: "region_points (demo_region b e k) = {h. b \<le> h \<and> h < e} \<times> {x. key_ok x \<and> Store_key [k] \<le> x}"
    by (auto simp: region_points_def demo_region_def key_set_def contains_key_iff)
  have "(b, Store_key [k]) \<in> region_points (demo_region b e k)" unfolding eq using assms k by simp
  then show "region_points (demo_region b e k) \<noteq> {}" by blast
qed

lemma two_halves_ok: "v \<noteq> w \<Longrightarrow> origin_ok (two_halves v w)"
proof -
  assume "v \<noteq> w"
  then have rm: "rm_ok \<lparr>rm_left = 0 :: u64, rm_zones = [(4, v), (9, w)]\<rparr>"
    by (simp add: rm_ok_def omap_ok_def coalesced_def)
  then have "region_map_ok (two_halves v w)"
    by (auto simp: two_halves_def region_map_ok_def slices_ok_def slice_ok_def rm_ok_of rm_at_of
        right_edge_def [of "\<lparr>rm_left = _, rm_zones = _\<rparr>"] split: if_splits)
  then show ?thesis
    by (simp add: origin_ok_def)
      (simp add: two_halves_def right_edge_def edges_ok_def range_map_of_def edge_ok_def key_ok_def key_size_def MAX_KEY_SIZE_def)
qed

lemma origin_at_of: "origin_at (region_map_of r v) p = (if p \<in> region_points r then Some v else None)"
  by (cases p)
    (auto simp: origin_at_def region_map_of_at in_region_iff region_contains_key_with_precomputed_hash_def
      region_points_def key_set_def)

lemma origin_at_two_halves:
  "origin_at (two_halves v w) (h, x) =
     (if key_ok x \<and> Store_key [1] \<le> x \<and> h < 9 then Some (if h < 4 then v else w) else None)"
proof -
  have "h < 9" if "h < 4" using that by (rule less_trans) simp
  then show ?thesis
    by (auto simp: origin_at_def region_map_at_def inner_at_def two_halves_def rm_at_of rm_at_def [of "\<lparr>rm_left = _, rm_zones = _\<rparr>"])
qed

lemmas merge_history_defs = merge_history_def history_reader_def history_get_branch_def history_is_branch_known_def

lemma merge_history_ok:
  "omap_ok merge_history" "certificates_ok (history_reader merge_history)" "regions_nest (history_reader merge_history)"
  "rooted_at_zero (history_reader merge_history)"
proof -
  show "omap_ok merge_history" by (simp add: merge_history_def omap_ok_def)
  show "certificates_ok (history_reader merge_history)"
    unfolding certificates_ok_def
    by (auto simp: merge_history_defs vers_def intro!: origin_ok_of two_halves_ok demo_region_points split: if_splits)
  show "regions_nest (history_reader merge_history)"
    unfolding regions_nest_def
    by (auto simp: merge_history_defs vers_def origin_at_of origin_at_two_halves demo_region_points version_zero_def dom_def split: if_splits)
  show "rooted_at_zero (history_reader merge_history)"
    unfolding rooted_at_zero_def
    by (auto simp: merge_history_defs vers_def parent_versions_def ran_def origin_at_of origin_at_two_halves is_nil_def nil_uuid_def
        split: if_splits)
qed

section \<open>Properties\<close>

text \<open>
  Property C17. \<open>export_branch_history()\<close> always ends, and without a crash, even for a history with
  cycles: it keeps every record of \<open>out\<close>, adds only records of \<open>branch\<close> and of its ancestors, as
  the reader has them, and, when \<open>out\<close> was closed under the known ancestors of its branches, so is
  the result, which then also contains \<open>branch\<close> if the reader knows it. The reader is a branch
  history or the combination of two.
\<close>

theorem export_branch_history_closed:
  assumes "rd = history_reader h \<or> rd = combiner (history_reader h) (history_reader h')"
    and "certificates_ok rd" and "omap_ok out"
  shows "\<exists>out'. export_branch_history rd branch out = Some out' \<and> omap_ok out' \<and> map_of out \<subseteq>\<^sub>m map_of out' \<and>
    (\<forall>b \<in> dom (map_of out') - dom (map_of out). map_of out' b = rd_get_branch rd b \<and> (parent rd)\<^sup>*\<^sup>* branch b) \<and>
    (closed_under rd (dom (map_of out)) \<longrightarrow> closed_under rd (dom (map_of out')) \<and>
      (rd_is_branch_known rd branch \<longrightarrow> branch \<in> dom (map_of out')))"
proof -
  have "lawful_reader rd"
    using assms(1) of_history.lawful_reader_axioms of_histories.both.lawful_reader_axioms by blast
  then show ?thesis using assms(2,3) by (rule export_branch_history_inv)
qed

theorem export_branch_history_closed_witness:
  "\<exists>out'. export_branch_history (history_reader merge_history) 9 [] = Some out' \<and> 9 \<in> dom (map_of out') \<and>
    closed_under (history_reader merge_history) (dom (map_of out'))"
proof -
  have "closed_under (history_reader merge_history) (dom (map_of []))" by (simp add: closed_under_def)
  moreover have "rd_is_branch_known (history_reader merge_history) 9" by (simp add: merge_history_defs)
  ultimately show ?thesis
    using export_branch_history_closed [of "history_reader merge_history" merge_history merge_history "[]" 9]
      merge_history_ok(2) by auto
qed

text \<open>
  Property C26. \<open>copy_branch_history_for_branch()\<close> always ends without a crash; what it adds to
  \<open>add_branches_out\<close> are records of the source, of the new branch and its ancestors; and afterwards
  the new branch and every parent of an added branch is in the existing history, has been added, or
  is missing from the source.
\<close>

theorem copy_branch_history_complete:
  assumes "certificates_ok (history_reader source)" and "rooted_at_zero (history_reader source)" and "omap_ok add0"
  shows "\<exists>add. copy_branch_history_for_branch root source existing add0 = Some add \<and> omap_ok add \<and>
    map_of add0 \<subseteq>\<^sub>m map_of add \<and>
    root \<in> dom (map_of add) \<union> dom (map_of existing) \<union> - dom (map_of source) \<and>
    (\<forall>b \<in> dom (map_of add) - dom (map_of add0).
       map_of add b = map_of source b \<and> (parent (history_reader source))\<^sup>*\<^sup>* root b \<and>
       (\<forall>c. parent (history_reader source) b c \<longrightarrow>
          c \<in> dom (map_of add) \<union> dom (map_of existing) \<union> - dom (map_of source)))"
proof -
  let ?todo = "if map_of existing root = None \<and> map_of add0 root = None then {root} else {}"
  have "copy_inv source existing root add0 ?todo add0" using assms(3) unfolding copy_inv_def by auto
  from copy_loop_inv [OF assms(1,2) this]
  obtain add where "copy_loop source existing ?todo add0 = Some add" "copy_inv source existing root add0 {} add" by blast
  then show ?thesis unfolding copy_branch_history_for_branch_def copy_inv_def by auto
qed

theorem copy_branch_history_complete_witness:
  "\<exists>add. copy_branch_history_for_branch 9 merge_history [] [] = Some add \<and> 9 \<in> dom (map_of add)"
  using copy_branch_history_complete [of merge_history "[]" 9 "[]"] merge_history_ok
  by (auto simp: merge_history_def)

text \<open>
  Property C27. \<open>mark_ancestors_since_base_live()\<close> and, for an empty base,
  \<open>mark_all_ancestors_live()\<close> end without an exception, spare the root, and remove nothing from
  \<open>remove_branches_out\<close> except branches in the lineage their comments describe, at some point of the
  region.
\<close>

theorem marking_spares_only_ancestors:
  assumes "certificates_ok (history_reader h)" and "regions_nest (history_reader h)"
    and "map_of h root = Some bc" and "\<not> is_nil root"
    and "hash_region_ok region" and "region_points region \<noteq> {}" and "region_points region \<subseteq> dom (origin_at (bc_origin bc))"
  shows "\<exists>S. mark_ancestors_since_base_live root region (history_reader h) (history_reader base) remove_out = Some (remove_out - S) \<and>
      root \<in> S \<and> S \<subseteq> {c. \<exists>p \<in> region_points region. lineage (history_reader h) (history_reader base) p root c} \<and>
      (base = [] \<longrightarrow> mark_all_ancestors_live root region (history_reader h) remove_out = Some (remove_out - S))"
proof -
  have "list_all (todo_ok (history_reader h) (history_reader base) root region) [(root, region)]"
    using assms(3,5-7) by (auto simp: todo_ok_def history_reader_def history_get_branch_def intro: lineage.self)
  from mark_since_loop_sound [OF of_history.lawful_reader_axioms assms(1,2) this, of "{}" remove_out]
  obtain S where S: "mark_since_loop (history_reader h) (history_reader base) [(root, region)] {} remove_out = Some (remove_out - S)"
    "root \<in> S" "S \<subseteq> {c. \<exists>p \<in> region_points region. lineage (history_reader h) (history_reader base) p root c}"
    by auto
  have "mark_all_loop (history_reader h) [(root, region)] {} remove_out = Some (remove_out - S)" if "base = []"
    using S(1) that mark_all_is_since_nothing [of "history_reader []"]
    by (simp add: history_reader_def history_is_branch_known_def)
  then show ?thesis
    using S assms(4)
    by (intro exI [of _ S]) (simp add: mark_ancestors_since_base_live_def mark_all_ancestors_live_def)
qed

lemma merge_region:
  "region_points (demo_region 0 9 1) \<subseteq> dom (origin_at (two_halves v w))"
proof
  fix p assume "p \<in> region_points (demo_region 0 9 1)"
  then obtain h x where "p = (h, x)" "h < 9" "key_ok x" "Store_key [1] \<le> x"
    by (auto simp: region_points_def demo_region_def key_set_def contains_key_iff)
  then show "p \<in> dom (origin_at (two_halves v w))" by (simp add: origin_at_two_halves domIff)
qed

theorem marking_spares_only_ancestors_witness:
  "\<exists>S. mark_all_ancestors_live 9 (demo_region 0 9 1) (history_reader merge_history) {1, 2, 3, 4, 9} = Some ({1, 2, 3, 4, 9} - S) \<and>
    9 \<in> S"
proof -
  have "map_of merge_history 9 = Some \<lparr>bc_initial_timestamp = 9, bc_origin = two_halves (vers 1 8) (vers 2 9)\<rparr>" "\<not> is_nil 9"
    by (simp_all add: merge_history_def is_nil_def nil_uuid_def)
  moreover have "hash_region_ok (demo_region 0 9 1)" "region_points (demo_region 0 9 1) \<noteq> {}"
    by (rule demo_region_points; simp)+
  ultimately show ?thesis
    using marking_spares_only_ancestors [OF merge_history_ok(2,3), where base = "[]" and root = 9 and region = "demo_region 0 9 1"]
      merge_region by fastforce
qed

text \<open>
  Property C28. \<open>mark_all_ancestors_live()\<close> does not spare all ancestors in the region, against its
  comment: the set \<open>done\<close> remembers branches without the region they were visited for. After shards
  3 and 4 were merged into 1, 2 was split off and 9 merged the halves again, branch 4 is an ancestor
  of 9 on the upper half, through 2 and 1; the search has visited 1 for the lower half when it comes
  to it from 2, and branch 4 stays in the set of branches to remove.
\<close>

theorem mark_all_misses_ancestor:
  "mark_all_ancestors_live 9 (demo_region 0 9 1) (history_reader merge_history) {1, 2, 3, 4, 9} = Some {4} \<and>
   (5, Store_key [1]) \<in> region_points (demo_region 0 9 1) \<and>
   lineage (history_reader merge_history) (history_reader []) (5, Store_key [1]) 9 4"
proof (intro conjI)
  show "mark_all_ancestors_live 9 (demo_region 0 9 1) (history_reader merge_history) {1, 2, 3, 4, 9} = Some {4}"
    by code_simp
  have key: "key_ok (Store_key [1])" by (simp add: key_ok_def key_size_def MAX_KEY_SIZE_def)
  then show "(5, Store_key [1]) \<in> region_points (demo_region 0 9 1)"
    by (subst demo_region_points) simp_all
  let ?l = "lineage (history_reader merge_history) (history_reader []) (5, Store_key [1]) 9"
  have step: "?l (v_branch v)"
    if "?l c" "map_of merge_history c \<noteq> None" "origin_at (bc_origin (the (map_of merge_history c))) (5, Store_key [1]) = Some v"
      "v \<noteq> version_zero" "map_of merge_history (v_branch v) \<noteq> None" for c v
    by (rule lineage.older [OF that(1) _ that(3,4)])
      (use that(2,5) in \<open>auto simp: history_reader_def history_get_branch_def history_is_branch_known_def\<close>)
  have "?l (v_branch (vers 2 9))"
    by (rule step [OF lineage.self]) (simp_all add: merge_history_def origin_at_two_halves key vers_def version_zero_def nil_uuid_def timestamp_zero_def)
  then have "?l 2" by (simp add: vers_def)
  then have "?l (v_branch (vers 1 7))"
    by (rule step) (simp_all add: merge_history_def origin_at_of demo_region_points key vers_def version_zero_def nil_uuid_def timestamp_zero_def)
  then have "?l 1" by (simp add: vers_def)
  then have "?l (v_branch (vers 4 6))"
    by (rule step) (simp_all add: merge_history_def origin_at_two_halves key vers_def version_zero_def nil_uuid_def timestamp_zero_def)
  then show "?l 4" by (simp add: vers_def)
qed

end
