(* ===== verification/Ancestry.thy ===== *)
theory Ancestry
  imports History_Closure
begin

text \<open>
  The history of one point of the table. At a point every version has at most one parent, so the
  ancestors of a version form a chain; this theory has the order of versions along that chain, the
  versions that stand for the same state, and the invariant under which two such chains are walked
  back in search of the last version they share.
\<close>

section \<open>Chains\<close>

type_synonym point = "u64 \<times> store_key"

definition parent_at :: "branch_reader \<Rightarrow> point \<Rightarrow> version_t \<Rightarrow> version_t option" where
  "parent_at rd p v = do { bc \<leftarrow> rd_get_branch rd (v_branch v); origin_at (bc_origin bc) p }"

text \<open>\<open>passed rd p v w\<close>: the point passed through \<open>w\<close> on the way to \<open>v\<close>.\<close>

inductive passed :: "branch_reader \<Rightarrow> point \<Rightarrow> version_t \<Rightarrow> version_t \<Rightarrow> bool" for rd p where
  on_branch: "v_branch w = v_branch v \<Longrightarrow> v_timestamp w \<le> v_timestamp v \<Longrightarrow> passed rd p v w"
| before: "parent_at rd p v = Some u \<Longrightarrow> passed rd p u w \<Longrightarrow> passed rd p v w"

inductive_simps passed_iff: "passed rd p v w"

lemma passed_refl [intro, simp]: "passed rd p v v"
  by (rule on_branch) simp_all

lemma parent_at_branch: "v_branch v = v_branch w \<Longrightarrow> parent_at rd p v = parent_at rd p w"
  by (simp add: parent_at_def)

lemma passed_trans: "passed rd p v w \<Longrightarrow> passed rd p w x \<Longrightarrow> passed rd p v x"
proof (induction rule: passed.induct)
  case (on_branch w v)
  then show ?case
    using parent_at_branch [OF on_branch(1), of rd p] by (subst (asm) passed_iff) (auto intro: passed.intros)
next
  case (before v u w)
  then show ?case by (auto intro: passed.before)
qed

text \<open>The first state of a branch is the state of its origin.\<close>

definition is_start :: "branch_reader \<Rightarrow> version_t \<Rightarrow> bool" where
  "is_start rd v \<longleftrightarrow> map_option bc_initial_timestamp (rd_get_branch rd (v_branch v)) = Some (v_timestamp v)"

inductive same_state :: "branch_reader \<Rightarrow> point \<Rightarrow> version_t \<Rightarrow> version_t \<Rightarrow> bool" for rd p where
  itself: "same_state rd p v v"
| origin: "is_start rd v \<Longrightarrow> parent_at rd p v = Some u \<Longrightarrow> same_state rd p u w \<Longrightarrow> same_state rd p v w"

lemma same_state_trans: "same_state rd p v w \<Longrightarrow> same_state rd p w x \<Longrightarrow> same_state rd p v x"
  by (induction rule: same_state.induct) (auto intro: same_state.intros)

section \<open>Histories\<close>

text \<open>
  The promises of \<open>history.hpp\<close>: the branches form an acyclic graph, the initial timestamp of a
  branch is not below the timestamps of its origin, a version on a branch is not older than the
  branch, and a branch covers the regions in which others descend from it. The nil branch has no
  certificate.
\<close>

definition history_ok :: "branch_reader \<Rightarrow> bool" where
  "history_ok rd \<longleftrightarrow>
     certificates_ok rd \<and> regions_nest rd \<and> rooted_at_zero rd \<and> (\<forall>b. \<not> (parent rd)\<^sup>+\<^sup>+ b b) \<and> rd_get_branch rd nil_uuid = None \<and>
     (\<forall>b bc v. rd_get_branch rd b = Some bc \<and> v \<in> parent_versions bc \<longrightarrow>
        v_timestamp v \<le> bc_initial_timestamp bc \<and>
        (\<forall>bc'. rd_get_branch rd (v_branch v) = Some bc' \<longrightarrow> bc_initial_timestamp bc' \<le> v_timestamp v))"

text \<open>A history that knows every branch it mentions.\<close>

definition complete_history :: "branch_reader \<Rightarrow> bool" where
  "complete_history rd \<longleftrightarrow>
     (\<forall>b bc v. rd_get_branch rd b = Some bc \<and> v \<in> parent_versions bc \<longrightarrow>
        v = version_zero \<or> rd_get_branch rd (v_branch v) \<noteq> None)"

definition height :: "branch_reader \<Rightarrow> branch_id \<Rightarrow> nat" where
  "height rd b = (if is_nil b then 0 else Suc (card {c. (parent rd)\<^sup>+\<^sup>+ b c}))"

lemma parent_versions_at: "origin_at (bc_origin bc) p = Some v \<Longrightarrow> v \<in> parent_versions bc"
  unfolding parent_versions_def by (rule ranI)

lemma height_parent:
  assumes ok: "history_ok rd" and par: "parent_at rd p v = Some u"
  shows "height rd (v_branch u) < height rd (v_branch v)"
proof -
  obtain bc where bc: "rd_get_branch rd (v_branch v) = Some bc" "u \<in> parent_versions bc"
    using par parent_versions_at by (auto simp: parent_at_def split: bind_splits)
  have v: "\<not> is_nil (v_branch v)" using bc(1) ok by (auto simp: history_ok_def is_nil_def)
  show ?thesis
  proof (cases "is_nil (v_branch u)")
    case True
    then show ?thesis using v by (simp add: height_def)
  next
    case False
    then have step: "parent rd (v_branch v) (v_branch u)" using bc by (auto simp: parent_def)
    have "\<not> (parent rd)\<^sup>+\<^sup>+ (v_branch u) (v_branch u)"
      using ok by (simp add: history_ok_def)
    then have "{c. (parent rd)\<^sup>+\<^sup>+ (v_branch u) c} \<subset> {c. (parent rd)\<^sup>+\<^sup>+ (v_branch v) c}"
      using step by (auto intro: tranclp_into_tranclp2)
    then have "card {c. (parent rd)\<^sup>+\<^sup>+ (v_branch u) c} < card {c. (parent rd)\<^sup>+\<^sup>+ (v_branch v) c}"
      by (intro psubset_card_mono) simp_all
    then show ?thesis using v False by (simp add: height_def)
  qed
qed

lemma height_passed: "history_ok rd \<Longrightarrow> passed rd p v w \<Longrightarrow> height rd (v_branch w) \<le> height rd (v_branch v)"
  by (rotate_tac, induction rule: passed.induct) (auto dest: height_parent)

text \<open>A chain does not come back to a branch it has left.\<close>

lemma no_return:
  assumes "history_ok rd" and "parent_at rd p v = Some u" and "passed rd p u w"
  shows "v_branch w \<noteq> v_branch v"
  using height_parent [OF assms(1,2)] height_passed [OF assms(1,3)] by auto

definition version_ok :: "branch_reader \<Rightarrow> point \<Rightarrow> version_t \<Rightarrow> bool" where
  "version_ok rd p v \<longleftrightarrow>
     v = version_zero \<or>
     (\<exists>bc. rd_get_branch rd (v_branch v) = Some bc \<and> bc_initial_timestamp bc \<le> v_timestamp v \<and>
        p \<in> dom (origin_at (bc_origin bc)))"

lemma version_zero_parent: "history_ok rd \<Longrightarrow> parent_at rd p version_zero = None"
  by (simp add: history_ok_def parent_at_def version_zero_def)

lemma passed_zero: "history_ok rd \<Longrightarrow> passed rd p version_zero w \<Longrightarrow> w = version_zero"
  by (subst (asm) passed_iff, elim disjE) (auto simp: version_zero_parent, simp add: version_zero_def timestamp_zero_def)

lemma version_ok_parent:
  assumes ok: "history_ok rd" "complete_history rd" and v: "version_ok rd p v" "v \<noteq> version_zero"
  obtains bc u where "rd_get_branch rd (v_branch v) = Some bc" "bc_initial_timestamp bc \<le> v_timestamp v"
    "parent_at rd p v = Some u" "version_ok rd p u" "v_timestamp u \<le> bc_initial_timestamp bc"
proof -
  obtain bc u where bc: "rd_get_branch rd (v_branch v) = Some bc" "bc_initial_timestamp bc \<le> v_timestamp v"
    "origin_at (bc_origin bc) p = Some u"
    using v by (auto simp: version_ok_def)
  note u = parent_versions_at [OF bc(3)]
  have "v_timestamp u \<le> bc_initial_timestamp bc" using ok(1) bc(1) u by (auto simp: history_ok_def)
  moreover have "version_ok rd p u"
  proof (cases "u = version_zero")
    case False
    then obtain bc' where bc': "rd_get_branch rd (v_branch u) = Some bc'"
      using ok(2) bc(1) u unfolding complete_history_def by blast
    have "bc_initial_timestamp bc' \<le> v_timestamp u" using ok(1) bc(1) u bc' by (auto simp: history_ok_def)
    moreover have "p \<in> dom (origin_at (bc_origin bc'))"
      using ok(1) bc(1,3) bc' False unfolding history_ok_def regions_nest_def by blast
    ultimately show ?thesis using bc' by (auto simp: version_ok_def)
  qed (simp add: version_ok_def)
  moreover have "parent_at rd p v = Some u" using bc(1,3) by (simp add: parent_at_def)
  ultimately show thesis using that bc(1,2) by blast
qed

lemma passed_timestamp:
  assumes ok: "history_ok rd" "complete_history rd" and "passed rd p v w" and "version_ok rd p v"
  shows "v_timestamp w \<le> v_timestamp v"
  using assms(3,4)
proof (induction rule: passed.induct)
  case (before v u w)
  then have "v \<noteq> version_zero" using version_zero_parent [OF ok(1), of p] by auto
  then obtain bc u' where "rd_get_branch rd (v_branch v) = Some bc" "bc_initial_timestamp bc \<le> v_timestamp v"
    "parent_at rd p v = Some u'" "version_ok rd p u'" "v_timestamp u' \<le> bc_initial_timestamp bc"
    by (rule version_ok_parent [OF ok before.prems]) blast
  then show ?case using before by force
qed simp

lemma passed_to_zero:
  assumes ok: "history_ok rd" "complete_history rd"
  shows "version_ok rd p v \<Longrightarrow> passed rd p v version_zero"
proof (induction "height rd (v_branch v)" arbitrary: v rule: less_induct)
  case less
  show ?case
  proof (cases "v = version_zero")
    case False
    then obtain u where "parent_at rd p v = Some u" "version_ok rd p u"
      by (rule version_ok_parent [OF ok less.prems]) blast
    then show ?thesis using less.hyps height_parent [OF ok(1)] by (blast intro: passed.before)
  qed simp
qed

section \<open>The last common ancestor\<close>

text \<open>
  \<open>last_common rd p V W r\<close>: the point passed through \<open>r\<close> on the way to both versions, and through
  every other version they have in common on the way to \<open>r\<close>. The exception are versions of the
  initial empty database: \<open>r\<close> may be \<open>version_t::zero()\<close> although a later branch that starts with
  the same empty state is common.
\<close>

definition last_common :: "branch_reader \<Rightarrow> point \<Rightarrow> version_t \<Rightarrow> version_t \<Rightarrow> version_t \<Rightarrow> bool" where
  "last_common rd p V W r \<longleftrightarrow>
     passed rd p V r \<and> passed rd p W r \<and>
     (\<forall>w. version_ok rd p w \<and> passed rd p V w \<and> passed rd p W w \<longrightarrow>
        passed rd p r w \<or> r = version_zero \<and> same_state rd p w version_zero)"

lemma last_common_sym: "last_common rd p V W r \<longleftrightarrow> last_common rd p W V r"
  by (auto simp: last_common_def)

text \<open>
  One of the two chains of a search: from \<open>V\<close> it has come back to \<open>v\<close>; the versions \<open>E\<close>, all
  starts of branches, stand for the same state and were passed just before.
\<close>

definition walked :: "branch_reader \<Rightarrow> point \<Rightarrow> version_t \<Rightarrow> version_t \<Rightarrow> version_t set \<Rightarrow> bool" where
  "walked rd p V v E \<longleftrightarrow>
     version_ok rd p v \<and> passed rd p V v \<and>
     (\<forall>e \<in> E. version_ok rd p e \<and> passed rd p V e \<and> is_start rd e \<and> v_timestamp v \<le> v_timestamp e \<and> same_state rd p e v \<and>
        (\<exists>u. parent_at rd p e = Some u \<and> passed rd p u v))"

text \<open>The other chain has no more of the branches in \<open>E\<close> than their starts.\<close>

definition only_starts :: "branch_reader \<Rightarrow> point \<Rightarrow> version_t set \<Rightarrow> version_t \<Rightarrow> bool" where
  "only_starts rd p E v \<longleftrightarrow>
     (\<forall>e \<in> E. \<forall>w. passed rd p v w \<and> v_branch w = v_branch e \<longrightarrow> v_timestamp w \<le> v_timestamp e)"

definition search ::
  "branch_reader \<Rightarrow> point \<Rightarrow> version_t \<Rightarrow> version_t \<Rightarrow> version_t \<Rightarrow> version_t set \<Rightarrow> version_t \<Rightarrow> version_t set \<Rightarrow> bool" where
  "search rd p V W v E w F \<longleftrightarrow>
     walked rd p V v E \<and> walked rd p W w F \<and> E \<inter> F = {} \<and> only_starts rd p E w \<and> only_starts rd p F v \<and>
     (\<forall>x. version_ok rd p x \<and> passed rd p V x \<and> passed rd p W x \<longrightarrow>
        (passed rd p v x \<or> x \<in> E) \<and> (passed rd p w x \<or> x \<in> F))"

lemma search_sym: "search rd p V W v E w F \<longleftrightarrow> search rd p W V w F v E"
  by (auto simp: search_def)

lemma search_init: "version_ok rd p V \<Longrightarrow> version_ok rd p W \<Longrightarrow> search rd p V W V {} W {}"
  by (simp add: search_def walked_def only_starts_def)

lemma search_same_branch:
  assumes ok: "history_ok rd" and s: "search rd p V W v E w F" and b: "v_branch v = v_branch w"
  shows "last_common rd p V W \<lparr>v_branch = v_branch v, v_timestamp = min (v_timestamp v) (v_timestamp w)\<rparr>" (is "last_common _ _ _ _ ?r")
proof -
  have below: "passed rd p v ?r" "passed rd p w ?r" using b by (auto intro!: passed.on_branch)
  have either: "?r = v \<or> ?r = w" using b by (auto simp: min_def)
  have via: "False" if x: "x \<in> E'" "walked rd p V' v' E'" "passed rd p w' x" "v_branch v' = v_branch w'" for x E' V' v' w'
  proof -
    obtain u where u: "parent_at rd p x = Some u" "passed rd p u v'" using x(1,2) by (auto simp: walked_def)
    have "height rd (v_branch v') \<le> height rd (v_branch u)" "height rd (v_branch u) < height rd (v_branch x)"
      "height rd (v_branch x) \<le> height rd (v_branch w')"
      using height_passed [OF ok u(2)] height_parent [OF ok u(1)] height_passed [OF ok x(3)] .
    then show False using x(4) by simp
  qed
  have "passed rd p ?r x" if x: "version_ok rd p x" "passed rd p V x" "passed rd p W x" for x
  proof -
    have c: "passed rd p v x \<or> x \<in> E" "passed rd p w x \<or> x \<in> F" "\<not> (x \<in> E \<and> x \<in> F)"
      using s x unfolding search_def by blast+
    have "\<not> (x \<in> E \<and> passed rd p w x)" "\<not> (x \<in> F \<and> passed rd p v x)"
      using via [of x E V v w] via [of x F W w v] s b by (auto simp: search_def)
    then have "passed rd p v x" "passed rd p w x" using c by blast+
    then show ?thesis using either by auto
  qed
  moreover have "passed rd p V ?r" "passed rd p W ?r"
    using s below by (auto simp: search_def walked_def intro: passed_trans)
  ultimately show ?thesis unfolding last_common_def by blast
qed

lemma search_equivalent:
  assumes ok: "history_ok rd" and s: "search rd p V W v E w F" and w: "w \<in> E"
  shows "last_common rd p V W w"
proof -
  have pass: "passed rd p V w" "passed rd p W w" using s w by (auto simp: search_def walked_def)
  have "passed rd p w x" if x: "version_ok rd p x" "passed rd p V x" "passed rd p W x" for x
  proof (rule ccontr)
    assume n: "\<not> passed rd p w x"
    then have xF: "x \<in> F" and "passed rd p v x" using s x unfolding search_def by blast+
    obtain u where u: "parent_at rd p x = Some u" "passed rd p u w" using s xF by (auto simp: search_def walked_def)
    obtain u' where u': "parent_at rd p w = Some u'" "passed rd p u' v" using s w by (auto simp: search_def walked_def)
    have "height rd (v_branch x) \<le> height rd (v_branch v)" "height rd (v_branch v) \<le> height rd (v_branch u')"
      "height rd (v_branch u') < height rd (v_branch w)" "height rd (v_branch w) \<le> height rd (v_branch u)"
      "height rd (v_branch u) < height rd (v_branch x)"
      using height_passed [OF ok \<open>passed rd p v x\<close>] height_passed [OF ok u'(2)] height_parent [OF ok u'(1)]
        height_passed [OF ok u(2)] height_parent [OF ok u(1)] .
    then show False by simp
  qed
  with pass show ?thesis unfolding last_common_def by blast
qed

lemma search_zero:
  assumes ok: "history_ok rd" "complete_history rd" and s: "search rd p V W version_zero E w F"
  shows "last_common rd p V W version_zero"
proof -
  have "passed rd p V version_zero" "passed rd p W w" "version_ok rd p w" using s by (auto simp: search_def walked_def)
  moreover from this have "passed rd p W version_zero" using passed_to_zero [OF ok] passed_trans by blast
  moreover have "passed rd p version_zero x \<or> same_state rd p x version_zero"
    if "version_ok rd p x" "passed rd p V x" "passed rd p W x" for x
    using s that unfolding search_def walked_def by blast
  ultimately show ?thesis unfolding last_common_def by blast
qed

text \<open>
  One step back on the chain whose branch starts later: what it passes, besides the start of the
  branch, the other chain cannot pass any more.
\<close>

lemma later_branch:
  assumes ok: "history_ok rd" "complete_history rd" and w: "version_ok rd p w" "w \<noteq> version_zero"
    and b2: "rd_get_branch rd (v_branch w) = Some b2" and x: "passed rd p w x" "v_branch x \<noteq> v_branch w"
  shows "v_timestamp x \<le> bc_initial_timestamp b2"
proof -
  obtain bc u where u: "rd_get_branch rd (v_branch w) = Some bc" "parent_at rd p w = Some u" "version_ok rd p u"
    "v_timestamp u \<le> bc_initial_timestamp bc"
    by (rule version_ok_parent [OF ok w]) blast
  have "passed rd p u x" using x u(2) by (subst (asm) passed_iff) auto
  then show ?thesis using passed_timestamp [OF ok _ u(3)] u(1,4) b2 by force
qed

lemma walked_step:
  assumes ok: "history_ok rd" "complete_history rd" and s: "walked rd p V v E" and v: "v \<noteq> version_zero"
    and b1: "rd_get_branch rd (v_branch v) = Some b1" and u: "parent_at rd p v = Some u"
  defines "start \<equiv> \<lparr>v_branch = v_branch v, v_timestamp = bc_initial_timestamp b1\<rparr>"
  shows "walked rd p V u (insert start (if v_timestamp v = bc_initial_timestamp b1 then E else {}))"
proof -
  have vok: "version_ok rd p v" and pass: "passed rd p V v" using s by (simp_all add: walked_def)
  obtain bc u' where "rd_get_branch rd (v_branch v) = Some bc" "bc_initial_timestamp bc \<le> v_timestamp v"
    "parent_at rd p v = Some u'" "version_ok rd p u'" "v_timestamp u' \<le> bc_initial_timestamp bc"
    by (rule version_ok_parent [OF ok vok v]) blast
  then have le: "bc_initial_timestamp b1 \<le> v_timestamp v" and uok: "version_ok rd p u" "v_timestamp u \<le> bc_initial_timestamp b1"
    using b1 u by auto
  have vu: "passed rd p v u" using u by (rule passed.before) simp
  have Vu: "passed rd p V u" by (rule passed_trans [OF pass vu])
  have su: "parent_at rd p start = Some u" using u by (simp add: start_def parent_at_def)
  have st: "is_start rd start" using b1 by (simp add: is_start_def start_def)
  have "passed rd p v start" using le by (auto simp: start_def intro: passed.on_branch)
  then have Vs: "passed rd p V start" by (rule passed_trans [OF pass])
  have "p \<in> dom (origin_at (bc_origin b1))" using u b1 by (auto simp: parent_at_def)
  then have sok: "version_ok rd p start" using b1 by (simp add: version_ok_def start_def)
  have start: "version_ok rd p start \<and> passed rd p V start \<and> is_start rd start \<and> v_timestamp u \<le> v_timestamp start \<and>
      same_state rd p start u \<and> (\<exists>y. parent_at rd p start = Some y \<and> passed rd p y u)"
    using sok Vs st uok(2) su same_state.origin [OF st su same_state.itself] by (simp add: start_def)
  have kept: "version_ok rd p e \<and> passed rd p V e \<and> is_start rd e \<and> v_timestamp u \<le> v_timestamp e \<and>
      same_state rd p e u \<and> (\<exists>y. parent_at rd p e = Some y \<and> passed rd p y u)"
    if e: "e \<in> E" and t: "v_timestamp v = bc_initial_timestamp b1" for e
  proof -
    have old: "version_ok rd p e" "passed rd p V e" "is_start rd e" "v_timestamp v \<le> v_timestamp e" "same_state rd p e v"
      using s e by (auto simp: walked_def)
    obtain y where y: "parent_at rd p e = Some y" "passed rd p y v" using s e by (auto simp: walked_def)
    have "is_start rd v" using b1 t by (simp add: is_start_def)
    then have "same_state rd p e u" using old(5) u by (blast intro: same_state_trans same_state.intros)
    moreover have "passed rd p y u" by (rule passed_trans [OF y(2) vu])
    ultimately show ?thesis using old(1-4) y(1) uok(2) t by auto
  qed
  show ?thesis unfolding walked_def using uok(1) Vu start kept by auto
qed

lemma search_step:
  assumes ok: "history_ok rd" "complete_history rd" and s: "search rd p V W v E w F"
    and diff: "v_branch v \<noteq> v_branch w" "v \<notin> F" "v \<noteq> version_zero" "w \<noteq> version_zero"
    and b: "rd_get_branch rd (v_branch v) = Some b1" "rd_get_branch rd (v_branch w) = Some b2"
      "bc_initial_timestamp b2 \<le> bc_initial_timestamp b1"
    and u: "parent_at rd p v = Some u"
  shows "search rd p V W u
    (insert \<lparr>v_branch = v_branch v, v_timestamp = bc_initial_timestamp b1\<rparr>
      (if v_timestamp v = bc_initial_timestamp b1 then E else {})) w F"
    (is "search _ _ _ _ _ (insert ?start ?E) _ _")
proof -
  have vs: "walked rd p V v E" "walked rd p W w F" "E \<inter> F = {}" "only_starts rd p E w" "only_starts rd p F v"
    using s by (simp_all add: search_def)
  have vok: "version_ok rd p v" and wok: "version_ok rd p w" using vs by (simp_all add: walked_def)
  have le: "bc_initial_timestamp b1 \<le> v_timestamp v"
    using vok diff(3) b(1) by (auto simp: version_ok_def)
  have late: "v_timestamp x \<le> bc_initial_timestamp b1" if "passed rd p w x" "v_branch x \<noteq> v_branch w" for x
    using later_branch [OF ok wok diff(4) b(2) that] b(3) by simp
  have vu: "passed rd p v u" using u by (rule passed.before) simp
  have start_new: "?start \<notin> F"
  proof
    assume "?start \<in> F"
    then have "v_timestamp v \<le> v_timestamp ?start" using vs(5) unfolding only_starts_def by fastforce
    then have "v = ?start" using le by (intro version_t.equality) auto
    then show False using \<open>?start \<in> F\<close> diff(2) by simp
  qed
  have new: "(passed rd p u x \<or> x \<in> insert ?start ?E) \<and> (passed rd p w x \<or> x \<in> F)"
    if x: "version_ok rd p x" "passed rd p V x" "passed rd p W x" for x
  proof -
    have c: "passed rd p v x \<or> x \<in> E" "passed rd p w x \<or> x \<in> F" using s x unfolding search_def by blast+
    have "passed rd p u x \<or> x \<in> insert ?start ?E"
    proof (cases "passed rd p v x")
      case True
      then consider "v_branch x = v_branch v" "v_timestamp x \<le> v_timestamp v" | "passed rd p u x"
        using u by (subst (asm) passed_iff) auto
      then show ?thesis
      proof cases
        case 1
        have "x \<noteq> version_zero" using b(1) 1(1) ok(1) by (auto simp: history_ok_def version_zero_def)
        then have low: "bc_initial_timestamp b1 \<le> v_timestamp x" using x(1) 1(1) b(1) by (auto simp: version_ok_def)
        have "v_timestamp x \<le> bc_initial_timestamp b1"
        proof (cases "passed rd p w x")
          case True
          then show ?thesis using late 1(1) diff(1) by simp
        next
          case False
          then have "is_start rd x" using c(2) vs(2) by (auto simp: walked_def)
          then show ?thesis using b(1) 1(1) by (simp add: is_start_def)
        qed
        then have "x = ?start" using low 1(1) by (intro version_t.equality) auto
        then show ?thesis by simp
      qed simp
    next
      case False
      then have xE: "x \<in> E" using c(1) by simp
      then have pw: "passed rd p w x" using c(2) vs(3) by blast
      have "v_timestamp v \<le> bc_initial_timestamp b1"
      proof (cases "v_branch x = v_branch w")
        case True
        have "is_start rd x" "v_timestamp v \<le> v_timestamp x" using vs(1) xE by (auto simp: walked_def)
        then show ?thesis using True b(2,3) by (simp add: is_start_def)
      next
        case other: False
        then show ?thesis using late [OF pw] vs(1) xE by (force simp: walked_def)
      qed
      then show ?thesis using le xE by auto
    qed
    with c(2) show ?thesis by blast
  qed
  show ?thesis
    unfolding search_def
  proof (intro conjI)
    show "walked rd p V u (insert ?start ?E)" by (rule walked_step [OF ok vs(1) diff(3) b(1) u])
    show "walked rd p W w F" by (rule vs(2))
    show "insert ?start ?E \<inter> F = {}" using start_new vs(3) by auto
    show "only_starts rd p (insert ?start ?E) w"
      using vs(4) late diff(1) by (auto simp: only_starts_def)
    show "only_starts rd p F u" using vs(5) passed_trans [OF vu] by (auto simp: only_starts_def)
  qed (use new in blast)
qed

end
