(* ===== verification/Version_Order.thy ===== *)
theory Version_Order
  imports Ancestry
begin

text \<open>
  The lookups in a branch history, \<open>version_is_ancestor()\<close>, \<open>version_find_common()\<close> and
  \<open>version_find_branch_common()\<close> of \<open>clustering/immediate_consistency/history.cc\<close>. Their loops end
  only for histories without cycles, so they are partial functions: \<open>None\<close> is an abort or a loop
  that does not end. A thrown \<open>missing_branch_exc_t\<close> is a result.
\<close>

section \<open>The lookups\<close>

datatype 'a lookup_result = Missing_branch_exc | Returned 'a

partial_function (option) ancestor_loop ::
  "branch_reader \<Rightarrow> version_t \<Rightarrow> (hash_region \<times> version_t) list \<Rightarrow> bool \<Rightarrow> bool lookup_result option" where
  "ancestor_loop bh ancestor stack missing =
     (case stack of
        [] \<Rightarrow> Some (if missing then Missing_branch_exc else Returned True)
      | x # stack \<Rightarrow>
          let reg = fst x; vers = snd x
          in
            if v_branch vers = v_branch ancestor \<and> v_timestamp vers \<ge> v_timestamp ancestor
            then ancestor_loop bh ancestor stack missing
            else if v_timestamp vers < v_timestamp ancestor then Some (Returned False)
            else
              case rd_get_branch bh (v_branch vers) of
                None \<Rightarrow> ancestor_loop bh ancestor stack True
              | Some bc \<Rightarrow>
                  Option.bind (region_map_visit (bc_origin bc) reg)
                    (\<lambda>pieces. ancestor_loop bh ancestor (rev pieces @ stack) missing))"

declare ancestor_loop.simps [code]

definition version_is_ancestor ::
  "branch_reader \<Rightarrow> version_t \<Rightarrow> version_t \<Rightarrow> hash_region \<Rightarrow> bool lookup_result option" where
  "version_is_ancestor bh ancestor descendent relevant_region =
     ancestor_loop bh ancestor [(relevant_region, descendent)] False"

record fragment =
  fg_r :: hash_region
  fg_v1 :: version_t
  fg_v2 :: version_t
  fg_v1_equiv :: "version_t set"
  fg_v2_equiv :: "version_t set"

definition fragment_swap :: "fragment \<Rightarrow> fragment" where
  "fragment_swap x =
     x\<lparr>fg_v1 := fg_v2 x, fg_v2 := fg_v1 x, fg_v1_equiv := fg_v2_equiv x, fg_v2_equiv := fg_v1_equiv x\<rparr>"

text \<open>Going from \<open>v1\<close>, on the branch born with \<open>b1\<close>, to the parents of that branch.\<close>

definition recurse_to_parents :: "fragment \<Rightarrow> birth_certificate \<Rightarrow> fragment list option" where
  "recurse_to_parents x b1 =
     (let start = \<lparr>v_branch = v_branch (fg_v1 x), v_timestamp = bc_initial_timestamp b1\<rparr>;
          v1_equiv = insert start
            (if v_timestamp (fg_v1 x) = bc_initial_timestamp b1 then fg_v1_equiv x else {})
      in do {
        d \<leftarrow> get_domain (bc_origin b1);
        pieces \<leftarrow> (if region_is_superset d (fg_r x) then region_map_visit (bc_origin b1) (fg_r x) else None);
        Some (map (\<lambda>(reg, vers). x\<lparr>fg_r := reg, fg_v1 := vers, fg_v1_equiv := v1_equiv\<rparr>) pieces)
      })"

text \<open>The cases in which a fragment goes to the result, with its version.\<close>

definition common_base_case :: "fragment \<Rightarrow> version_t option" where
  "common_base_case x =
     (let v1 = fg_v1 x; v2 = fg_v2 x
      in
        if v_branch v1 = v_branch v2 then
          Some \<lparr>v_branch = v_branch v1, v_timestamp = min (v_timestamp v1) (v_timestamp v2)\<rparr>
        else if v2 \<in> fg_v1_equiv x then Some v2
        else if v1 \<in> fg_v2_equiv x then Some v1
        else if v1 = version_zero \<or> v2 = version_zero then Some version_zero
        else None)"

partial_function (option) find_common_loop ::
  "branch_reader \<Rightarrow> fragment list \<Rightarrow> hash_region list \<Rightarrow> version_t list \<Rightarrow>
     (hash_region list \<times> version_t list) lookup_result option" where
  "find_common_loop bh stack result_regions result_versions =
     (case stack of
        [] \<Rightarrow> Some (Returned (result_regions, result_versions))
      | x # stack \<Rightarrow>
          case common_base_case x of
            Some v \<Rightarrow> find_common_loop bh stack (result_regions @ [fg_r x]) (result_versions @ [v])
          | None \<Rightarrow>
              case rd_get_branch bh (v_branch (fg_v1 x)) of
                None \<Rightarrow> Some Missing_branch_exc
              | Some b1 \<Rightarrow>
                  case rd_get_branch bh (v_branch (fg_v2 x)) of
                    None \<Rightarrow> Some Missing_branch_exc
                  | Some b2 \<Rightarrow>
                      Option.bind
                        (if bc_initial_timestamp b1 < bc_initial_timestamp b2
                         then recurse_to_parents (fragment_swap x) b2
                         else recurse_to_parents x b1)
                        (\<lambda>fragments. find_common_loop bh (rev fragments @ stack) result_regions result_versions))"

declare find_common_loop.simps [code]

definition find_common_fragments ::
  "branch_reader \<Rightarrow> version_t \<Rightarrow> version_t \<Rightarrow> hash_region \<Rightarrow> (hash_region list \<times> version_t list) lookup_result option" where
  "find_common_fragments bh initial_v1 initial_v2 initial_region =
     find_common_loop bh
       [\<lparr>fg_r = initial_region, fg_v1 = initial_v1, fg_v2 = initial_v2, fg_v1_equiv = {}, fg_v2_equiv = {}\<rparr>] [] []"

text \<open>\<open>v0\<close> is the \<open>version_t()\<close> the map is filled with before the fragments are written.\<close>

definition version_find_common ::
  "version_t \<Rightarrow> branch_reader \<Rightarrow> version_t \<Rightarrow> version_t \<Rightarrow> hash_region \<Rightarrow> version_t region_map lookup_result option" where
  "version_find_common v0 bh initial_v1 initial_v2 initial_region =
     do {
       res \<leftarrow> find_common_fragments bh initial_v1 initial_v2 initial_region;
       (case res of
          Missing_branch_exc \<Rightarrow> Some Missing_branch_exc
        | Returned (regions, versions) \<Rightarrow>
            do { m \<leftarrow> from_unordered_fragments v0 regions versions; Some (Returned m) })
     }"

definition version_find_branch_common ::
  "version_t \<Rightarrow> branch_reader \<Rightarrow> version_t \<Rightarrow> branch_id \<Rightarrow> hash_region \<Rightarrow> version_t region_map lookup_result option" where
  "version_find_branch_common v0 bh version branch relevant_region =
     version_find_common v0 bh version
       (if is_nil branch then version_zero else \<lparr>v_branch = branch, v_timestamp = timestamp_max\<rparr>) relevant_region"

section \<open>Walking back one branch\<close>

text \<open>Visiting the origin of a branch on a region it covers.\<close>

lemma origin_visit:
  assumes ok: "certificates_ok rd" and bc: "rd_get_branch rd (v_branch v) = Some bc"
    and r: "hash_region_ok r" "region_points r \<noteq> {}" "region_points r \<subseteq> dom (origin_at (bc_origin bc))"
  obtains ps where "region_map_visit (bc_origin bc) r = Some ps"
    "cuts region_points hash_region_ok (region_points r) (map fst ps)"
    "\<forall>(s, u) \<in> set ps. \<forall>p \<in> region_points s. parent_at rd p v = Some u"
proof -
  have o: "origin_ok (bc_origin bc)" using ok bc by (simp add: certificates_ok_def)
  then have o': "region_map_ok (bc_origin bc)" "edges_ok (bc_origin bc)" by (simp_all add: origin_ok_def)
  obtain ps where "region_map_visit (bc_origin bc) r = Some ps"
    "cuts region_points hash_region_ok (region_points r) (map fst ps)"
    "\<forall>(s, u) \<in> set ps. \<forall>p \<in> region_points s. origin_at (bc_origin bc) p = Some u"
    "snd ` set ps = {u. \<exists>p \<in> region_points r. origin_at (bc_origin bc) p = Some u}"
    by (rule visit_values [OF o' region_inside_origin [OF o r] r(1,2)])
  then show thesis using bc by (intro that [of ps]) (auto simp: parent_at_def)
qed

definition fragment_ok :: "branch_reader \<Rightarrow> fragment \<Rightarrow> bool" where
  "fragment_ok rd x \<longleftrightarrow>
     hash_region_ok (fg_r x) \<and> region_points (fg_r x) \<noteq> {} \<and>
     (\<forall>p \<in> region_points (fg_r x). version_ok rd p (fg_v1 x) \<and> version_ok rd p (fg_v2 x))"

definition fragment_height :: "branch_reader \<Rightarrow> fragment \<Rightarrow> nat" where
  "fragment_height rd x = height rd (v_branch (fg_v1 x)) + height rd (v_branch (fg_v2 x))"

text \<open>The last common ancestors of all searches a fragment may belong to.\<close>

definition fragment_answer :: "branch_reader \<Rightarrow> fragment \<Rightarrow> point \<Rightarrow> version_t \<Rightarrow> bool" where
  "fragment_answer rd x p r \<longleftrightarrow>
     (\<forall>V W. search rd p V W (fg_v1 x) (fg_v1_equiv x) (fg_v2 x) (fg_v2_equiv x) \<longrightarrow> last_common rd p V W r)"

lemma fragment_swap_simps [simp]:
  "fg_r (fragment_swap x) = fg_r x" "fg_v1 (fragment_swap x) = fg_v2 x" "fg_v2 (fragment_swap x) = fg_v1 x"
  "fg_v1_equiv (fragment_swap x) = fg_v2_equiv x" "fg_v2_equiv (fragment_swap x) = fg_v1_equiv x"
  by (simp_all add: fragment_swap_def)

lemma fragment_swap_facts:
  "fragment_ok rd (fragment_swap x) \<longleftrightarrow> fragment_ok rd x"
  "fragment_height rd (fragment_swap x) = fragment_height rd x"
  "fragment_answer rd (fragment_swap x) p r \<longleftrightarrow> fragment_answer rd x p r"
proof -
  show "fragment_ok rd (fragment_swap x) \<longleftrightarrow> fragment_ok rd x" "fragment_height rd (fragment_swap x) = fragment_height rd x"
    by (auto simp: fragment_ok_def fragment_height_def)
  show "fragment_answer rd (fragment_swap x) p r \<longleftrightarrow> fragment_answer rd x p r"
    unfolding fragment_answer_def fragment_swap_simps using search_sym last_common_sym by metis
qed

lemma common_base_case_answer:
  assumes ok: "history_ok rd" "complete_history rd" and x: "common_base_case x = Some r"
  shows "fragment_answer rd x p r"
  unfolding fragment_answer_def
proof (intro allI impI)
  fix V W assume s: "search rd p V W (fg_v1 x) (fg_v1_equiv x) (fg_v2 x) (fg_v2_equiv x)"
  have s': "search rd p W V (fg_v2 x) (fg_v2_equiv x) (fg_v1 x) (fg_v1_equiv x)" using s by (simp add: search_sym)
  consider (branch) "v_branch (fg_v1 x) = v_branch (fg_v2 x)"
      "r = \<lparr>v_branch = v_branch (fg_v1 x), v_timestamp = min (v_timestamp (fg_v1 x)) (v_timestamp (fg_v2 x))\<rparr>"
    | (equiv1) "fg_v2 x \<in> fg_v1_equiv x" "r = fg_v2 x" | (equiv2) "fg_v1 x \<in> fg_v2_equiv x" "r = fg_v1 x"
    | (zero1) "fg_v1 x = version_zero" "r = version_zero" | (zero2) "fg_v2 x = version_zero" "r = version_zero"
    using x by (auto simp: common_base_case_def Let_def split: if_splits)
  then show "last_common rd p V W r"
  proof cases
    case branch
    then show ?thesis using search_same_branch [OF ok(1) s] by simp
  next
    case equiv1
    then show ?thesis using search_equivalent [OF ok(1) s] by simp
  next
    case equiv2
    then show ?thesis using search_equivalent [OF ok(1) s'] by (simp add: last_common_sym [of rd p V W])
  next
    case zero1
    then show ?thesis using search_zero [OF ok] s by simp
  next
    case zero2
    then show ?thesis using search_zero [OF ok] s' by (simp add: last_common_sym [of rd p V W])
  qed
qed

lemma recurse_to_parents_children:
  assumes ok: "history_ok rd" "complete_history rd" and x: "fragment_ok rd x" "common_base_case x = None"
    and b: "rd_get_branch rd (v_branch (fg_v1 x)) = Some b1" "rd_get_branch rd (v_branch (fg_v2 x)) = Some b2"
      "bc_initial_timestamp b2 \<le> bc_initial_timestamp b1"
  shows "\<exists>ys. recurse_to_parents x b1 = Some ys \<and>
    cuts region_points hash_region_ok (region_points (fg_r x)) (map fg_r ys) \<and>
    (\<forall>y \<in> set ys. fragment_ok rd y \<and> fragment_height rd y < fragment_height rd x \<and>
      (\<forall>p \<in> region_points (fg_r y). \<forall>r. fragment_answer rd y p r \<longrightarrow> fragment_answer rd x p r))"
proof -
  have cert: "certificates_ok rd" using ok(1) by (simp add: history_ok_def)
  have nz: "v_branch (fg_v1 x) \<noteq> v_branch (fg_v2 x)" "fg_v1 x \<notin> fg_v2_equiv x" "fg_v1 x \<noteq> version_zero" "fg_v2 x \<noteq> version_zero"
    using x(2) by (auto simp: common_base_case_def Let_def split: if_splits)
  have r: "hash_region_ok (fg_r x)" "region_points (fg_r x) \<noteq> {}" using x(1) by (simp_all add: fragment_ok_def)
  have sub: "region_points (fg_r x) \<subseteq> dom (origin_at (bc_origin b1))"
  proof
    fix p assume "p \<in> region_points (fg_r x)"
    then have "version_ok rd p (fg_v1 x)" using x(1) by (simp add: fragment_ok_def)
    then show "p \<in> dom (origin_at (bc_origin b1))" using nz(3) b(1) by (auto simp: version_ok_def)
  qed
  obtain ps where ps: "region_map_visit (bc_origin b1) (fg_r x) = Some ps"
    "cuts region_points hash_region_ok (region_points (fg_r x)) (map fst ps)"
    "\<forall>(s, u) \<in> set ps. \<forall>p \<in> region_points s. parent_at rd p (fg_v1 x) = Some u"
    by (rule origin_visit [OF cert b(1) r sub])
  have o: "origin_ok (bc_origin b1)" using cert b(1) by (simp add: certificates_ok_def)
  obtain d where d: "get_domain (bc_origin b1) = Some d" "hash_region_ok d" "region_points d \<noteq> {}"
    "region_inside d (bc_origin b1)" "region_points d = dom (origin_at (bc_origin b1))"
    by (rule origin_domain [OF o])
  have sup: "region_is_superset d (fg_r x)" using hash.superset_iff [OF d(2) r(1)] d(5) sub by simp
  let ?E = "insert \<lparr>v_branch = v_branch (fg_v1 x), v_timestamp = bc_initial_timestamp b1\<rparr>
      (if v_timestamp (fg_v1 x) = bc_initial_timestamp b1 then fg_v1_equiv x else {})"
  let ?child = "\<lambda>(reg, vers). x\<lparr>fg_r := reg, fg_v1 := vers, fg_v1_equiv := ?E\<rparr>"
  have eq: "recurse_to_parents x b1 = Some (map ?child ps)"
    using d(1) sup ps(1) by (simp add: recurse_to_parents_def Let_def)
  have "map fg_r (map ?child ps) = map fst ps" by (induction ps) auto
  with ps(2) have cut: "cuts region_points hash_region_ok (region_points (fg_r x)) (map fg_r (map ?child ps))" by (rule ssubst [rotated])
  have child: "fragment_ok rd y \<and> fragment_height rd y < fragment_height rd x \<and>
      (\<forall>p \<in> region_points (fg_r y). \<forall>r. fragment_answer rd y p r \<longrightarrow> fragment_answer rd x p r)"
    if y: "y \<in> set (map ?child ps)" for y
  proof -
    obtain s u where su: "(s, u) \<in> set ps" and y: "y = x\<lparr>fg_r := s, fg_v1 := u, fg_v1_equiv := ?E\<rparr>" using y by auto
    have par: "parent_at rd p (fg_v1 x) = Some u" if "p \<in> region_points s" for p using ps(3) su that by blast
    have s: "s \<in> set (map fst ps)" using su by force
    then have sok: "hash_region_ok s" "region_points s \<noteq> {}" using ps(2) unfolding cuts_def by blast+
    have ssub: "region_points s \<subseteq> region_points (fg_r x)" by (rule cuts_subset [OF ps(2) s])
    have uok: "version_ok rd p u" if p: "p \<in> region_points s" for p
    proof -
      have "version_ok rd p (fg_v1 x)" using x(1) ssub p by (auto simp: fragment_ok_def)
      then obtain u' where "parent_at rd p (fg_v1 x) = Some u'" "version_ok rd p u'"
        using nz(3) by (rule version_ok_parent [OF ok]) blast
      then show ?thesis using par [OF p] by simp
    qed
    have "fragment_ok rd y" using sok uok ssub x(1) by (auto simp: fragment_ok_def y)
    moreover obtain p where "p \<in> region_points s" using sok(2) by blast
    then have "height rd (v_branch u) < height rd (v_branch (fg_v1 x))" using height_parent [OF ok(1) par] by blast
    then have "fragment_height rd y < fragment_height rd x" by (simp add: fragment_height_def y)
    moreover have "fragment_answer rd x p r" if p: "p \<in> region_points s" and a: "fragment_answer rd y p r" for p r
      unfolding fragment_answer_def
    proof (intro allI impI)
      fix V W assume "search rd p V W (fg_v1 x) (fg_v1_equiv x) (fg_v2 x) (fg_v2_equiv x)"
      from search_step [OF ok this nz b par [OF p]] show "last_common rd p V W r"
        using a by (simp add: fragment_answer_def y)
    qed
    ultimately show ?thesis by (simp add: y)
  qed
  show ?thesis using eq cut child by blast
qed

section \<open>The search\<close>

text \<open>What the loop does with a fragment on the top of its stack, whatever lies below.\<close>

definition solves :: "branch_reader \<Rightarrow> fragment list \<Rightarrow> (hash_region \<times> version_t) list \<Rightarrow> bool" where
  "solves rd xs rs \<longleftrightarrow>
     (\<forall>rest R V. find_common_loop rd (xs @ rest) R V = find_common_loop rd rest (R @ map fst rs) (V @ map snd rs)) \<and>
     cuts region_points hash_region_ok (\<Union>x \<in> set xs. region_points (fg_r x)) (map fst rs) \<and>
     (\<forall>(r, v) \<in> set rs. \<forall>p \<in> region_points r. \<exists>x \<in> set xs. p \<in> region_points (fg_r x) \<and> fragment_answer rd x p v)"

lemma solves_all:
  assumes "\<And>x. x \<in> set xs \<Longrightarrow> \<exists>rs. solves rd [x] rs" and "disjoint_pieces region_points (map fg_r xs)"
  shows "\<exists>rs. solves rd xs rs"
  using assms
proof (induction xs)
  case Nil
  show ?case by (intro exI [of _ "[]"]) (simp add: solves_def cuts_def disjoint_pieces_def)
next
  case (Cons x xs)
  obtain rs where rs: "solves rd [x] rs" using Cons.prems(1) by auto
  obtain ss where ss: "solves rd xs ss" using Cons by (auto simp: disjoint_pieces_def)
  have disj: "region_points (fg_r x) \<inter> (\<Union>y \<in> set xs. region_points (fg_r y)) = {}"
    using Cons.prems(2) by (auto simp: disjoint_pieces_def)
  have loop: "find_common_loop rd ((x # xs) @ rest) R V =
      find_common_loop rd rest (R @ map fst (rs @ ss)) (V @ map snd (rs @ ss))" for rest R V
  proof -
    have "find_common_loop rd ([x] @ xs @ rest) R V = find_common_loop rd (xs @ rest) (R @ map fst rs) (V @ map snd rs)"
      using rs unfolding solves_def by blast
    also have "\<dots> = find_common_loop rd rest ((R @ map fst rs) @ map fst ss) ((V @ map snd rs) @ map snd ss)"
      using ss unfolding solves_def by blast
    finally show ?thesis by simp
  qed
  have "cuts region_points hash_region_ok (region_points (fg_r x)) (map fst rs)"
    "cuts region_points hash_region_ok (\<Union>y \<in> set xs. region_points (fg_r y)) (map fst ss)"
    using rs ss by (simp_all add: solves_def)
  from cuts_append [OF this disj]
  have "cuts region_points hash_region_ok (\<Union>y \<in> set (x # xs). region_points (fg_r y)) (map fst (rs @ ss))" by simp
  moreover have "\<exists>y \<in> set (x # xs). p \<in> region_points (fg_r y) \<and> fragment_answer rd y p v"
    if "(r, v) \<in> set (rs @ ss)" "p \<in> region_points r" for r v p
    using rs ss that unfolding solves_def by auto
  ultimately show ?case using loop unfolding solves_def by blast
qed

lemma solves_one:
  assumes ok: "history_ok rd" "complete_history rd"
  shows "fragment_ok rd x \<Longrightarrow> \<exists>rs. solves rd [x] rs"
proof (induction "fragment_height rd x" arbitrary: x rule: less_induct)
  case less
  have r: "hash_region_ok (fg_r x)" "region_points (fg_r x) \<noteq> {}" using less.prems by (simp_all add: fragment_ok_def)
  show ?case
  proof (cases "common_base_case x")
    case (Some v)
    then have "find_common_loop rd (x # rest) R V = find_common_loop rd rest (R @ [fg_r x]) (V @ [v])" for rest R V
      by (subst find_common_loop.simps) simp
    then show ?thesis
      using r common_base_case_answer [OF ok Some]
      by (intro exI [of _ "[(fg_r x, v)]"]) (simp add: solves_def cuts_def disjoint_pieces_def)
  next
    case None
    then have nz: "fg_v1 x \<noteq> version_zero" "fg_v2 x \<noteq> version_zero"
      by (auto simp: common_base_case_def Let_def split: if_splits)
    obtain p where "p \<in> region_points (fg_r x)" using r(2) by blast
    then have "version_ok rd p (fg_v1 x)" "version_ok rd p (fg_v2 x)" using less.prems by (auto simp: fragment_ok_def)
    then obtain b1 b2 where b: "rd_get_branch rd (v_branch (fg_v1 x)) = Some b1" "rd_get_branch rd (v_branch (fg_v2 x)) = Some b2"
      using nz by (auto simp: version_ok_def)
    let ?c = "if bc_initial_timestamp b1 < bc_initial_timestamp b2
      then recurse_to_parents (fragment_swap x) b2 else recurse_to_parents x b1"
    have "\<exists>ys. ?c = Some ys \<and>
      cuts region_points hash_region_ok (region_points (fg_r x)) (map fg_r ys) \<and>
      (\<forall>y \<in> set ys. fragment_ok rd y \<and> fragment_height rd y < fragment_height rd x \<and>
        (\<forall>p \<in> region_points (fg_r y). \<forall>r. fragment_answer rd y p r \<longrightarrow> fragment_answer rd x p r))"
    proof (cases "bc_initial_timestamp b1 < bc_initial_timestamp b2")
      case True
      have "common_base_case (fragment_swap x) = None"
        using None by (auto simp: common_base_case_def Let_def split: if_splits)
      then show ?thesis
        using True recurse_to_parents_children [OF ok, of "fragment_swap x" b2 b1] less.prems b
        by (simp add: fragment_swap_facts)
    next
      case False
      then show ?thesis using recurse_to_parents_children [OF ok less.prems None b] by simp
    qed
    then obtain ys where ys: "?c = Some ys" "cuts region_points hash_region_ok (region_points (fg_r x)) (map fg_r ys)"
      and child: "\<And>y. y \<in> set ys \<Longrightarrow> fragment_ok rd y" "\<And>y. y \<in> set ys \<Longrightarrow> fragment_height rd y < fragment_height rd x"
        "\<And>y p r. y \<in> set ys \<Longrightarrow> p \<in> region_points (fg_r y) \<Longrightarrow> fragment_answer rd y p r \<Longrightarrow> fragment_answer rd x p r"
      by blast
    have "\<exists>rs. solves rd (rev ys) rs"
    proof (rule solves_all)
      show "\<exists>rs. solves rd [y] rs" if "y \<in> set (rev ys)" for y
        using less.hyps [of y] child that by simp
      have "mset (map fg_r (rev ys)) = mset (map fg_r ys)" by simp
      then show "disjoint_pieces region_points (map fg_r (rev ys))"
        using ys(2) disjoint_pieces_perm unfolding cuts_def by blast
    qed
    then obtain rs where rs: "solves rd (rev ys) rs" by blast
    have "find_common_loop rd ([x] @ rest) R V = find_common_loop rd (rev ys @ rest) R V" for rest R V
      using None b ys(1) by (subst find_common_loop.simps) simp
    moreover have "(\<Union>y \<in> set (rev ys). region_points (fg_r y)) = region_points (fg_r x)"
      using ys(2) unfolding cuts_def by simp
    moreover have "p \<in> region_points (fg_r x) \<and> fragment_answer rd x p v"
      if rv: "(r, v) \<in> set rs" "p \<in> region_points r" for r v p
    proof -
      obtain y where y: "y \<in> set ys" "p \<in> region_points (fg_r y)" "fragment_answer rd y p v"
        using rs rv unfolding solves_def by fastforce
      then have "p \<in> region_points (fg_r x)" using cuts_subset [OF ys(2), of "fg_r y"] by auto
      with child(3) [OF y] show ?thesis by simp
    qed
    ultimately have "solves rd [x] rs" using rs unfolding solves_def by auto
    then show ?thesis by blast
  qed
qed

lemma find_common_fragments_correct:
  assumes ok: "history_ok rd" "complete_history rd" and r: "hash_region_ok region" "region_points region \<noteq> {}"
    and v: "\<And>p. p \<in> region_points region \<Longrightarrow> version_ok rd p v1 \<and> version_ok rd p v2"
  obtains rs where "find_common_fragments rd v1 v2 region = Some (Returned (map fst rs, map snd rs))"
    "cuts region_points hash_region_ok (region_points region) (map fst rs)"
    "\<forall>(r, u) \<in> set rs. \<forall>p \<in> region_points r. last_common rd p v1 v2 u"
proof -
  let ?x = "\<lparr>fg_r = region, fg_v1 = v1, fg_v2 = v2, fg_v1_equiv = {}, fg_v2_equiv = {}\<rparr>"
  have "fragment_ok rd ?x" using r v by (simp add: fragment_ok_def)
  then obtain rs where rs: "solves rd [?x] rs" using solves_one [OF ok] by blast
  have "find_common_loop rd ([?x] @ []) [] [] = find_common_loop rd [] ([] @ map fst rs) ([] @ map snd rs)"
    using rs unfolding solves_def by blast
  then have loop: "find_common_fragments rd v1 v2 region = Some (Returned (map fst rs, map snd rs))"
    by (simp add: find_common_fragments_def find_common_loop.simps)
  have cut: "cuts region_points hash_region_ok (region_points region) (map fst rs)" using rs by (simp add: solves_def)
  have "last_common rd p v1 v2 u" if "(r, u) \<in> set rs" "p \<in> region_points r" for r u p
  proof -
    have "p \<in> region_points region" "fragment_answer rd ?x p u" using rs that unfolding solves_def by auto
    then show ?thesis using search_init v by (auto simp: fragment_answer_def)
  qed
  then show thesis using that [OF loop cut] by blast
qed

section \<open>The test for ancestors\<close>

text \<open>A version on a known branch is not older than the branch, which covers the point.\<close>

definition version_fits :: "branch_reader \<Rightarrow> point \<Rightarrow> version_t \<Rightarrow> bool" where
  "version_fits rd p v \<longleftrightarrow>
     (\<forall>bc. rd_get_branch rd (v_branch v) = Some bc \<longrightarrow>
        bc_initial_timestamp bc \<le> v_timestamp v \<and> p \<in> dom (origin_at (bc_origin bc)))"

lemma version_fits_parent:
  assumes ok: "history_ok rd" and v: "version_fits rd p v" and u: "parent_at rd p v = Some u"
  shows "version_fits rd p u" "v_timestamp u \<le> v_timestamp v"
proof -
  obtain bc where bc: "rd_get_branch rd (v_branch v) = Some bc" "origin_at (bc_origin bc) p = Some u"
    using u by (auto simp: parent_at_def split: bind_splits)
  note uv = parent_versions_at [OF bc(2)]
  have le: "v_timestamp u \<le> bc_initial_timestamp bc" "bc_initial_timestamp bc \<le> v_timestamp v"
    using ok bc(1) uv v by (auto simp: history_ok_def version_fits_def)
  then show "v_timestamp u \<le> v_timestamp v" by simp
  show "version_fits rd p u"
    unfolding version_fits_def
  proof (intro allI impI conjI)
    fix bc' assume bc': "rd_get_branch rd (v_branch u) = Some bc'"
    then show "bc_initial_timestamp bc' \<le> v_timestamp u" using ok bc(1) uv by (auto simp: history_ok_def)
    have "u \<noteq> version_zero" using bc' ok by (auto simp: history_ok_def version_zero_def)
    then show "p \<in> dom (origin_at (bc_origin bc'))"
      using ok bc bc' unfolding history_ok_def regions_nest_def by blast
  qed
qed

lemma passed_not_newer: "passed rd p v w \<Longrightarrow> history_ok rd \<Longrightarrow> version_fits rd p v \<Longrightarrow> v_timestamp w \<le> v_timestamp v"
proof (induction rule: passed.induct)
  case (before v u w)
  then show ?case using version_fits_parent [OF before.prems before.hyps(1)] by simp
qed simp

text \<open>The known history of \<open>v\<close> ends before it could be compared with \<open>ancestor\<close>.\<close>

definition history_ends :: "branch_reader \<Rightarrow> version_t \<Rightarrow> point \<Rightarrow> version_t \<Rightarrow> bool" where
  "history_ends rd ancestor p v \<longleftrightarrow>
     (\<exists>x. (\<lambda>a b. parent_at rd p a = Some b)\<^sup>*\<^sup>* v x \<and> rd_get_branch rd (v_branch x) = None \<and>
        v_timestamp ancestor \<le> v_timestamp x)"

lemma history_ends_parent: "parent_at rd p v = Some u \<Longrightarrow> history_ends rd a p u \<Longrightarrow> history_ends rd a p v"
  unfolding history_ends_def by (blast intro: converse_rtranclp_into_rtranclp)

definition settles :: "branch_reader \<Rightarrow> version_t \<Rightarrow> (hash_region \<times> version_t) list \<Rightarrow> bool lookup_result \<Rightarrow> bool" where
  "settles rd a xs res \<longleftrightarrow>
     (\<forall>rest missing. ancestor_loop rd a (xs @ rest) missing =
        (case res of
           Missing_branch_exc \<Rightarrow> ancestor_loop rd a rest True
         | Returned b \<Rightarrow> if b then ancestor_loop rd a rest missing else Some (Returned False))) \<and>
     (res = Returned True \<longleftrightarrow> (\<forall>(r, v) \<in> set xs. \<forall>p \<in> region_points r. passed rd p v a)) \<and>
     (res = Missing_branch_exc \<longrightarrow> (\<exists>(r, v) \<in> set xs. \<exists>p \<in> region_points r. history_ends rd a p v))"

lemma ancestor_loop_false:
  assumes "settles rd a xs (Returned False)"
  shows "ancestor_loop rd a (xs @ rest) missing = Some (Returned False)"
  using assms by (simp add: settles_def)

lemma settles_Cons:
  assumes x: "settles rd a [x] r1" and xs: "settles rd a xs r2"
  shows "\<exists>res. settles rd a (x # xs) res"
proof -
  have x': "ancestor_loop rd a (x # rest) missing =
        (case r1 of
           Missing_branch_exc \<Rightarrow> ancestor_loop rd a rest True
         | Returned b \<Rightarrow> if b then ancestor_loop rd a rest missing else Some (Returned False))" for rest missing
    using x by (simp add: settles_def)
  consider (no) "r1 = Returned False" | (yes) "r1 = Returned True" | (lost) "r1 = Missing_branch_exc"
    by (cases r1) auto
  then show ?thesis
  proof cases
    case no
    then have "settles rd a (x # xs) (Returned False)"
      using x x' by (auto simp: settles_def)
    then show ?thesis by blast
  next
    case yes
    then have "settles rd a (x # xs) r2" using x xs x' by (auto simp: settles_def)
    then show ?thesis by blast
  next
    case lost
    show ?thesis
    proof (cases "r2 = Returned False")
      case True
      then have "settles rd a (x # xs) (Returned False)"
        using lost x xs x' by (auto simp: settles_def)
      then show ?thesis by blast
    next
      case False
      then have "settles rd a (x # xs) Missing_branch_exc"
        using lost x xs x' by (cases r2) (auto simp: settles_def)
      then show ?thesis by blast
    qed
  qed
qed

lemma settles_all: "(\<And>x. x \<in> set xs \<Longrightarrow> \<exists>res. settles rd a [x] res) \<Longrightarrow> \<exists>res. settles rd a xs res"
proof (induction xs)
  case Nil
  show ?case by (intro exI [of _ "Returned True"]) (simp add: settles_def)
next
  case (Cons x xs)
  then obtain r1 r2 where "settles rd a [x] r1" "settles rd a xs r2" by (metis list.set_intros)
  then show ?case by (rule settles_Cons)
qed

lemma settles_one:
  assumes ok: "history_ok rd"
  shows "hash_region_ok r \<Longrightarrow> region_points r \<noteq> {} \<Longrightarrow> (\<And>p. p \<in> region_points r \<Longrightarrow> version_fits rd p v) \<Longrightarrow>
    \<exists>res. settles rd a [(r, v)] res"
proof (induction "height rd (v_branch v)" arbitrary: r v rule: less_induct)
  case less
  obtain q where q: "q \<in> region_points r" using less.prems(2) by blast
  consider (here) "v_branch v = v_branch a" "v_timestamp a \<le> v_timestamp v"
    | (older) "\<not> (v_branch v = v_branch a \<and> v_timestamp a \<le> v_timestamp v)" "v_timestamp v < v_timestamp a"
    | (unknown) "\<not> (v_branch v = v_branch a \<and> v_timestamp a \<le> v_timestamp v)" "v_timestamp a \<le> v_timestamp v"
        "rd_get_branch rd (v_branch v) = None"
    | (known) bc where "\<not> (v_branch v = v_branch a \<and> v_timestamp a \<le> v_timestamp v)" "v_timestamp a \<le> v_timestamp v"
        "rd_get_branch rd (v_branch v) = Some bc"
    by (cases "rd_get_branch rd (v_branch v)") (metis not_le)+
  then show ?case
  proof cases
    case here
    then have "settles rd a [(r, v)] (Returned True)"
      by (auto simp: settles_def ancestor_loop.simps [of rd a "_ # _"] intro: passed.on_branch)
    then show ?thesis by blast
  next
    case older
    then have "\<not> passed rd q v a" using passed_not_newer [OF _ ok less.prems(3) [OF q]] by force
    then have "settles rd a [(r, v)] (Returned False)"
      using older q by (auto simp: settles_def ancestor_loop.simps [of rd a "_ # _"] Let_def)
    then show ?thesis by blast
  next
    case unknown
    then have "\<not> passed rd q v a" by (subst passed_iff) (auto simp: parent_at_def)
    moreover have "history_ends rd a q v" using unknown unfolding history_ends_def by blast
    ultimately have "settles rd a [(r, v)] Missing_branch_exc"
      using unknown q by (auto simp: settles_def ancestor_loop.simps [of rd a "_ # _"] Let_def)
    then show ?thesis by blast
  next
    case known
    have cert: "certificates_ok rd" using ok by (simp add: history_ok_def)
    have sub: "region_points r \<subseteq> dom (origin_at (bc_origin bc))"
      using less.prems(3) known(3) by (auto simp: version_fits_def)
    obtain ps where ps: "region_map_visit (bc_origin bc) r = Some ps"
      "cuts region_points hash_region_ok (region_points r) (map fst ps)"
      "\<forall>(s, u) \<in> set ps. \<forall>p \<in> region_points s. parent_at rd p v = Some u"
      by (rule origin_visit [OF cert known(3) less.prems(1,2) sub])
    have piece: "hash_region_ok s" "region_points s \<noteq> {}" "region_points s \<subseteq> region_points r"
      "\<And>p. p \<in> region_points s \<Longrightarrow> parent_at rd p v = Some u" if "(s, u) \<in> set ps" for s u
    proof -
      have s: "s \<in> set (map fst ps)" using that by force
      then show "hash_region_ok s" "region_points s \<noteq> {}" using ps(2) unfolding cuts_def by blast+
      show "region_points s \<subseteq> region_points r" by (rule cuts_subset [OF ps(2) s])
      show "parent_at rd p v = Some u" if "p \<in> region_points s" for p using ps(3) \<open>(s, u) \<in> set ps\<close> that by blast
    qed
    have "\<exists>res. settles rd a (rev ps) res"
    proof (rule settles_all)
      fix x assume x: "x \<in> set (rev ps)"
      obtain s u where su: "x = (s, u)" by (cases x)
      then have su: "x = (s, u)" "(s, u) \<in> set ps" using x by simp_all
      note p = piece [OF su(2)]
      have fits: "version_fits rd p u" if "p \<in> region_points s" for p
        using version_fits_parent(1) [OF ok less.prems(3) p(4)] p(3) that by blast
      have "height rd (v_branch u) < height rd (v_branch v)" using p(2,4) height_parent [OF ok] by blast
      from less.hyps [OF this p(1,2) fits] show "\<exists>res. settles rd a [x] res" by (simp add: su(1))
    qed
    then obtain res where res: "settles rd a (rev ps) res" by blast
    have loop: "ancestor_loop rd a ([(r, v)] @ rest) missing = ancestor_loop rd a (rev ps @ rest) missing" for rest missing
      using known ps(1) by (subst ancestor_loop.simps) (auto simp: Let_def not_less)
    have up: "passed rd p v a \<longleftrightarrow> passed rd p u a" if "(s, u) \<in> set ps" "p \<in> region_points s" for s u p
      using known(1) piece(4) [OF that] by (subst passed_iff) auto
    have "(\<forall>p \<in> region_points r. passed rd p v a) \<longleftrightarrow> (\<forall>(s, u) \<in> set (rev ps). \<forall>p \<in> region_points s. passed rd p u a)"
    proof -
      have all: "(\<Union>s \<in> set (map fst ps). region_points s) = region_points r" using ps(2) unfolding cuts_def by blast
      have "(\<forall>p \<in> region_points r. passed rd p v a) \<longleftrightarrow> (\<forall>x \<in> set ps. \<forall>p \<in> region_points (fst x). passed rd p v a)"
        unfolding all [symmetric] by auto
      also have "\<dots> \<longleftrightarrow> (\<forall>x \<in> set ps. \<forall>p \<in> region_points (fst x). passed rd p (snd x) a)"
        using up by (metis prod.collapse)
      finally show ?thesis by (simp add: case_prod_beta)
    qed
    moreover have "\<exists>p \<in> region_points r. history_ends rd a p v" if "res = Missing_branch_exc"
    proof -
      have "\<exists>(s, u) \<in> set (rev ps). \<exists>p \<in> region_points s. history_ends rd a p u"
        using res that unfolding settles_def by blast
      then obtain s u p where su: "(s, u) \<in> set ps" "p \<in> region_points s" "history_ends rd a p u"
        unfolding set_rev by blast
      then have "history_ends rd a p v" using piece(4) history_ends_parent by blast
      then show ?thesis using piece(3) su by blast
    qed
    ultimately have "settles rd a [(r, v)] res" using res loop unfolding settles_def by auto
    then show ?thesis by blast
  qed
qed

section \<open>Properties\<close>

text \<open>
  Property C8. \<open>version_find_common()\<close>: for an acyclic history that knows every branch it mentions,
  and versions on branches that cover the region, the search ends without an exception or an abort;
  its fragments tile the region, and when \<open>region_join()\<close> is given at most \<open>2 ^ 14\<close> of them they
  become a map that holds, at every point of the region, the last common ancestor of the two
  versions: a version the point passed through on the way to both, after every other one it passed
  through on the way to both. Only where nothing was written before, \<open>version_t::zero()\<close> may stand
  for a later branch that starts with the empty state.
\<close>

theorem version_find_common_correct:
  assumes "history_ok rd" "complete_history rd" and "hash_region_ok region" "region_points region \<noteq> {}"
    and "\<And>p. p \<in> region_points region \<Longrightarrow> version_ok rd p v1 \<and> version_ok rd p v2"
  shows "\<exists>regions versions. find_common_fragments rd v1 v2 region = Some (Returned (regions, versions)) \<and>
    (length regions \<le> 2 ^ 14 \<longrightarrow>
      (\<exists>m. version_find_common v0 rd v1 v2 region = Some (Returned m) \<and> region_map_ok m \<and>
        (\<forall>h k. (h, k) \<in> region_points region \<longrightarrow>
          (\<exists>r. region_map_at m (Bound k, h) = Some r \<and> last_common rd (h, k) v1 v2 r))))"
proof -
  obtain rs where rs: "find_common_fragments rd v1 v2 region = Some (Returned (map fst rs, map snd rs))"
    "cuts region_points hash_region_ok (region_points region) (map fst rs)"
    "\<forall>(r, u) \<in> set rs. \<forall>p \<in> region_points r. last_common rd p v1 v2 u"
    by (rule find_common_fragments_correct [OF assms])
  have "\<exists>m. version_find_common v0 rd v1 v2 region = Some (Returned m) \<and> region_map_ok m \<and>
      (\<forall>h k. (h, k) \<in> region_points region \<longrightarrow> (\<exists>r. region_map_at m (Bound k, h) = Some r \<and> last_common rd (h, k) v1 v2 r))"
    if len: "length (map fst rs) \<le> 2 ^ 14"
  proof -
    obtain d where d: "region_join (map fst rs) = Some (REGION_JOIN_OK d)"
      using hash.join_complete [OF len rs(2) assms(3)] by blast
    obtain m where m: "from_unordered_fragments v0 (map fst rs) (map snd rs) = Some m" "region_map_ok m"
      "\<forall>i < length (map fst rs). \<forall>k h. (h, k) \<in> region_points (map fst rs ! i) \<longrightarrow> region_map_at m (Bound k, h) = Some (map snd rs ! i)"
      using from_unordered_fragments_at [OF _ len _ d, of "map snd rs" v0] rs(2) unfolding cuts_def by auto
    have "\<exists>r. region_map_at m (Bound k, h) = Some r \<and> last_common rd (h, k) v1 v2 r" if "(h, k) \<in> region_points region" for h k
    proof -
      have "(\<Union>r \<in> set (map fst rs). region_points r) = region_points region" using rs(2) by (simp add: cuts_def)
      then have "(h, k) \<in> (\<Union>r \<in> set (map fst rs). region_points r)" using that by simp
      then obtain x where "x \<in> set rs" "(h, k) \<in> region_points (fst x)" unfolding set_map by blast
      then obtain i where i: "i < length rs" "(h, k) \<in> region_points (fst (rs ! i))" unfolding in_set_conv_nth by blast
      obtain r u where ru: "rs ! i = (r, u)" by (cases "rs ! i")
      then have "(r, u) \<in> set rs" using nth_mem [OF i(1)] by simp
      then have "last_common rd (h, k) v1 v2 u" using rs(3) i(2) ru by auto
      moreover have "region_map_at m (Bound k, h) = Some u" using m(3) [rule_format, of i h k] i ru by simp
      ultimately show ?thesis by blast
    qed
    then show ?thesis using m(1,2) rs(1) by (simp add: version_find_common_def)
  qed
  then show ?thesis using rs(1) by blast
qed

lemma merge_history_parents:
  "parent (history_reader merge_history) b c \<Longrightarrow> (b, c) \<in> {(9, 1), (9, 2), (2, 1), (1, 3), (1, 4)}"
  by (auto simp: parent_def merge_history_defs parent_versions_def ran_def origin_at_of origin_at_two_halves vers_def
      version_zero_def is_nil_def split: if_splits)

lemma merge_history_wf: "history_ok (history_reader merge_history)" "complete_history (history_reader merge_history)"
proof -
  define rank :: "branch_id \<Rightarrow> nat" where "rank b = (if b = 9 then 3 else if b = 2 then 2 else if b = 1 then 1 else 0)" for b
  have step: "rank c < rank b" if "parent (history_reader merge_history) b c" for b c
    using merge_history_parents [OF that] by (auto simp: rank_def)
  have "rank c < rank b" if "(parent (history_reader merge_history))\<^sup>+\<^sup>+ b c" for b c
    using that by (induction rule: tranclp_induct) (auto dest!: step)
  then have "\<not> (parent (history_reader merge_history))\<^sup>+\<^sup>+ b b" for b by blast
  moreover have "\<forall>b bc v. rd_get_branch (history_reader merge_history) b = Some bc \<and> v \<in> parent_versions bc \<longrightarrow>
      v_timestamp v \<le> bc_initial_timestamp bc \<and>
      (\<forall>bc'. rd_get_branch (history_reader merge_history) (v_branch v) = Some bc' \<longrightarrow> bc_initial_timestamp bc' \<le> v_timestamp v)"
    by (auto simp: merge_history_defs parent_versions_def ran_def origin_at_of origin_at_two_halves vers_def
        version_zero_def timestamp_zero_def nil_uuid_def split: if_splits)
  moreover have "rd_get_branch (history_reader merge_history) nil_uuid = None"
    by (simp add: merge_history_defs nil_uuid_def)
  ultimately show "history_ok (history_reader merge_history)"
    unfolding history_ok_def using merge_history_ok by blast
  show "complete_history (history_reader merge_history)"
    by (auto simp: complete_history_def merge_history_defs parent_versions_def ran_def origin_at_of origin_at_two_halves vers_def
        version_zero_def split: if_splits)
qed

theorem version_find_common_correct_witness:
  "\<exists>m. version_find_common version_zero (history_reader merge_history) (vers 9 12) (vers 1 10) (demo_region 0 9 1) = Some (Returned m) \<and>
    (\<forall>h k. (h, k) \<in> region_points (demo_region 0 9 1) \<longrightarrow>
      (\<exists>r. region_map_at m (Bound k, h) = Some r \<and> last_common (history_reader merge_history) (h, k) (vers 9 12) (vers 1 10) r))"
proof -
  have r: "hash_region_ok (demo_region 0 9 1)" "region_points (demo_region 0 9 1) \<noteq> {}" by (rule demo_region_points; simp)+
  have v: "version_ok (history_reader merge_history) p (vers 9 12) \<and> version_ok (history_reader merge_history) p (vers 1 10)"
    if "p \<in> region_points (demo_region 0 9 1)" for p
  proof -
    have "p \<in> dom (origin_at (two_halves a b))" for a b using merge_region that by blast
    then show ?thesis by (simp add: version_ok_def merge_history_defs vers_def)
  qed
  have "find_common_fragments (history_reader merge_history) (vers 9 12) (vers 1 10) (demo_region 0 9 1) =
      Some (Returned ([demo_region 4 9 1, demo_region 0 4 1], [vers 1 7, vers 1 8]))"
    by code_simp
  then show ?thesis
    using version_find_common_correct [OF merge_history_wf r v, of version_zero] by auto
qed

text \<open>
  Property C13. \<open>version_is_ancestor()\<close>: for an acyclic history the test ends without an abort. It
  returns true exactly when every point of the region passed through the ancestor on the way to the
  descendent, and throws only when, at some point that did not, the known history ends with a
  version that is not older than the ancestor.
\<close>

theorem version_is_ancestor_correct:
  assumes "history_ok rd" and "hash_region_ok region" "region_points region \<noteq> {}"
    and "\<And>p. p \<in> region_points region \<Longrightarrow> version_fits rd p descendent"
  shows "\<exists>res. version_is_ancestor rd ancestor descendent region = Some res \<and>
    (res = Returned True \<longleftrightarrow> (\<forall>p \<in> region_points region. passed rd p descendent ancestor)) \<and>
    (res = Missing_branch_exc \<longrightarrow> (\<exists>p \<in> region_points region. history_ends rd ancestor p descendent))"
proof -
  obtain res where res: "settles rd ancestor [(region, descendent)] res" using settles_one [OF assms] by blast
  then have "ancestor_loop rd ancestor ([(region, descendent)] @ []) False = Some res"
    unfolding settles_def by (auto simp: ancestor_loop.simps [of rd ancestor "[]"] split: lookup_result.split)
  then show ?thesis using res by (intro exI [of _ res]) (simp add: version_is_ancestor_def settles_def)
qed

theorem version_is_ancestor_correct_witness:
  "region_points (demo_region 0 9 1) \<subseteq> {p. passed (history_reader merge_history) p (vers 9 12) (vers 1 7)} \<and>
   \<not> region_points (demo_region 0 9 1) \<subseteq> {p. passed (history_reader merge_history) p (vers 9 12) (vers 1 8)} \<and>
   version_is_ancestor (history_reader merge_history) (vers 3 0) (vers 4 8) (demo_region 4 9 1) = Some Missing_branch_exc"
proof -
  have r: "hash_region_ok (demo_region 0 9 1)" "region_points (demo_region 0 9 1) \<noteq> {}" by (rule demo_region_points; simp)+
  have v: "version_fits (history_reader merge_history) p (vers 9 12)" if "p \<in> region_points (demo_region 0 9 1)" for p
  proof -
    have "p \<in> dom (origin_at (two_halves a b))" for a b using merge_region that by blast
    then show ?thesis by (simp add: version_fits_def merge_history_defs vers_def)
  qed
  have "version_is_ancestor (history_reader merge_history) (vers 1 7) (vers 9 12) (demo_region 0 9 1) = Some (Returned True)"
    "version_is_ancestor (history_reader merge_history) (vers 1 8) (vers 9 12) (demo_region 0 9 1) = Some (Returned False)"
    "version_is_ancestor (history_reader merge_history) (vers 3 0) (vers 4 8) (demo_region 4 9 1) = Some Missing_branch_exc"
    by code_simp+
  then show ?thesis
    using version_is_ancestor_correct [OF merge_history_wf(1) r v, of "vers 1 7"]
      version_is_ancestor_correct [OF merge_history_wf(1) r v, of "vers 1 8"] by (simp add: subset_iff Ball_def)
qed

end
