(* ===== verification/Raft_Types.thy ===== *)
theory Raft_Types
  imports Cluster_Types Quorums
begin

text \<open>
  The data of the Raft implementation, \<open>clustering/generic/raft_core.hpp\<close>: member
  configurations with their quorums, single and in joint consensus, and slices of the log. \<open>'c\<close> is
  \<open>state_t::change_t\<close>. A failing \<open>guarantee\<close> is \<open>None\<close>.
\<close>

section \<open>Configurations\<close>

type_synonym raft_term = u64
type_synonym raft_log_index = u64
type_synonym raft_member_id = uuid_u

record raft_config =
  rc_voting_members :: "raft_member_id set"
  rc_non_voting_members :: "raft_member_id set"

definition config_all_members :: "raft_config \<Rightarrow> raft_member_id set" where
  "config_all_members c = rc_voting_members c \<union> rc_non_voting_members c"

definition config_is_member :: "raft_config \<Rightarrow> raft_member_id \<Rightarrow> bool" where
  "config_is_member c member \<longleftrightarrow> member \<in> rc_voting_members c \<or> member \<in> rc_non_voting_members c"

definition config_is_quorum :: "raft_config \<Rightarrow> raft_member_id set \<Rightarrow> bool" where
  "config_is_quorum c members \<longleftrightarrow>
     (let votes = card (Set.filter (\<lambda>m. m \<in> rc_voting_members c) members)
      in votes * 2 > card (rc_voting_members c))"

definition config_is_valid_leader :: "raft_config \<Rightarrow> raft_member_id \<Rightarrow> bool" where
  "config_is_valid_leader c member \<longleftrightarrow> member \<in> rc_voting_members c"

record raft_complex_config =
  cc_config :: raft_config
  cc_new_config :: "raft_config option"

definition is_joint_consensus :: "raft_complex_config \<Rightarrow> bool" where
  "is_joint_consensus c \<longleftrightarrow> cc_new_config c \<noteq> None"

definition complex_all_members :: "raft_complex_config \<Rightarrow> raft_member_id set" where
  "complex_all_members c =
     (let members = config_all_members (cc_config c)
      in case cc_new_config c of None \<Rightarrow> members | Some n \<Rightarrow> members \<union> config_all_members n)"

definition complex_is_member :: "raft_complex_config \<Rightarrow> raft_member_id \<Rightarrow> bool" where
  "complex_is_member c member \<longleftrightarrow>
     config_is_member (cc_config c) member \<or>
     (case cc_new_config c of None \<Rightarrow> False | Some n \<Rightarrow> config_is_member n member)"

definition complex_is_quorum :: "raft_complex_config \<Rightarrow> raft_member_id set \<Rightarrow> bool" where
  "complex_is_quorum c members \<longleftrightarrow>
     (case cc_new_config c of
        Some n \<Rightarrow> config_is_quorum (cc_config c) members \<and> config_is_quorum n members
      | None \<Rightarrow> config_is_quorum (cc_config c) members)"

definition complex_is_valid_leader :: "raft_complex_config \<Rightarrow> raft_member_id \<Rightarrow> bool" where
  "complex_is_valid_leader c member \<longleftrightarrow>
     config_is_valid_leader (cc_config c) member \<or>
     (case cc_new_config c of None \<Rightarrow> False | Some n \<Rightarrow> config_is_valid_leader n member)"

section \<open>The log\<close>

datatype log_entry_type = Log_regular | Log_config | Log_noop

record 'c raft_log_entry =
  le_type :: log_entry_type
  le_term :: raft_term
  le_change :: "'c option"
  le_config :: "raft_complex_config option"

record 'c raft_log =
  lg_prev_index :: raft_log_index
  lg_prev_term :: raft_term
  lg_entries :: "'c raft_log_entry list"

definition get_latest_index :: "'c raft_log \<Rightarrow> raft_log_index" where
  "get_latest_index l = lg_prev_index l + of_nat (length (lg_entries l))"

definition get_entry_ref :: "'c raft_log \<Rightarrow> raft_log_index \<Rightarrow> 'c raft_log_entry option" where
  "get_entry_ref l index =
     (if index > lg_prev_index l \<and> index \<le> get_latest_index l
      then Some (lg_entries l ! unat (index - lg_prev_index l - 1)) else None)"

definition get_entry_term :: "'c raft_log \<Rightarrow> raft_log_index \<Rightarrow> raft_term option" where
  "get_entry_term l index =
     (if index \<ge> lg_prev_index l \<and> index \<le> get_latest_index l then
        (if index = lg_prev_index l then Some (lg_prev_term l) else map_option le_term (get_entry_ref l index))
      else None)"

definition delete_entries_from :: "raft_log_index \<Rightarrow> 'c raft_log \<Rightarrow> 'c raft_log option" where
  "delete_entries_from index l =
     (if index > lg_prev_index l \<and> index \<le> get_latest_index l
      then Some (l\<lparr>lg_entries := take (unat (index - lg_prev_index l - 1)) (lg_entries l)\<rparr>) else None)"

definition delete_entries_to :: "raft_log_index \<Rightarrow> raft_term \<Rightarrow> 'c raft_log \<Rightarrow> 'c raft_log option" where
  "delete_entries_to index index_term l =
     (if index > lg_prev_index l then
        do {
          entries \<leftarrow>
            (if index \<le> get_latest_index l then
               (if get_entry_term l index = Some index_term
                then Some (drop (unat (index - lg_prev_index l)) (lg_entries l)) else None)
             else Some []);
          Some (l\<lparr>lg_entries := entries, lg_prev_index := index, lg_prev_term := index_term\<rparr>)
        }
      else None)"

definition log_append :: "'c raft_log_entry \<Rightarrow> 'c raft_log \<Rightarrow> 'c raft_log" where
  "log_append entry l = l\<lparr>lg_entries := lg_entries l @ [entry]\<rparr>"

text \<open>The persistent state of a member; \<open>'s\<close> is \<open>state_t\<close>.\<close>

record ('s, 'c) raft_persistent_state =
  ps_current_term :: raft_term
  ps_voted_for :: raft_member_id
  ps_snapshot_state :: 's
  ps_snapshot_config :: raft_complex_config
  ps_log :: "'c raft_log"
  ps_commit_index :: raft_log_index

section \<open>Quorums\<close>

lemma config_quorum_majority:
  assumes "finite (rc_voting_members c)"
  shows "config_is_quorum c A \<longleftrightarrow> majority (rc_voting_members c) (A \<inter> rc_voting_members c)"
proof -
  have "Set.filter (\<lambda>m. m \<in> rc_voting_members c) A = A \<inter> rc_voting_members c" by auto
  then show ?thesis using assms by (auto simp: config_is_quorum_def majority_def)
qed

text \<open>
  Quorums of one configuration overlap, and a quorum of a joint consensus overlaps the quorums of
  both configurations it joins.
\<close>

definition joins :: "raft_complex_config \<Rightarrow> raft_config set" where
  "joins c = insert (cc_config c) (set_option (cc_new_config c))"

lemma complex_quorum_iff: "complex_is_quorum c A \<longleftrightarrow> (\<forall>d \<in> joins c. config_is_quorum d A)"
  by (auto simp: complex_is_quorum_def joins_def split: option.splits)

lemma config_quorums_overlap:
  assumes "finite (rc_voting_members c)" and "config_is_quorum c A" and "config_is_quorum c B"
  shows "\<exists>m \<in> rc_voting_members c. m \<in> A \<and> m \<in> B"
  using maj.overlap assms unfolding config_quorum_majority [OF assms(1)] by blast

end
