(* ===== verification/Table_State.thy ===== *)
theory Table_State
  imports Contract_Progress Version_Order Raft_Types "HOL-Library.List_Lexorder" "HOL-Library.Char_ord"
begin

text \<open>
  The state a table keeps in its Raft cluster: the user's configuration
  (\<open>clustering/administration/tables/table_metadata\<close>), the contracts, the branch history, the
  Raft member IDs and the server names (\<open>clustering/table_contract/contract_metadata\<close>), with the
  changes that are applied to it and the readiness test of \<open>coordinator/check_ready.cc\<close>. The
  secondary indexes and the write hook are opaque: \<open>'s\<close> is \<open>sindex_config_t\<close> and \<open>'h\<close> is
  \<open>write_hook_config_t\<close>. A \<open>map::at()\<close> that throws is \<open>None\<close>.
\<close>

section \<open>Table configuration\<close>

type_synonym server_name_map = "(server_id, u64 \<times> string) omap"

record table_basic_config =
  tb_name :: string
  tb_database :: uuid_u
  tb_primary_key :: string

datatype write_ack_config = Ack_single | Ack_majority

datatype write_durability = Durability_invalid | Durability_soft | Durability_hard

record ('s, 'h) table_config =
  tc_basic :: table_basic_config
  tc_shards :: "shard_t list"
  tc_sindexes :: "(string, 's) omap"
  tc_write_hook :: "'h option"
  tc_write_ack_config :: write_ack_config
  tc_durability :: write_durability

record ('s, 'h) table_config_and_shards =
  cs_config :: "('s, 'h) table_config"
  cs_shard_scheme :: shard_scheme
  cs_server_names :: server_name_map

datatype ('s, 'h) config_change =
  Set_table_config_and_shards "('s, 'h) table_config_and_shards"
| Sindex_create string 's
| Sindex_drop string
| Sindex_rename string string bool
| Write_hook_create 'h
| Write_hook_drop

definition set_sindexes ::
  "(string, 's) omap \<Rightarrow> ('s, 'h) table_config_and_shards \<Rightarrow> ('s, 'h) table_config_and_shards" where
  "set_sindexes m cs = cs\<lparr>cs_config := (cs_config cs)\<lparr>tc_sindexes := m\<rparr>\<rparr>"

definition set_write_hook ::
  "'h option \<Rightarrow> ('s, 'h) table_config_and_shards \<Rightarrow> ('s, 'h) table_config_and_shards" where
  "set_write_hook h cs = cs\<lparr>cs_config := (cs_config cs)\<lparr>tc_write_hook := h\<rparr>\<rparr>"

text \<open>The result says whether the change was possible.\<close>

fun config_apply_change ::
  "('s, 'h) config_change \<Rightarrow> ('s, 'h) table_config_and_shards \<Rightarrow> bool \<times> ('s, 'h) table_config_and_shards" where
  "config_apply_change (Set_table_config_and_shards new_config) cs = (True, new_config)"
| "config_apply_change (Write_hook_create h) cs = (True, set_write_hook (Some h) cs)"
| "config_apply_change Write_hook_drop cs = (True, set_write_hook None cs)"
| "config_apply_change (Sindex_create name sindex) cs =
     (let m = tc_sindexes (cs_config cs)
      in (map_of m name = None, set_sindexes (omap_insert name sindex m) cs))"
| "config_apply_change (Sindex_drop name) cs =
     (let m = tc_sindexes (cs_config cs)
      in (map_of m name \<noteq> None, set_sindexes (omap_erase name m) cs))"
| "config_apply_change (Sindex_rename name new_name overwrite) cs =
     (let m = tc_sindexes (cs_config cs)
      in
        case map_of m name of
          None \<Rightarrow> (False, cs)
        | Some sindex \<Rightarrow>
            if name \<noteq> new_name then
              (if map_of m new_name \<noteq> None \<and> \<not> overwrite then (False, cs)
               else (True, set_sindexes (omap_erase name (omap_assign new_name sindex m)) cs))
            else (True, cs))"

definition name_and_database_equal :: "('s, 'h) config_change \<Rightarrow> table_basic_config \<Rightarrow> bool" where
  "name_and_database_equal change basic \<longleftrightarrow>
     (case change of
        Set_table_config_and_shards new_config \<Rightarrow>
          tb_name (tc_basic (cs_config new_config)) = tb_name basic \<and>
          tb_database (tc_basic (cs_config new_config)) = tb_database basic
      | _ \<Rightarrow> True)"

section \<open>The Raft state\<close>

type_synonym contract_map = "(contract_id, hash_region \<times> contract_t) omap"

record ('s, 'h) table_raft_state =
  rs_config :: "('s, 'h) table_config_and_shards"
  rs_contracts :: contract_map
  rs_current_branches :: "branch_id region_map"
  rs_branch_history :: branch_history
  rs_member_ids :: "(server_id, raft_member_id) omap"
  rs_server_names :: server_name_map

text \<open>A \<open>std::map\<close> with regions as keys, ordered by \<open>hash_region_less\<close>.\<close>

type_synonym 'v region_omap = "(hash_region \<times> 'v) list"

fun region_omap_insert :: "hash_region \<Rightarrow> 'v \<Rightarrow> 'v region_omap \<Rightarrow> 'v region_omap" where
  "region_omap_insert k v [] = [(k, v)]"
| "region_omap_insert k v ((e, w) # m) =
     (if hash_region_less k e then (k, v) # (e, w) # m
      else if hash_region_less e k then (e, w) # region_omap_insert k v m
      else (e, w) # m)"

record new_contracts =
  nc_remove_contracts :: "contract_id set"
  nc_add_contracts :: contract_map
  nc_register_current_branches :: "branch_id region_omap"
  nc_add_branches :: branch_history
  nc_remove_branches :: "branch_id set"
  nc_remove_server_names :: "server_id set"
  nc_add_server_names :: server_name_map

datatype ('s, 'h) change =
  Set_table_config "('s, 'h) table_config_and_shards"
| New_contracts new_contracts
| New_member_ids "server_id set" "(server_id, raft_member_id) omap"
| New_server_names server_name_map server_name_map

definition register_branches :: "branch_id region_omap \<Rightarrow> branch_id region_map \<Rightarrow> branch_id region_map option" where
  "register_branches regs m = fold_opt (\<lambda>(reg, b) m. region_map_update_value reg b m) regs m"

text \<open>\<open>name_it->second = pair.second\<close> for a name that must be there.\<close>

definition rename_server :: "server_id \<times> u64 \<times> string \<Rightarrow> server_name_map \<Rightarrow> server_name_map option" where
  "rename_server p m = (if map_of m (fst p) = None then None else Some (omap_assign (fst p) (snd p) m))"

fun apply_change :: "('s, 'h) change \<Rightarrow> ('s, 'h) table_raft_state \<Rightarrow> ('s, 'h) table_raft_state option" where
  "apply_change (Set_table_config new_config) state = Some (state\<lparr>rs_config := new_config\<rparr>)"
| "apply_change (New_contracts c) state =
     do {
       let contracts = omap_insert_all (nc_add_contracts c) (omap_erase_all (nc_remove_contracts c) (rs_contracts state));
       let history = omap_insert_all (nc_add_branches c) (omap_erase_all (nc_remove_branches c) (rs_branch_history state));
       current \<leftarrow> register_branches (nc_register_current_branches c) (rs_current_branches state);
       let names = omap_insert_all (nc_add_server_names c) (omap_erase_all (nc_remove_server_names c) (rs_server_names state));
       Some (state\<lparr>rs_contracts := contracts, rs_branch_history := history, rs_current_branches := current,
         rs_server_names := names\<rparr>)
     }"
| "apply_change (New_member_ids remove add) state =
     Some (state\<lparr>rs_member_ids := omap_insert_all add (omap_erase_all remove (rs_member_ids state))\<rparr>)"
| "apply_change (New_server_names config_names raft_names) state =
     do {
       cn \<leftarrow> fold_opt rename_server config_names (cs_server_names (rs_config state));
       rn \<leftarrow> fold_opt rename_server raft_names (rs_server_names state);
       Some (state\<lparr>rs_config := (rs_config state)\<lparr>cs_server_names := cn\<rparr>, rs_server_names := rn\<rparr>)
     }"

definition all_replicas_of :: "contract_map \<Rightarrow> server_id set" where
  "all_replicas_of contracts = (\<Union>(cid, reg, c) \<in> set contracts. c_replicas c)"

definition state_sanity_check :: "('s, 'h) table_raft_state \<Rightarrow> bool" where
  "state_sanity_check state \<longleftrightarrow>
     (\<forall>(cid, reg, c) \<in> set (rs_contracts state).
        contract_sanity_check c \<and> (\<forall>replica \<in> c_replicas c. map_of (rs_server_names state) replica \<noteq> None)) \<and>
     (\<forall>(server, name) \<in> set (rs_server_names state). server \<in> all_replicas_of (rs_contracts state))"

lemma state_sanity_iff:
  "state_sanity_check state \<longleftrightarrow>
     (\<forall>(cid, reg, c) \<in> set (rs_contracts state). contract_sanity_check c) \<and>
     fst ` set (rs_server_names state) = all_replicas_of (rs_contracts state)"
proof -
  let ?names = "rs_server_names state" and ?contracts = "rs_contracts state"
  have replicas: "(\<forall>x \<in> S. \<forall>s \<in> c_replicas (snd (snd x)). map_of ?names s \<noteq> None) \<longleftrightarrow>
      (\<Union>x \<in> S. c_replicas (snd (snd x))) \<subseteq> fst ` set ?names" for S :: "(contract_id \<times> hash_region \<times> contract_t) set"
    by (simp add: omap_keys_iff subset_iff del: not_None_eq) blast
  have names: "(\<forall>x \<in> set ?names. fst x \<in> R) \<longleftrightarrow> fst ` set ?names \<subseteq> R" for R by (simp add: image_subset_iff)
  have "state_sanity_check state \<longleftrightarrow>
      (\<forall>x \<in> set ?contracts. contract_sanity_check (snd (snd x))) \<and>
      (\<forall>x \<in> set ?contracts. \<forall>s \<in> c_replicas (snd (snd x)). map_of ?names s \<noteq> None) \<and>
      (\<forall>x \<in> set ?names. fst x \<in> all_replicas_of ?contracts)"
    by (simp only: state_sanity_check_def case_prod_unfold ball_conj_distrib conj_assoc)
  also have "\<dots> \<longleftrightarrow> (\<forall>x \<in> set ?contracts. contract_sanity_check (snd (snd x))) \<and>
      fst ` set ?names = all_replicas_of ?contracts"
    unfolding replicas names all_replicas_of_def case_prod_unfold by (auto simp only: set_eq_subset)
  finally show ?thesis by (simp only: case_prod_unfold)
qed

section \<open>A new table\<close>

text \<open>
  \<open>gen\<close> is the sequence of identifiers \<open>generate_uuid()\<close> will return; the number next to a state
  counts how many have been drawn.
\<close>

type_synonym uuid_source = "nat \<Rightarrow> uuid_u"

definition add_member :: "uuid_source \<Rightarrow> server_id \<Rightarrow> nat \<times> (server_id, raft_member_id) omap \<Rightarrow>
    nat \<times> (server_id, raft_member_id) omap" where
  "add_member gen server = (\<lambda>(n, m). if map_of m server = None then (n + 1, omap_insert server (gen n) m) else (n, m))"

definition shard_contract :: "shard_t \<Rightarrow> contract_t" where
  "shard_contract shard =
     \<lparr>c_replicas = sh_all_replicas shard, c_voters = voting_replicas shard, c_temp_voters = None,
      c_primary = (if \<not> is_nil (sid_uuid (sh_primary_replica shard))
        then Some \<lparr>p_server = sh_primary_replica shard, p_hand_over = None\<rparr> else None),
      c_after_emergency_repair = False\<rparr>"

definition add_cpu_contracts ::
  "uuid_source \<Rightarrow> hash_region \<Rightarrow> contract_t \<Rightarrow> nat \<times> contract_map \<Rightarrow> (nat \<times> contract_map) option" where
  "add_cpu_contracts gen shard_region contract acc =
     fold_opt (\<lambda>j (n, contracts).
         do {
           subspace \<leftarrow> cpu_sharding_subspace (int j);
           region \<leftarrow> region_intersection shard_region subspace;
           Some (n + 1, omap_insert (gen n) (region, contract) contracts)
         })
       [0..<CPU_SHARDING_FACTOR] acc"

text \<open>\<open>config.config.shards[i]\<close> past the end of the vector is \<open>None\<close>.\<close>

definition make_new_table_raft_state ::
  "uuid_source \<Rightarrow> ('s, 'h) table_config_and_shards \<Rightarrow> ('s, 'h) table_raft_state option" where
  "make_new_table_raft_state gen config =
     do {
       universe \<leftarrow> hash_region_universe;
       (n, contracts, members) \<leftarrow> fold_opt (\<lambda>i (n, contracts, members).
           if i < length (tc_shards (cs_config config)) then
             do {
               let shard = tc_shards (cs_config config) ! i;
               range \<leftarrow> get_shard_range (cs_shard_scheme config) i;
               region \<leftarrow> hash_region_of_inner range;
               (n, contracts) \<leftarrow> add_cpu_contracts gen region (shard_contract shard) (n, contracts);
               let (n, members) = fold (add_member gen) (sorted_list_of_set (sh_all_replicas shard)) (n, members);
               Some (n, contracts, members)
             }
           else None)
         [0..<num_shards (cs_shard_scheme config)] (0, [], []);
       Some \<lparr>rs_config = config, rs_contracts = contracts, rs_current_branches = region_map_of universe nil_uuid,
         rs_branch_history = [], rs_member_ids = members, rs_server_names = cs_server_names config\<rparr>
     }"

section \<open>Acknowledgements and readiness\<close>

record contract_ack =
  ack_state :: ack_state
  ack_version :: "version_t region_map option"
  ack_branch :: "branch_id option"
  ack_branch_history :: branch_history

definition find_config_shard :: "('s, 'h) table_config_and_shards \<Rightarrow> key_range \<Rightarrow> shard_t option option" where
  "find_config_shard config inner =
     fold_opt (\<lambda>i found.
         if found \<noteq> None then Some found
         else do {
           range \<leftarrow> get_shard_range (cs_shard_scheme config) i;
           Some (if range = inner then Some (tc_shards (cs_config config) ! i) else None)
         })
       [0..<length (tc_shards (cs_config config))] None"

definition contract_matches_shard :: "contract_t \<Rightarrow> shard_t \<Rightarrow> bool" where
  "contract_matches_shard contract shard \<longleftrightarrow>
     \<not> (c_replicas contract \<noteq> sh_all_replicas shard \<or> c_voters contract \<noteq> voting_replicas shard \<or>
        c_temp_voters contract \<noteq> None \<or>
        (case c_primary contract of
           None \<Rightarrow> True
         | Some p \<Rightarrow> p_server p \<noteq> sh_primary_replica shard \<or> p_hand_over p \<noteq> None) \<or>
        c_after_emergency_repair contract)"

definition replica_ready :: "contract_ack option \<Rightarrow> bool" where
  "replica_ready ack \<longleftrightarrow>
     (case ack of None \<Rightarrow> False | Some a \<Rightarrow> ack_state a = Primary_ready \<or> ack_state a = Secondary_streaming)"

fun check_contracts_ready ::
  "('s, 'h) table_config_and_shards \<Rightarrow> (server_id \<times> contract_id \<Rightarrow> contract_ack option) \<Rightarrow> contract_map \<Rightarrow> bool option" where
  "check_contracts_ready config acks [] = Some True"
| "check_contracts_ready config acks ((cid, region, contract) # contracts) =
     do {
       shard \<leftarrow> find_config_shard config (hr_inner region);
       (case shard of
          None \<Rightarrow> Some False
        | Some shard \<Rightarrow>
            if \<not> contract_matches_shard contract shard then Some False
            else if \<exists>server \<in> c_replicas contract. \<not> replica_ready (acks (server, cid)) then Some False
            else check_contracts_ready config acks contracts)
     }"

definition check_all_replicas_ready ::
  "('s, 'h) table_raft_state \<Rightarrow> (server_id \<times> contract_id \<Rightarrow> contract_ack option) \<Rightarrow> bool option" where
  "check_all_replicas_ready state acks = check_contracts_ready (rs_config state) acks (rs_contracts state)"

section \<open>Shard status\<close>

record table_shard_status =
  ts_primary :: bool
  ts_secondary :: bool
  ts_need_primary :: bool
  ts_need_quorum :: bool
  ts_backfilling :: bool
  ts_transitioning :: bool

definition shard_status_empty :: table_shard_status where
  "shard_status_empty =
     \<lparr>ts_primary = False, ts_secondary = False, ts_need_primary = False, ts_need_quorum = False,
      ts_backfilling = False, ts_transitioning = False\<rparr>"

definition shard_status_merge :: "table_shard_status \<Rightarrow> table_shard_status \<Rightarrow> table_shard_status" where
  "shard_status_merge s other =
     \<lparr>ts_primary = (ts_primary s \<or> ts_primary other), ts_secondary = (ts_secondary s \<or> ts_secondary other),
      ts_need_primary = (ts_need_primary s \<or> ts_need_primary other),
      ts_need_quorum = (ts_need_quorum s \<or> ts_need_quorum other),
      ts_backfilling = (ts_backfilling s \<or> ts_backfilling other),
      ts_transitioning = (ts_transitioning s \<or> ts_transitioning other)\<rparr>"

end
