(* ===== verification/Coordinator.thy ===== *)
theory Coordinator
  imports Table_State
begin

text \<open>
  The coordinator of a table, \<open>clustering/table_contract/coordinator\<close>: how it cuts the
  acknowledgements of the replicas into pieces (\<open>break_ack_into_fragments()\<close>), recalculates the
  contract of every piece, registers and collects branches and turns the result into a change of
  the Raft state (\<open>calculate_all_contracts()\<close>), which server names and Raft members go with it
  (\<open>calculate_misc.cc\<close>), and one round of each of its two pumps (\<open>coordinator.cc\<close>).
\<close>

section \<open>Acknowledgement fragments\<close>

type_synonym contract_acks = "(server_id, contract_ack) omap"

definition ack_frag :: "contract_ack \<Rightarrow> version_t option \<Rightarrow> state_timestamp option \<Rightarrow> contract_ack_frag" where
  "ack_frag ack version common_ancestor =
     \<lparr>fr_state = ack_state ack, fr_branch = ack_branch ack, fr_version = version, fr_common_ancestor = common_ancestor\<rparr>"

text \<open>
  The points of a version on the canonical branch; a release build recovers from a missing branch
  by taking the root.
\<close>

definition points_on_canonical_branch ::
  "version_t \<Rightarrow> branch_reader \<Rightarrow> version_t \<Rightarrow> branch_id \<Rightarrow> hash_region \<Rightarrow> version_t region_map option" where
  "points_on_canonical_branch v0 history version branch branch_reg =
     do {
       res \<leftarrow> version_find_branch_common v0 history version branch branch_reg;
       (case res of
          Returned m \<Rightarrow> Some m
        | Missing_branch_exc \<Rightarrow> do { u \<leftarrow> hash_region_universe; Some (region_map_of u version_zero) })
     }"

definition break_ack_into_fragments ::
  "version_t \<Rightarrow> hash_region \<Rightarrow> contract_ack \<Rightarrow> branch_id region_map \<Rightarrow> branch_reader \<Rightarrow> bool \<Rightarrow>
     contract_ack_frag region_map option" where
  "break_ack_into_fragments v0 region ack current_branches raft_branch_history compute_common_ancestor =
     (case ack_version ack of
        None \<Rightarrow> Some (region_map_of region (ack_frag ack None None))
      | Some version \<Rightarrow>
          if compute_common_ancestor then
            region_map_map_multi (\<lambda>ack_version_reg vn.
                region_map_map_multi (\<lambda>branch_reg branch.
                    do {
                      points \<leftarrow> points_on_canonical_branch v0
                        (combiner raft_branch_history (history_reader (ack_branch_history ack))) vn branch branch_reg;
                      region_map_map (\<lambda>common. Some (ack_frag ack (Some vn) (Some (v_timestamp common)))) points branch_reg
                    })
                  current_branches ack_version_reg)
              version region
          else region_map_map (\<lambda>vn. Some (ack_frag ack (Some vn) None)) version region)"

section \<open>The contracts of one piece of the key space\<close>

text \<open>What the loops of \<open>calculate_all_contracts()\<close> accumulate.\<close>

record contract_round =
  cr_register :: "branch_id region_omap"
  cr_add_branches :: branch_history
  cr_remove_branches :: "branch_id set"
  cr_regions :: "hash_region list"
  cr_contracts :: "contract_t list"

text \<open>\<open>frags.visit\<close> and \<open>frags_by_server.visit_mutable\<close>: a server has one entry everywhere.\<close>

definition add_server_frags ::
  "server_id \<Rightarrow> hash_region \<Rightarrow> contract_ack_frag region_map \<Rightarrow> (server_id, contract_ack_frag) omap region_map \<Rightarrow>
     (server_id, contract_ack_frag) omap region_map option" where
  "add_server_frags server region frags by_server =
     do {
       pieces \<leftarrow> region_map_visit frags region;
       fold_opt (\<lambda>(reg, frag) by_server.
           region_map_visit_mutable (\<lambda>_ acks_map.
               if map_of acks_map server = None then Some (omap_insert server frag acks_map) else None)
             reg by_server)
         pieces by_server
     }"

definition collect_frags ::
  "version_t \<Rightarrow> ('s, 'h) table_raft_state \<Rightarrow> contract_t \<Rightarrow> contract_acks \<Rightarrow> hash_region \<Rightarrow>
     (server_id, contract_ack_frag) omap region_map option" where
  "collect_frags v0 state contract acks region =
     fold_opt (\<lambda>(server, ack) by_server.
         do {
           frags \<leftarrow> break_ack_into_fragments v0 region ack (rs_current_branches state)
             (history_reader (rs_branch_history state))
             (is_voter contract server \<and> \<not> c_after_emergency_repair contract);
           add_server_frags server region frags by_server
         })
       acks (region_map_of region [])"

text \<open>The branch the primary of this piece asks to register.\<close>

definition branch_to_register ::
  "contract_t \<Rightarrow> contract_t \<Rightarrow> (server_id, contract_ack_frag) omap \<Rightarrow> branch_id option option" where
  "branch_to_register old_contract new_contract acks_map =
     (case (c_primary old_contract, c_primary new_contract) of
        (Some p, Some p') \<Rightarrow>
          (if p_server p = p_server p' then
             (case map_of acks_map (p_server p) of
                None \<Rightarrow> Some None
              | Some frag \<Rightarrow>
                  if fr_state frag = Primary_need_branch then map_option Some (fr_branch frag) else Some None)
           else Some None)
      | _ \<Rightarrow> Some None)"

text \<open>The missing branches that \<open>copy_branch_history_for_branch()\<close> may ignore are only logged.\<close>

definition register_branch ::
  "('s, 'h) table_raft_state \<Rightarrow> contract_t \<Rightarrow> contract_t \<Rightarrow> contract_acks \<Rightarrow> (server_id, contract_ack_frag) omap \<Rightarrow>
     hash_region \<Rightarrow> contract_round \<Rightarrow> contract_round option" where
  "register_branch state old_contract new_contract acks acks_map reg round =
     do {
       asked \<leftarrow> branch_to_register old_contract new_contract acks_map;
       (case asked of
          None \<Rightarrow> Some round
        | Some to_register \<Rightarrow>
            do {
              pieces \<leftarrow> region_map_visit (rs_current_branches state) reg;
              if list_all (\<lambda>(_, cur_branch). cur_branch = to_register) pieces then Some round
              else if reg \<in> fst ` set (cr_register round) then None
              else
                do {
                  p \<leftarrow> c_primary old_contract;
                  ack \<leftarrow> map_of acks (p_server p);
                  added \<leftarrow> copy_branch_history_for_branch to_register (ack_branch_history ack) (rs_branch_history state)
                    (cr_add_branches round);
                  Some (round\<lparr>cr_register := region_omap_insert reg to_register (cr_register round),
                    cr_add_branches := added\<rparr>)
                }
            })
     }"

definition unconfirmed_replicas :: "contract_t \<Rightarrow> contract_acks \<Rightarrow> server_id set" where
  "unconfirmed_replicas new_contract acks =
     Set.filter (\<lambda>server. \<not> replica_ready (map_of acks server)) (c_replicas new_contract)"

definition can_gc_branch_history :: "contract_t \<Rightarrow> contract_acks \<Rightarrow> bool" where
  "can_gc_branch_history new_contract acks \<longleftrightarrow> unconfirmed_replicas new_contract acks = {}"

definition can_end_after_emergency_repair :: "contract_t \<Rightarrow> contract_acks \<Rightarrow> bool" where
  "can_end_after_emergency_repair new_contract acks \<longleftrightarrow>
     (\<forall>server \<in> unconfirmed_replicas new_contract acks. \<not> is_voter new_contract server)"

definition gc_branches ::
  "('s, 'h) table_raft_state \<Rightarrow> bool \<Rightarrow> hash_region \<Rightarrow> branch_id set \<Rightarrow> branch_id set option" where
  "gc_branches state can_gc reg remove_branches =
     do {
       pieces \<leftarrow> region_map_visit (rs_current_branches state) reg;
       fold_opt (\<lambda>(subregion, current_branch) remove_branches.
           if is_nil current_branch then Some remove_branches
           else if can_gc then Some (remove_branches - {current_branch})
           else mark_all_ancestors_live current_branch subregion (history_reader (rs_branch_history state)) remove_branches)
         pieces remove_branches
     }"

text \<open>The body of \<open>frags_by_server.visit\<close>.\<close>

definition recalculate_piece ::
  "('s, 'h) table_raft_state \<Rightarrow> connections \<Rightarrow> contract_t \<Rightarrow> shard_t \<Rightarrow> contract_acks \<Rightarrow>
     hash_region \<times> (server_id, contract_ack_frag) omap \<Rightarrow> contract_round \<Rightarrow> contract_round option" where
  "recalculate_piece state conn old_contract shard acks piece round =
     do {
       let (reg, acks_map) = piece;
       new_contract \<leftarrow> calculate_contract old_contract shard (map_of acks_map) conn;
       round \<leftarrow> register_branch state old_contract new_contract acks acks_map reg round;
       remove_branches \<leftarrow> gc_branches state (can_gc_branch_history new_contract acks) reg (cr_remove_branches round);
       let new_contract =
         (if can_end_after_emergency_repair new_contract acks
          then new_contract\<lparr>c_after_emergency_repair := False\<rparr> else new_contract);
       Some (round\<lparr>cr_remove_branches := remove_branches, cr_regions := cr_regions round @ [reg],
         cr_contracts := cr_contracts round @ [new_contract]\<rparr>)
     }"

definition recalculate_shard ::
  "version_t \<Rightarrow> ('s, 'h) table_raft_state \<Rightarrow> (contract_id, contract_acks) omap \<Rightarrow> connections \<Rightarrow>
     contract_id \<times> hash_region \<times> contract_t \<Rightarrow> nat \<Rightarrow> contract_round \<Rightarrow> contract_round option" where
  "recalculate_shard v0 state acks conn cpair i round =
     do {
       let (cid, contract_region, old_contract) = cpair;
       range \<leftarrow> get_shard_range (cs_shard_scheme (rs_config state)) i;
       shard_region \<leftarrow> hash_region_of_inner range;
       region \<leftarrow> region_intersection contract_region shard_region;
       if region_is_empty region then Some round
       else
         do {
           let this_contract_acks = (case map_of acks cid of None \<Rightarrow> [] | Some m \<Rightarrow> m);
           by_server \<leftarrow> collect_frags v0 state old_contract this_contract_acks region;
           pieces \<leftarrow> region_map_visit by_server region;
           fold_opt (recalculate_piece state conn old_contract (tc_shards (cs_config (rs_config state)) ! i) this_contract_acks)
             pieces round
         }
     }"

definition contract_round_start :: "('s, 'h) table_raft_state \<Rightarrow> contract_round" where
  "contract_round_start state =
     \<lparr>cr_register = [], cr_add_branches = [], cr_remove_branches = fst ` set (rs_branch_history state),
      cr_regions = [], cr_contracts = []\<rparr>"

definition recalculate_contracts ::
  "version_t \<Rightarrow> ('s, 'h) table_raft_state \<Rightarrow> (contract_id, contract_acks) omap \<Rightarrow> connections \<Rightarrow> contract_round option" where
  "recalculate_contracts v0 state acks conn =
     fold_opt (\<lambda>cpair. fold_opt (recalculate_shard v0 state acks conn cpair)
         [0..<length (tc_shards (cs_config (rs_config state)))])
       (rs_contracts state) (contract_round_start state)"

section \<open>The new contracts\<close>

definition slice_contracts ::
  "('s, 'h) table_config_and_shards \<Rightarrow> contract_t region_map \<Rightarrow> contract_t region_omap option" where
  "slice_contracts config region_map =
     fold_opt (\<lambda>cpu new_map.
         do {
           subspace \<leftarrow> cpu_sharding_subspace (int cpu);
           fold_opt (\<lambda>i new_map.
               do {
                 range \<leftarrow> get_shard_range (cs_shard_scheme config) i;
                 pieces \<leftarrow> region_map_visit region_map (subspace\<lparr>hr_inner := range\<rparr>);
                 fold_opt (\<lambda>(reg, contract) new_map.
                     if hr_beg reg = hr_beg subspace \<and> hr_end reg = hr_end subspace
                     then Some (region_omap_insert reg contract new_map) else None)
                   pieces new_map
               })
             [0..<length (tc_shards (cs_config config))] new_map
         })
       [0..<CPU_SHARDING_FACTOR] []"

text \<open>The old contracts that are not in the new map are removed; what is left of the map is new.\<close>

definition diff_contract ::
  "contract_id \<times> hash_region \<times> contract_t \<Rightarrow> contract_id set \<times> contract_t region_omap \<Rightarrow>
     contract_id set \<times> contract_t region_omap" where
  "diff_contract = (\<lambda>(cid, region, contract) (remove, new_map).
     if map_of new_map region = Some contract then (remove, filter (\<lambda>(reg, c). reg \<noteq> region) new_map)
     else (insert cid remove, new_map))"

definition diff_contracts :: "contract_map \<Rightarrow> contract_t region_omap \<Rightarrow> contract_id set \<times> contract_t region_omap" where
  "diff_contracts old_contracts new_map = fold diff_contract old_contracts ({}, new_map)"

definition name_contracts :: "uuid_source \<Rightarrow> contract_t region_omap \<Rightarrow> contract_map" where
  "name_contracts gen new_map =
     snd (fold (\<lambda>pair (n, add). (n + 1, omap_insert (gen n) pair add)) new_map (0 :: nat, []))"

definition contract_default :: contract_t where
  "contract_default =
     \<lparr>c_replicas = {}, c_voters = {}, c_temp_voters = None, c_primary = None, c_after_emergency_repair = False\<rparr>"

definition calculate_all_contracts ::
  "version_t \<Rightarrow> uuid_source \<Rightarrow> ('s, 'h) table_raft_state \<Rightarrow> (contract_id, contract_acks) omap \<Rightarrow>
     connections \<Rightarrow> new_contracts option" where
  "calculate_all_contracts v0 gen state acks conn =
     do {
       round \<leftarrow> recalculate_contracts v0 state acks conn;
       region_map \<leftarrow> from_unordered_fragments contract_default (cr_regions round) (cr_contracts round);
       new_map \<leftarrow> slice_contracts (rs_config state) region_map;
       let (remove, fresh) = diff_contracts (rs_contracts state) new_map;
       Some \<lparr>nc_remove_contracts = remove, nc_add_contracts = name_contracts gen fresh,
         nc_register_current_branches = cr_register round, nc_add_branches = cr_add_branches round,
         nc_remove_branches = cr_remove_branches round, nc_remove_server_names = {}, nc_add_server_names = []\<rparr>
     }"

section \<open>Server names and members\<close>

text \<open>The loop of \<open>calculate_server_names()\<close> over the replicas of a new contract.\<close>

definition add_replica_names :: "('s, 'h) table_raft_state \<Rightarrow> server_id list \<Rightarrow> server_name_map \<Rightarrow> server_name_map option" where
  "add_replica_names st servers names =
     fold_opt (\<lambda>server names.
         if map_of (rs_server_names st) server = None then
           do {
             name \<leftarrow> map_of (cs_server_names (rs_config st)) server;
             Some (omap_insert server name names)
           }
         else Some names)
       servers names"

definition calculate_server_names ::
  "('s, 'h) table_raft_state \<Rightarrow> contract_id set \<Rightarrow> contract_map \<Rightarrow> (server_id set \<times> server_name_map) option" where
  "calculate_server_names old_state remove_contracts add_contracts =
     do {
       let all_replicas =
         all_replicas_of (filter (\<lambda>(cid, _). cid \<notin> remove_contracts) (rs_contracts old_state)) \<union>
         all_replicas_of add_contracts;
       add_names \<leftarrow> fold_opt (\<lambda>(cid, reg, c). add_replica_names old_state (sorted_list_of_set (c_replicas c)))
         add_contracts [];
       Some (fst ` set (filter (\<lambda>(server, _). server \<notin> all_replicas) (rs_server_names old_state)), add_names)
     }"

definition members_goal :: "('s, 'h) table_raft_state \<Rightarrow> server_id set" where
  "members_goal state =
     (\<Union>shard \<in> set (tc_shards (cs_config (rs_config state))). sh_all_replicas shard) \<union>
     all_replicas_of (rs_contracts state)"

definition voters_goal :: "('s, 'h) table_raft_state \<Rightarrow> server_id set" where
  "voters_goal state = (\<Union>(cid, reg, c) \<in> set (rs_contracts state). c_voters c)"

text \<open>The loop of \<open>calculate_member_ids_and_raft_config()\<close> that draws identifiers for new members.\<close>

definition new_member_ids ::
  "uuid_source \<Rightarrow> (server_id, raft_member_id) omap \<Rightarrow> server_id list \<Rightarrow> nat \<times> (server_id, raft_member_id) omap" where
  "new_member_ids gen ids goal =
     fold (\<lambda>server (n, add). if map_of ids server = None then (n + 1, omap_insert server (gen n) add) else (n, add))
       goal (0, [])"

text \<open>The loop that sets up the new configuration, for a member of every server.\<close>

definition place_member :: "(server_id \<Rightarrow> raft_member_id option) \<Rightarrow> server_id set \<Rightarrow> server_id \<Rightarrow> raft_config \<Rightarrow> raft_config option" where
  "place_member mem voters server c =
     do {
       member \<leftarrow> mem server;
       Some (if server \<in> voters
         then c\<lparr>rc_voting_members := insert member (rc_voting_members c)\<rparr>
         else c\<lparr>rc_non_voting_members := insert member (rc_non_voting_members c)\<rparr>)
     }"

definition calculate_member_ids_and_raft_config ::
  "uuid_source \<Rightarrow> ('s, 'h) table_raft_state \<Rightarrow> raft_complex_config \<Rightarrow>
     (server_id set \<times> (server_id, raft_member_id) omap \<times> raft_config) option" where
  "calculate_member_ids_and_raft_config gen state config =
     do {
       let goal = sorted_list_of_set (members_goal state);
       let add = snd (new_member_ids gen (rs_member_ids state) goal);
       let remove = fst ` set (filter (\<lambda>(server, member). server \<notin> members_goal state \<and> \<not> complex_is_member config member)
         (rs_member_ids state));
       new_config \<leftarrow> fold_opt (place_member
           (\<lambda>server. case map_of (rs_member_ids state) server of Some m \<Rightarrow> Some m | None \<Rightarrow> map_of add server)
           (voters_goal state))
         goal \<lparr>rc_voting_members = {}, rc_non_voting_members = {}\<rparr>;
       Some (remove, add, new_config)
     }"

section \<open>The coordinator's rounds\<close>

definition on_ack_change ::
  "server_id \<times> contract_id \<Rightarrow> contract_ack option \<Rightarrow> (contract_id, contract_acks) omap \<Rightarrow> (contract_id, contract_acks) omap" where
  "on_ack_change key ack acks_by_contract =
     (case ack of
        Some a \<Rightarrow>
          omap_assign (snd key)
            (omap_assign (fst key) a (case map_of acks_by_contract (snd key) of None \<Rightarrow> [] | Some m \<Rightarrow> m)) acks_by_contract
      | None \<Rightarrow>
          (case map_of acks_by_contract (snd key) of
             None \<Rightarrow> acks_by_contract
           | Some m \<Rightarrow>
               if map_of m (fst key) = None then acks_by_contract
               else
                 (let m = omap_erase (fst key) m
                  in if m = [] then omap_erase (snd key) acks_by_contract else omap_assign (snd key) m acks_by_contract)))"

text \<open>The change a round of \<open>pump_contracts()\<close> proposes to Raft, if it is not a no-op.\<close>

definition pump_contracts_change ::
  "version_t \<Rightarrow> uuid_source \<Rightarrow> ('s, 'h) table_raft_state \<Rightarrow> (contract_id, contract_acks) omap \<Rightarrow>
     connections \<Rightarrow> new_contracts option option" where
  "pump_contracts_change v0 gen state acks conn =
     do {
       change \<leftarrow> calculate_all_contracts v0 gen state acks conn;
       (remove_names, add_names) \<leftarrow>
         calculate_server_names state (nc_remove_contracts change) (nc_add_contracts change);
       let change = change\<lparr>nc_remove_server_names := remove_names, nc_add_server_names := add_names\<rparr>;
       Some
         (if nc_remove_contracts change \<noteq> {} \<or> nc_add_contracts change \<noteq> [] \<or> nc_remove_branches change \<noteq> {} \<or>
             nc_add_branches change \<noteq> [] \<or> nc_register_current_branches change \<noteq> []
          then Some change else None)
     }"

text \<open>
  What a round of \<open>pump_configs()\<close> proposes: the change of the member IDs, and after it the new
  Raft configuration.
\<close>

definition pump_configs_change ::
  "uuid_source \<Rightarrow> ('s, 'h) table_raft_state \<Rightarrow> raft_complex_config \<Rightarrow>
     ((server_id set \<times> (server_id, raft_member_id) omap) option \<times> raft_config option) option" where
  "pump_configs_change gen state config =
     do {
       (remove, add, new_config) \<leftarrow> calculate_member_ids_and_raft_config gen state config;
       let current = (case cc_new_config config of None \<Rightarrow> cc_config config | Some n \<Rightarrow> n);
       Some (if remove \<noteq> {} \<or> add \<noteq> [] then Some (remove, add) else None,
         if new_config \<noteq> current then Some new_config else None)
     }"

text \<open>The proposal of \<open>change_config()\<close>; \<open>None\<close> stands for a change that does nothing.\<close>

definition change_config ::
  "(('s, 'h) table_config_and_shards \<Rightarrow> ('s, 'h) table_config_and_shards) \<Rightarrow> ('s, 'h) table_raft_state \<Rightarrow>
     ('s, 'h) change option" where
  "change_config changer state =
     (let new_config = changer (rs_config state)
      in if new_config = rs_config state then None else Some (Set_table_config new_config))"


section \<open>Names stay in step with contracts\<close>

lemma add_replica_names_keys:
  assumes "\<And>s. s \<in> set servers \<Longrightarrow> map_of (rs_server_names st) s \<noteq> None \<or> map_of (cs_server_names (rs_config st)) s \<noteq> None"
  shows "\<exists>out. add_replica_names st servers names = Some out \<and>
    fst ` set out = fst ` set names \<union> {s \<in> set servers. map_of (rs_server_names st) s = None}"
  using assms
proof (induction servers arbitrary: names)
  case Nil
  then show ?case by (simp add: add_replica_names_def)
next
  case (Cons s servers)
  let ?names = "if map_of (rs_server_names st) s = None
    then omap_insert s (the (map_of (cs_server_names (rs_config st)) s)) names else names"
  obtain out where out: "add_replica_names st servers ?names = Some out"
    "fst ` set out = fst ` set ?names \<union> {s \<in> set servers. map_of (rs_server_names st) s = None}"
    using Cons.IH [of ?names] Cons.prems by auto
  have "add_replica_names st (s # servers) names = add_replica_names st servers ?names"
    using Cons.prems [of s] by (auto simp: add_replica_names_def)
  then show ?case using out by (auto simp: omap_insert_keys)
qed

text \<open>The state or the configuration has a name for every replica.\<close>

definition names_known :: "('s, 'h) table_raft_state \<Rightarrow> contract_map \<Rightarrow> bool" where
  "names_known st contracts \<longleftrightarrow>
     (\<forall>(cid, reg, c) \<in> set contracts. finite (c_replicas c) \<and>
        (\<forall>s \<in> c_replicas c. map_of (rs_server_names st) s \<noteq> None \<or> map_of (cs_server_names (rs_config st)) s \<noteq> None))"

lemma add_contract_names_keys:
  assumes "names_known st contracts"
  shows "\<exists>out. fold_opt (\<lambda>(cid, reg, c). add_replica_names st (sorted_list_of_set (c_replicas c))) contracts names = Some out \<and>
    fst ` set out = fst ` set names \<union> {s \<in> all_replicas_of contracts. map_of (rs_server_names st) s = None}"
  using assms
proof (induction contracts arbitrary: names)
  case Nil
  then show ?case by (simp add: all_replicas_of_def)
next
  case (Cons p contracts)
  obtain cid reg c where p: "p = (cid, reg, c)" by (cases p) auto
  have known: "finite (c_replicas c)" "names_known st contracts"
    "\<And>s. s \<in> c_replicas c \<Longrightarrow> map_of (rs_server_names st) s \<noteq> None \<or> map_of (cs_server_names (rs_config st)) s \<noteq> None"
    using Cons.prems p by (auto simp: names_known_def)
  obtain n1 where n1: "add_replica_names st (sorted_list_of_set (c_replicas c)) names = Some n1"
    "fst ` set n1 = fst ` set names \<union> {s \<in> c_replicas c. map_of (rs_server_names st) s = None}"
    using add_replica_names_keys [of "sorted_list_of_set (c_replicas c)" st names] known by auto
  obtain out where out: "fold_opt (\<lambda>(cid, reg, c). add_replica_names st (sorted_list_of_set (c_replicas c))) contracts n1 = Some out"
    "fst ` set out = fst ` set n1 \<union> {s \<in> all_replicas_of contracts. map_of (rs_server_names st) s = None}"
    using Cons.IH [OF known(2), of n1] by blast
  have "all_replicas_of (p # contracts) = c_replicas c \<union> all_replicas_of contracts"
    by (simp add: all_replicas_of_def p)
  then show ?case using n1 out p by auto
qed

lemma calculate_server_names_keys:
  assumes "names_known st add"
  shows "\<exists>out. calculate_server_names st remove add = Some
      (fst ` set (rs_server_names st) - (all_replicas_of (filter (\<lambda>(cid, _). cid \<notin> remove) (rs_contracts st)) \<union> all_replicas_of add), out)
    \<and> fst ` set out = all_replicas_of add - fst ` set (rs_server_names st)"
proof -
  obtain out where out: "fold_opt (\<lambda>(cid, reg, c). add_replica_names st (sorted_list_of_set (c_replicas c))) add [] = Some out"
    "fst ` set out = {s \<in> all_replicas_of add. map_of (rs_server_names st) s = None}"
    using add_contract_names_keys [OF assms, of "[]"] by auto
  have "fst ` set (filter (\<lambda>(server, _). server \<notin> R) ns) = fst ` set ns - R" for R and ns :: server_name_map by force
  moreover have "{s \<in> all_replicas_of add. map_of (rs_server_names st) s = None} = all_replicas_of add - fst ` set (rs_server_names st)"
    by (auto simp: map_of_eq_None_iff)
  ultimately show ?thesis
    using out unfolding calculate_server_names_def Let_def by (simp del: set_filter Un_iff)
qed

lemma all_replicas_of_Un: "set c = set a \<union> set b \<Longrightarrow> all_replicas_of c = all_replicas_of a \<union> all_replicas_of b"
  by (auto simp: all_replicas_of_def)

text \<open>
  Property C12. A round of the coordinator keeps the Raft state sane. If the state passes
  \<open>sanity_check()\<close> and the contracts that are added are sane, have fresh identifiers and replicas that the
  state or the configuration has names for, then \<open>calculate_server_names()\<close> does not throw, and
  after applying the change, with the names it calculated, every contract is sane and the servers
  with names are exactly the replicas of the contracts.
\<close>

theorem new_contracts_keep_sanity:
  assumes sane: "state_sanity_check st" and fin: "finite (nc_remove_contracts ch)"
    and add: "\<forall>(cid, reg, c) \<in> set (nc_add_contracts ch). contract_sanity_check c" "names_known st (nc_add_contracts ch)"
    and ids: "distinct (map fst (nc_add_contracts ch))" "fst ` set (nc_add_contracts ch) \<inter> fst ` set (rs_contracts st) = {}"
  shows "\<exists>gone names. calculate_server_names st (nc_remove_contracts ch) (nc_add_contracts ch) = Some (gone, names) \<and>
    (\<forall>st'. apply_change (New_contracts (ch\<lparr>nc_remove_server_names := gone, nc_add_server_names := names\<rparr>)) st = Some st'
       \<longrightarrow> state_sanity_check st' \<and> fst ` set (rs_server_names st') = all_replicas_of (rs_contracts st'))"
proof -
  let ?kept = "filter (\<lambda>(cid, _). cid \<notin> nc_remove_contracts ch) (rs_contracts st)"
  let ?add = "nc_add_contracts ch" and ?old = "fst ` set (rs_server_names st)"
  let ?gone = "?old - (all_replicas_of ?kept \<union> all_replicas_of ?add)"
  obtain names where names: "calculate_server_names st (nc_remove_contracts ch) ?add = Some (?gone, names)"
    "fst ` set names = all_replicas_of ?add - ?old"
    using calculate_server_names_keys [OF add(2), of "nc_remove_contracts ch"] by blast
  have old: "?old = all_replicas_of (rs_contracts st)" "\<forall>(cid, reg, c) \<in> set (rs_contracts st). contract_sanity_check c"
    using sane by (simp_all add: state_sanity_iff)
  have kept: "omap_erase_all (nc_remove_contracts ch) (rs_contracts st) = ?kept"
    using omap_erase_all_eq [OF fin] by (simp add: case_prod_unfold)
  have sub: "all_replicas_of ?kept \<subseteq> ?old" unfolding old(1) by (auto simp: all_replicas_of_def)
  have "state_sanity_check st' \<and> fst ` set (rs_server_names st') = all_replicas_of (rs_contracts st')"
    if a: "apply_change (New_contracts (ch\<lparr>nc_remove_server_names := ?gone, nc_add_server_names := names\<rparr>)) st = Some st'" for st'
  proof -
    have c: "rs_contracts st' = omap_insert_all ?add ?kept"
      and n: "rs_server_names st' = omap_insert_all names (omap_erase_all ?gone (rs_server_names st))"
      using a kept by (auto simp: Let_def split: bind_splits)
    have set: "set (rs_contracts st') = set ?kept \<union> set ?add"
      unfolding c by (rule set_omap_insert_all_fresh) (use ids in auto)
    have "fst ` set (rs_server_names st') = all_replicas_of (rs_contracts st')"
      using sub names(2) unfolding n omap_insert_all_keys all_replicas_of_Un [OF set]
      by (subst omap_erase_all_keys) auto
    moreover have "\<forall>(cid, reg, c) \<in> set (rs_contracts st'). contract_sanity_check c"
      using set old(2) add(1) by auto
    ultimately show ?thesis by (simp add: state_sanity_iff)
  qed
  then show ?thesis using names(1) by blast
qed


section \<open>Members stay in step with the Raft configuration\<close>

lemma map_of_iff: "omap_ok m \<Longrightarrow> map_of m k = Some v \<longleftrightarrow> (k, v) \<in> set m"
  using omap_ok_distinct by (metis map_of_eq_Some_iff)

lemma new_member_ids_facts:
  assumes "distinct goal" and "new_member_ids gen ids goal = (n, add)"
  shows "omap_ok add \<and> n \<le> length goal \<and> fst ` set add = {s \<in> set goal. map_of ids s = None} \<and>
    snd ` set add \<subseteq> gen ` {..<n} \<and> (inj_on gen {..<n} \<longrightarrow> inj_on snd (set add))"
  using assms
proof (induction goal arbitrary: n add rule: rev_induct)
  case Nil
  then show ?case by (simp add: new_member_ids_def)
next
  case (snoc s goal)
  obtain k a where ka: "new_member_ids gen ids goal = (k, a)" by fastforce
  have ih: "omap_ok a" "k \<le> length goal" "fst ` set a = {s \<in> set goal. map_of ids s = None}"
    "snd ` set a \<subseteq> gen ` {..<k}" "inj_on gen {..<k} \<longrightarrow> inj_on snd (set a)"
    using snoc.IH [OF _ ka] snoc.prems(1) by auto
  have step: "(n, add) = (if map_of ids s = None then (k + 1, omap_insert s (gen k) a) else (k, a))"
    using snoc.prems(2) ka by (simp add: new_member_ids_def split: if_splits)
  show ?case
  proof (cases "map_of ids s = None")
    case True
    have fresh: "s \<notin> fst ` set a" using ih(3) snoc.prems(1) by auto
    have set: "set add = insert (s, gen k) (set a)" using set_omap_insert_fresh [OF fresh] step True by simp
    have "inj_on snd (set add)" if i: "inj_on gen {..<n}"
    proof -
      have "inj_on gen {..<k}" using i step True by (auto simp: inj_on_def)
      moreover have "gen k \<notin> snd ` set a"
        using ih(4) i step True by (auto simp: inj_on_def lessThan_Suc)
      ultimately show ?thesis using ih(5) unfolding set by auto
    qed
    moreover have "snd ` set add \<subseteq> gen ` {..<n}" using ih(4) set step True by auto
    moreover have "fst ` set add = {x \<in> set (goal @ [s]). map_of ids x = None}" using set ih(3) True by auto
    moreover have "omap_ok add" "n \<le> length (goal @ [s])" using ih(1,2) step True omap_insert_ok by auto
    ultimately show ?thesis by blast
  next
    case False
    then have "n = k" "add = a" "{x \<in> set (goal @ [s]). map_of ids x = None} = {x \<in> set goal. map_of ids x = None}"
      using step by auto
    then show ?thesis using ih by simp
  qed
qed

lemma place_members:
  assumes "\<And>s. s \<in> set goal \<Longrightarrow> mem s = Some (id_of s)"
  shows "fold_opt (place_member mem voters) goal c = Some
    \<lparr>rc_voting_members = rc_voting_members c \<union> id_of ` (set goal \<inter> voters),
     rc_non_voting_members = rc_non_voting_members c \<union> id_of ` (set goal - voters)\<rparr>"
  using assms
proof (induction goal arbitrary: c)
  case (Cons s goal)
  then show ?case by (cases "s \<in> voters") (simp_all add: place_member_def insert_Diff_if)
qed simp

lemma applied_member_ids:
  assumes ok: "omap_ok ids" "omap_ok add" and new: "fst ` set add \<inter> fst ` set ids = {}" and fin: "finite gone"
  shows "set (omap_insert_all add (omap_erase_all gone ids)) = {(s, m) \<in> set ids. s \<notin> gone} \<union> set add \<and>
    omap_ok (omap_insert_all add (omap_erase_all gone ids))"
proof -
  have "set (omap_insert_all add (omap_erase_all gone ids)) = set (omap_erase_all gone ids) \<union> set add"
    by (rule set_omap_insert_all_fresh)
      (use new omap_erase_all_keys [OF fin, of ids] omap_ok_distinct [OF ok(2)] in auto)
  then show ?thesis
    using omap_insert_all_ok [OF omap_erase_all_ok [OF fin ok(1)]] by (auto simp: omap_erase_all_eq [OF fin])
qed

lemma member_has_id:
  assumes ok: "omap_ok ids" "omap_ok add" and keys: "fst ` set add = {s \<in> goal. map_of ids s = None}"
    and ids': "set ids' = {(s, m) \<in> set ids. s \<notin> gone} \<union> set add" "omap_ok ids'" and s: "s \<in> goal" "s \<notin> gone"
  shows "map_of ids' s = (case map_of ids s of Some m \<Rightarrow> Some m | None \<Rightarrow> map_of add s) \<and> map_of ids' s \<noteq> None"
proof (cases "map_of ids s")
  case None
  then have "s \<in> fst ` set add" using keys s(1) by simp
  then obtain m where m: "(s, m) \<in> set add" by auto
  then have "map_of add s = Some m" "map_of ids' s = Some m"
    using map_of_iff [OF ok(2)] map_of_iff [OF ids'(2)] ids'(1) by simp_all
  then show ?thesis using None by simp
next
  case (Some m)
  then have "map_of ids' s = Some m" using map_of_iff [OF ok(1)] map_of_iff [OF ids'(2)] ids'(1) s(2) by simp
  then show ?thesis using Some by simp
qed

text \<open>An identifier in the configuration is not removed: it is that of one server only.\<close>

lemma config_members_kept:
  assumes "omap_ok ids" and inj: "inj_on snd (set ids)" and cur: "complex_all_members config \<subseteq> snd ` set ids"
    and ids': "set ids' = {(s, m) \<in> set ids. s \<notin> gone} \<union> set add"
    and gone: "\<And>s. s \<in> gone \<Longrightarrow> \<exists>m. (s, m) \<in> set ids \<and> \<not> complex_is_member config m"
  shows "complex_all_members config \<subseteq> snd ` set ids'"
proof
  fix m assume m: "m \<in> complex_all_members config"
  then obtain s where s: "(s, m) \<in> set ids" using cur by auto
  have "complex_is_member config m"
    using m by (auto simp: complex_all_members_def complex_is_member_def config_all_members_def config_is_member_def split: option.splits)
  then have "s \<notin> gone" using gone [of s] s omap_ok_distinct [OF assms(1)] by (auto dest: eq_key_imp_eq_value)
  then show "m \<in> snd ` set ids'" using s ids' by force
qed

lemma inj_on_kept:
  "inj_on snd (set ids) \<Longrightarrow> inj_on snd (set add) \<Longrightarrow> snd ` set add \<inter> snd ` set ids = {} \<Longrightarrow>
     inj_on snd ({(s, m) \<in> set ids. s \<notin> gone} \<union> set add)"
  unfolding inj_on_Un by (auto intro: inj_on_subset)

text \<open>
  Property C11. Every member of the Raft configuration has an entry in \<open>member_ids\<close>, before and after
  each of the two steps of a reconfiguration. \<open>calculate_member_ids_and_raft_config()\<close> does not throw; once
  the change of the member IDs it returns is applied, the current configuration and the new one
  have only members with entries, every server of the table configuration or of a contract has
  an entry, different servers have different members, and the voters of the new configuration are
  the members of the voters of contracts, the other members being non-voting. Identifiers that are drawn are
  new and distinct.
\<close>

theorem member_ids_cover_raft_config:
  assumes ok: "omap_ok (rs_member_ids st)" "inj_on snd (set (rs_member_ids st))" and fin: "finite (members_goal st)"
    and cur: "complex_all_members config \<subseteq> snd ` set (rs_member_ids st)"
    and gen: "inj_on gen {..<card (members_goal st)}" "gen ` {..<card (members_goal st)} \<inter> snd ` set (rs_member_ids st) = {}"
  shows "\<exists>gone add new st'. calculate_member_ids_and_raft_config gen st config = Some (gone, add, new) \<and>
    apply_change (New_member_ids gone add) st = Some st' \<and>
    complex_all_members config \<union> config_all_members new \<subseteq> snd ` set (rs_member_ids st') \<and>
    members_goal st \<subseteq> fst ` set (rs_member_ids st') \<and>
    omap_ok (rs_member_ids st') \<and> inj_on snd (set (rs_member_ids st')) \<and>
    rc_voting_members new = {m. \<exists>s \<in> members_goal st \<inter> voters_goal st. map_of (rs_member_ids st') s = Some m} \<and>
    rc_non_voting_members new = {m. \<exists>s \<in> members_goal st - voters_goal st. map_of (rs_member_ids st') s = Some m}"
proof -
  let ?ids = "rs_member_ids st" and ?goal = "sorted_list_of_set (members_goal st)"
  define gone where "gone = fst ` set (filter (\<lambda>(s, m). s \<notin> members_goal st \<and> \<not> complex_is_member config m) ?ids)"
  obtain n add where na: "new_member_ids gen ?ids ?goal = (n, add)" by fastforce
  have goal: "distinct ?goal" "set ?goal = members_goal st" "length ?goal = card (members_goal st)" using fin by simp_all
  have add: "omap_ok add" "n \<le> card (members_goal st)" "fst ` set add = {s \<in> members_goal st. map_of ?ids s = None}"
    "snd ` set add \<subseteq> gen ` {..<n}" "inj_on gen {..<n} \<longrightarrow> inj_on snd (set add)"
    using new_member_ids_facts [OF goal(1) na] goal by auto
  define ids' where "ids' = omap_insert_all add (omap_erase_all gone ?ids)"
  have new: "fst ` set add \<inter> fst ` set ?ids = {}" unfolding add(3) by (auto simp: map_of_eq_None_iff)
  have ids': "set ids' = {(s, m) \<in> set ?ids. s \<notin> gone} \<union> set add" "omap_ok ids'"
    using applied_member_ids [OF ok(1) add(1) new, of gone] by (simp_all add: ids'_def gone_def)
  define mem where "mem s = (case map_of ?ids s of Some m \<Rightarrow> Some m | None \<Rightarrow> map_of add s)" for s
  have has: "map_of ids' s = mem s \<and> mem s \<noteq> None" if "s \<in> members_goal st" for s
  proof -
    have "s \<notin> gone" using that by (auto simp: gone_def)
    then show ?thesis using member_has_id [OF ok(1) add(1,3) ids' that] unfolding mem_def by argo
  qed
  define new where "new = \<lparr>rc_voting_members = (\<lambda>s. the (mem s)) ` (members_goal st \<inter> voters_goal st),
     rc_non_voting_members = (\<lambda>s. the (mem s)) ` (members_goal st - voters_goal st)\<rparr>"
  have "fold_opt (place_member mem (voters_goal st)) ?goal \<lparr>rc_voting_members = {}, rc_non_voting_members = {}\<rparr> = Some new"
    using place_members [of ?goal mem "\<lambda>s. the (mem s)" "voters_goal st"] has goal(2) by (simp add: new_def)
  then have calc: "calculate_member_ids_and_raft_config gen st config = Some (gone, add, new)"
    unfolding calculate_member_ids_and_raft_config_def Let_def na snd_conv mem_def gone_def by simp
  have applied: "apply_change (New_member_ids gone add) st = Some (st\<lparr>rs_member_ids := ids'\<rparr>)" by (simp add: ids'_def)
  have keep: "complex_all_members config \<subseteq> snd ` set ids'"
    by (rule config_members_kept [OF ok cur ids'(1)]) (auto simp: gone_def)
  have image: "(\<lambda>s. the (mem s)) ` A = {m. \<exists>s \<in> A. map_of ids' s = Some m}" if "A \<subseteq> members_goal st" for A
    using has that by (force simp: image_iff)
  have in_ids: "{m. \<exists>s \<in> A. map_of ids' s = Some m} \<subseteq> snd ` set ids'" for A
    using map_of_iff [OF ids'(2)] by force
  have voters: "rc_voting_members new = {m. \<exists>s \<in> members_goal st \<inter> voters_goal st. map_of ids' s = Some m}"
    unfolding new_def using image [of "members_goal st \<inter> voters_goal st"] by simp
  have others: "rc_non_voting_members new = {m. \<exists>s \<in> members_goal st - voters_goal st. map_of ids' s = Some m}"
    unfolding new_def using image [of "members_goal st - voters_goal st"] by simp
  have all: "config_all_members new \<subseteq> snd ` set ids'"
    unfolding config_all_members_def voters others using in_ids by (intro Un_least)
  have sub: "gen ` {..<n} \<subseteq> gen ` {..<card (members_goal st)}" using add(2) by (intro image_mono) simp
  have "inj_on gen {..<n}" using gen(1) add(2) by (auto intro: inj_on_subset)
  then have inj: "inj_on snd (set ids')"
    unfolding ids'(1) using inj_on_kept [OF ok(2)] add(4,5) sub gen(2) by blast
  have dom: "members_goal st \<subseteq> fst ` set ids'" using has omap_keys_iff [of ids'] by (metis subsetI)
  show ?thesis
    by (intro exI conjI, rule calc, rule applied) (simp_all add: keep all dom inj ids'(2) voters others)
qed


section \<open>Witnesses\<close>

text \<open>A table on one server, to which its user has added another.\<close>

definition small_contract :: "server_id set \<Rightarrow> contract_t" where
  "small_contract servers = contract_default\<lparr>c_replicas := servers, c_voters := servers\<rparr>"

definition growing_table :: "(unit, unit) table_raft_state" where
  "growing_table =
     \<lparr>rs_config =
        \<lparr>cs_config = \<lparr>tc_basic = \<lparr>tb_name = ''t'', tb_database = 9, tb_primary_key = ''id''\<rparr>,
           tc_shards = [\<lparr>sh_all_replicas = {srv 2, srv 3}, sh_nonvoting_replicas = {}, sh_primary_replica = srv 2\<rparr>],
           tc_sindexes = [], tc_write_hook = None, tc_write_ack_config = Ack_majority, tc_durability = Durability_hard\<rparr>,
         cs_shard_scheme = [], cs_server_names = [(srv 2, 0, ''a''), (srv 3, 0, ''b'')]\<rparr>,
      rs_contracts = [(5, the hash_region_universe, small_contract {srv 2})],
      rs_current_branches = region_map_of (the hash_region_universe) nil_uuid,
      rs_branch_history = [], rs_member_ids = [(srv 2, 11)], rs_server_names = [(srv 2, 0, ''a'')]\<rparr>"

definition growing_change :: new_contracts where
  "growing_change =
     \<lparr>nc_remove_contracts = {5}, nc_add_contracts = [(6, the hash_region_universe, small_contract {srv 2, srv 3})],
      nc_register_current_branches = [], nc_add_branches = [], nc_remove_branches = {}, nc_remove_server_names = {},
      nc_add_server_names = []\<rparr>"

definition growing_config :: raft_complex_config where
  "growing_config = \<lparr>cc_config = \<lparr>rc_voting_members = {11}, rc_non_voting_members = {}\<rparr>, cc_new_config = None\<rparr>"

lemmas growing_defs = growing_table_def growing_change_def growing_config_def small_contract_def contract_default_def

theorem new_contracts_keep_sanity_witness:
  "\<exists>gone names st'. calculate_server_names growing_table {5} (nc_add_contracts growing_change) = Some (gone, names) \<and>
    apply_change (New_contracts (growing_change\<lparr>nc_remove_server_names := gone, nc_add_server_names := names\<rparr>)) growing_table
      = Some st' \<and> state_sanity_check st'"
proof -
  have "state_sanity_check growing_table"
    by (simp add: state_sanity_check_def growing_defs contract_sanity_check_def all_replicas_of_def)
  moreover have "\<forall>(cid, reg, c) \<in> set (nc_add_contracts growing_change). contract_sanity_check c"
    "names_known growing_table (nc_add_contracts growing_change)"
    by (simp_all add: growing_defs contract_sanity_check_def names_known_def)
  moreover have "nc_remove_contracts growing_change = {5}" "distinct (map fst (nc_add_contracts growing_change))"
    "fst ` set (nc_add_contracts growing_change) \<inter> fst ` set (rs_contracts growing_table) = {}"
    by (simp_all add: growing_defs)
  ultimately obtain gone names where c: "calculate_server_names growing_table {5} (nc_add_contracts growing_change) = Some (gone, names)"
    "\<forall>st'. apply_change (New_contracts (growing_change\<lparr>nc_remove_server_names := gone, nc_add_server_names := names\<rparr>))
      growing_table = Some st' \<longrightarrow> state_sanity_check st'"
    using new_contracts_keep_sanity [of growing_table growing_change] by auto
  moreover have "\<exists>st'. apply_change (New_contracts (growing_change\<lparr>nc_remove_server_names := gone, nc_add_server_names := names\<rparr>))
      growing_table = Some st'"
    by (simp add: growing_change_def register_branches_def Let_def)
  ultimately show ?thesis by blast
qed

theorem member_ids_cover_raft_config_witness:
  "\<exists>gone add new st'. calculate_member_ids_and_raft_config (\<lambda>n. of_nat (100 + n)) growing_table growing_config = Some (gone, add, new)
    \<and> apply_change (New_member_ids gone add) growing_table = Some st' \<and> {srv 2, srv 3} \<subseteq> fst ` set (rs_member_ids st')"
proof -
  have goal: "members_goal growing_table = {srv 2, srv 3}"
    by (auto simp: members_goal_def growing_defs all_replicas_of_def)
  then have card: "{..<card (members_goal growing_table)} = {0, 1}" by (auto simp: srv_eq)
  have "inj_on (\<lambda>n. of_nat (100 + n) :: uuid_u) {0, 1}" by (simp add: inj_on_def)
  moreover have "omap_ok (rs_member_ids growing_table)" "inj_on snd (set (rs_member_ids growing_table))"
    "complex_all_members growing_config \<subseteq> snd ` set (rs_member_ids growing_table)"
    "(\<lambda>n. of_nat (100 + n)) ` {0, 1} \<inter> snd ` set (rs_member_ids growing_table) = {}"
    by (simp_all add: growing_defs complex_all_members_def config_all_members_def)
  ultimately show ?thesis
    using member_ids_cover_raft_config [of growing_table growing_config "\<lambda>n. of_nat (100 + n)"] goal card by auto
qed

end
