(* ===== verification/Emergency_Repair.thy ===== *)
theory Emergency_Repair
  imports Table_State
begin

text \<open>
  \<open>clustering/table_contract/emergency_repair.cc\<close>: the state with which a table is restarted after
  the loss of servers. Identifiers come from the source \<open>gen\<close>, as in \<open>Table_State\<close>; \<open>p0\<close> is
  what \<open>shard_t()\<close> leaves in \<open>primary_replica\<close>.
\<close>

section \<open>Dead servers\<close>

definition all_dead :: "server_id set \<Rightarrow> server_id set \<Rightarrow> bool" where
  "all_dead servers dead \<longleftrightarrow> (\<forall>server \<in> servers. server \<in> dead)"

definition quorum_dead :: "server_id set \<Rightarrow> server_id set \<Rightarrow> bool" where
  "quorum_dead servers dead \<longleftrightarrow> (let alive = card (Set.filter (\<lambda>server. server \<notin> dead) servers) in alive * 2 \<le> card servers)"

definition any_dead :: "server_id set \<Rightarrow> server_id set \<Rightarrow> bool" where
  "any_dead servers dead \<longleftrightarrow> (\<exists>server \<in> servers. server \<in> dead)"

datatype repair_mode = Debug_recommit | Unsafe_rollback | Unsafe_rollback_or_erase

section \<open>Repairing a contract\<close>

definition erase_contract :: "server_id \<Rightarrow> contract_t" where
  "erase_contract replacement =
     \<lparr>c_replicas = {replacement}, c_voters = {replacement}, c_temp_voters = None, c_primary = None,
      c_after_emergency_repair = True\<rparr>"

definition needs_rollback :: "server_id set \<Rightarrow> contract_t \<Rightarrow> bool" where
  "needs_rollback dead c \<longleftrightarrow>
     quorum_dead (c_voters c) dead \<or>
     (case c_temp_voters c of None \<Rightarrow> False | Some tv \<Rightarrow> quorum_dead tv dead) \<or>
     c_after_emergency_repair c \<and> any_dead (c_voters c) dead"

definition rollback_contract :: "server_id set \<Rightarrow> contract_t \<Rightarrow> contract_t" where
  "rollback_contract dead c =
     (let voters = (case c_temp_voters c of None \<Rightarrow> c_voters c | Some tv \<Rightarrow> c_voters c \<union> tv) - dead;
          voters = (if voters = {} then Set.filter (\<lambda>server. server \<notin> dead) (c_replicas c) else voters)
      in c\<lparr>c_primary := None, c_temp_voters := None, c_voters := voters, c_after_emergency_repair := True\<rparr>)"

text \<open>The flags report a rollback and an erase.\<close>

definition repair_contract ::
  "repair_mode \<Rightarrow> server_id set \<Rightarrow> server_id \<Rightarrow> contract_t \<Rightarrow> contract_t \<times> bool \<times> bool" where
  "repair_contract mode dead replacement c =
     (if all_dead (c_replicas c) dead then
        (if mode = Unsafe_rollback_or_erase then erase_contract replacement else c, False, True)
      else if needs_rollback dead c then (rollback_contract dead c, True, False)
      else (c, False, False))"

definition repair_contracts ::
  "uuid_source \<Rightarrow> repair_mode \<Rightarrow> server_id set \<Rightarrow> server_id \<Rightarrow> contract_map \<Rightarrow> nat \<times> contract_map \<times> bool \<times> bool" where
  "repair_contracts gen mode dead replacement contracts =
     fold (\<lambda>(cid, region, c) (n, new_contracts, rollback, erase).
         case repair_contract mode dead replacement c of
           (c', r, e) \<Rightarrow> (n + 1, omap_insert (gen n) (region, c') new_contracts, rollback \<or> r, erase \<or> e))
       contracts (0, [], False, False)"

section \<open>The new configuration\<close>

type_synonym shard_map = "(right_bound, shard_t) range_map"

definition empty_shard :: "server_id \<Rightarrow> shard_t" where
  "empty_shard p0 = \<lparr>sh_all_replicas = {}, sh_nonvoting_replicas = {}, sh_primary_replica = p0\<rparr>"

definition add_replica :: "contract_t \<Rightarrow> server_id \<Rightarrow> shard_t \<Rightarrow> shard_t" where
  "add_replica c server shard =
     (if server \<in> c_voters c then
        shard\<lparr>sh_all_replicas := insert server (sh_all_replicas shard),
          sh_nonvoting_replicas := sh_nonvoting_replicas shard - {server}\<rparr>
      else if server \<notin> sh_all_replicas shard then
        shard\<lparr>sh_all_replicas := insert server (sh_all_replicas shard),
          sh_nonvoting_replicas := insert server (sh_nonvoting_replicas shard)\<rparr>
      else shard)"

definition add_contract_replicas :: "contract_t \<Rightarrow> shard_t \<Rightarrow> shard_t" where
  "add_contract_replicas c shard = fold (add_replica c) (sorted_list_of_set (c_replicas c)) shard"

definition config_replicas :: "contract_map \<Rightarrow> shard_map \<Rightarrow> shard_map option" where
  "config_replicas contracts m =
     fold_opt (\<lambda>(cid, region, c) m.
         rm_visit_mutable (\<lambda>_ _ shard. Some (add_contract_replicas c shard))
           (Bound (kr_left (hr_inner region))) (kr_right (hr_inner region)) m)
       contracts m"

text \<open>\<open>*voting_replicas().begin()\<close> of an empty set is \<open>None\<close>.\<close>

definition assign_primary :: "server_id \<Rightarrow> shard_t \<Rightarrow> shard_t option" where
  "assign_primary old_primary shard =
     (if old_primary \<in> voting_replicas shard then Some (shard\<lparr>sh_primary_replica := old_primary\<rparr>)
      else if voting_replicas shard = {} then None
      else Some (shard\<lparr>sh_primary_replica := Min (voting_replicas shard)\<rparr>))"

definition config_primaries :: "('s, 'h) table_config_and_shards \<Rightarrow> shard_map \<Rightarrow> shard_map option" where
  "config_primaries old_config m =
     fold_opt (\<lambda>i m.
         do {
           range \<leftarrow> get_shard_range (cs_shard_scheme old_config) i;
           rm_visit_mutable (\<lambda>_ _ shard. assign_primary (sh_primary_replica (tc_shards (cs_config old_config) ! i)) shard)
             (Bound (kr_left range)) (kr_right range) m
         })
       [0..<length (tc_shards (cs_config old_config))] m"

definition split_points_of :: "(right_bound \<times> right_bound \<times> shard_t) list \<Rightarrow> shard_scheme" where
  "split_points_of pieces =
     concat (map (\<lambda>(_, right, _). case right of Unbounded \<Rightarrow> [] | Bound key \<Rightarrow> [key]) pieces)"

definition add_names :: "server_name_map \<Rightarrow> server_id list \<Rightarrow> server_name_map \<Rightarrow> server_name_map option" where
  "add_names old_names servers names =
     fold_opt (\<lambda>server names. do { name \<leftarrow> map_of old_names server; Some (omap_insert server name names) }) servers names"

text \<open>
  The new configuration has the fields of the old one that the code copies; the write hook keeps
  the value it has in a fresh \<open>table_config_t\<close>.
\<close>

definition repair_config ::
  "server_id \<Rightarrow> ('s, 'h) table_raft_state \<Rightarrow> contract_map \<Rightarrow> ('s, 'h) table_config_and_shards option" where
  "repair_config p0 old_state contracts =
     do {
       let old_config = cs_config (rs_config old_state);
       m \<leftarrow> config_replicas contracts (range_map_of (Bound store_key_min) Unbounded (empty_shard p0));
       m \<leftarrow> config_primaries (rs_config old_state) m;
       pieces \<leftarrow> rm_visit m (Bound store_key_min) Unbounded;
       let shards = map (\<lambda>(_, _, shard). shard) pieces;
       let scheme = split_points_of pieces;
       names \<leftarrow>
         (if length shards = num_shards scheme
          then fold_opt (\<lambda>shard. add_names (rs_server_names old_state) (sorted_list_of_set (sh_all_replicas shard))) shards []
          else None);
       Some \<lparr>cs_config = \<lparr>tc_basic = tc_basic old_config, tc_shards = shards, tc_sindexes = tc_sindexes old_config,
           tc_write_hook = None, tc_write_ack_config = tc_write_ack_config old_config,
           tc_durability = tc_durability old_config\<rparr>,
         cs_shard_scheme = scheme, cs_server_names = names\<rparr>
     }"

section \<open>The new state\<close>

definition repair_member ::
  "uuid_source \<Rightarrow> server_name_map \<Rightarrow> server_id \<Rightarrow> nat \<times> (server_id, raft_member_id) omap \<times> server_name_map \<Rightarrow>
     (nat \<times> (server_id, raft_member_id) omap \<times> server_name_map) option" where
  "repair_member gen old_names server = (\<lambda>(n, members, names).
     if map_of members server = None then
       do { name \<leftarrow> map_of old_names server; Some (n + 1, omap_insert server (gen n) members, omap_insert server name names) }
     else Some (n, members, names))"

definition repair_members ::
  "uuid_source \<Rightarrow> server_name_map \<Rightarrow> contract_map \<Rightarrow> nat \<Rightarrow> ((server_id, raft_member_id) omap \<times> server_name_map) option" where
  "repair_members gen old_names contracts n =
     map_option snd
       (fold_opt (\<lambda>(cid, region, c). fold_opt (repair_member gen old_names) (sorted_list_of_set (c_replicas c)))
         contracts (n, [], []))"

definition erase_replacement :: "server_id set \<Rightarrow> (server_id, raft_member_id) omap \<Rightarrow> server_id" where
  "erase_replacement dead members =
     (case filter (\<lambda>(server, _). server \<notin> dead) members of
        [] \<Rightarrow> from_server_uuid nil_uuid
      | (server, _) # _ \<Rightarrow> server)"

definition calculate_emergency_repair ::
  "uuid_source \<Rightarrow> server_id \<Rightarrow> ('s, 'h) table_raft_state \<Rightarrow> server_id set \<Rightarrow> repair_mode \<Rightarrow>
     (('s, 'h) table_raft_state \<times> bool \<times> bool) option" where
  "calculate_emergency_repair gen p0 old_state dead mode =
     (if mode = Debug_recommit then Some (old_state, False, False)
      else
        do {
          let replacement = erase_replacement dead (rs_member_ids old_state);
          if is_nil (sid_uuid replacement) then None
          else
            do {
              let (n, contracts, rollback, erase) = repair_contracts gen mode dead replacement (rs_contracts old_state);
              config \<leftarrow> repair_config p0 old_state contracts;
              (members, names) \<leftarrow> repair_members gen (rs_server_names old_state) contracts n;
              Some (\<lparr>rs_config = config, rs_contracts = contracts, rs_current_branches = rs_current_branches old_state,
                rs_branch_history = rs_branch_history old_state, rs_member_ids = members, rs_server_names = names\<rparr>,
                rollback, erase)
            }
        })"

section \<open>Repaired contracts\<close>

text \<open>Whether a repair would leave a contract as it is.\<close>

definition serviceable :: "server_id set \<Rightarrow> contract_t \<Rightarrow> bool" where
  "serviceable dead c \<longleftrightarrow> \<not> all_dead (c_replicas c) dead \<and> \<not> needs_rollback dead c"

lemma living_quorum: "finite V \<Longrightarrow> V \<noteq> {} \<Longrightarrow> V \<inter> dead = {} \<Longrightarrow> \<not> quorum_dead V dead"
proof -
  assume V: "finite V" "V \<noteq> {}" "V \<inter> dead = {}"
  then have "Set.filter (\<lambda>server. server \<notin> dead) V = V" by auto
  then show ?thesis using V card_gt_0_iff [of V] by (simp add: quorum_dead_def)
qed

lemma erase_contract_ok:
  shows "contract_wf (erase_contract s)" and "s \<notin> dead \<Longrightarrow> serviceable dead (erase_contract s)"
proof -
  show "contract_wf (erase_contract s)" by (simp add: contract_wf_def contract_sanity_check_def erase_contract_def)
  assume "s \<notin> dead"
  then show "serviceable dead (erase_contract s)"
    using living_quorum [of "{s}" dead]
    by (simp add: serviceable_def needs_rollback_def erase_contract_def all_dead_def any_dead_def)
qed

lemma rollback_contract_ok:
  assumes wf: "contract_wf c" and alive: "\<not> all_dead (c_replicas c) dead"
  shows "contract_wf (rollback_contract dead c)" and "serviceable dead (rollback_contract dead c)"
    and "c_replicas (rollback_contract dead c) = c_replicas c" and "c_primary (rollback_contract dead c) = None"
proof -
  let ?c = "rollback_contract dead c"
  note w = contract_wfD [OF wf]
  have sub: "c_voters ?c \<subseteq> c_replicas c - dead" and ne: "c_voters ?c \<noteq> {}"
    using w(2) w(5) alive by (auto simp: rollback_contract_def all_dead_def Let_def split: option.splits)
  have fin: "finite (c_voters ?c)" using sub w(1) by (meson finite_Diff finite_subset)
  show repl: "c_replicas ?c = c_replicas c" and prim: "c_primary ?c = None"
    by (simp_all add: rollback_contract_def Let_def)
  have temp: "c_temp_voters ?c = None" by (simp add: rollback_contract_def Let_def)
  show "contract_wf ?c" using w(1) sub ne repl temp prim by (auto simp: contract_wf_def contract_sanity_check_def)
  have "c_voters ?c \<inter> dead = {}" using sub by auto
  then show "serviceable dead ?c"
    using living_quorum [OF fin ne] alive
    by (auto simp: serviceable_def needs_rollback_def any_dead_def all_dead_def repl temp)
qed

lemma repair_contract_ok:
  assumes "contract_wf c" and "replacement \<notin> dead"
    and "repair_contract mode dead replacement c = (c', r, e)"
  shows "contract_wf c'" and "serviceable dead c' \<or> mode \<noteq> Unsafe_rollback_or_erase \<and> all_dead (c_replicas c) dead \<and> c' = c"
    and "serviceable dead c \<Longrightarrow> c' = c" and "r \<or> e \<longleftrightarrow> \<not> serviceable dead c"
    and "c_replicas c' \<subseteq> c_replicas c \<union> (if all_dead (c_replicas c) dead then {replacement} else {})"
proof -
  have "c_replicas (erase_contract replacement) = {replacement}" by (simp add: erase_contract_def)
  then show "contract_wf c'" "serviceable dead c' \<or> mode \<noteq> Unsafe_rollback_or_erase \<and> all_dead (c_replicas c) dead \<and> c' = c"
    "serviceable dead c \<Longrightarrow> c' = c" "r \<or> e \<longleftrightarrow> \<not> serviceable dead c"
    "c_replicas c' \<subseteq> c_replicas c \<union> (if all_dead (c_replicas c) dead then {replacement} else {})"
    using assms erase_contract_ok(1) [of replacement] erase_contract_ok(2) [OF assms(2)]
      rollback_contract_ok [OF assms(1), of dead]
    by (auto simp: repair_contract_def serviceable_def split: if_splits)
qed

text \<open>The loop over the contracts, with identifiers that are all different.\<close>

definition repaired :: "repair_mode \<Rightarrow> server_id set \<Rightarrow> server_id \<Rightarrow> contract_map \<Rightarrow> (hash_region \<times> contract_t) set" where
  "repaired mode dead replacement contracts =
     (\<lambda>(cid, region, c). (region, fst (repair_contract mode dead replacement c))) ` set contracts"

lemma repair_contracts_eq:
  assumes "inj_on gen {..<length contracts}"
    and "repair_contracts gen mode dead replacement contracts = (n, new, rollback, erase)"
  shows "snd ` set new = repaired mode dead replacement contracts" and "omap_ok new"
    and "rollback \<or> erase \<longleftrightarrow> (\<exists>(cid, region, c) \<in> set contracts.
      case repair_contract mode dead replacement c of (c', r, e) \<Rightarrow> r \<or> e)"
proof -
  let ?f = "\<lambda>(cid, region, c) (n, new, rollback, erase).
      case repair_contract mode dead replacement c of
        (c', r, e) \<Rightarrow> (n + 1, omap_insert (gen n) (region, c') new, rollback \<or> r, erase \<or> e)"
  have "snd ` set new = snd ` set m \<union> repaired mode dead replacement xs \<and> omap_ok new \<and>
      (rollback \<or> erase \<longleftrightarrow> r0 \<or> e0 \<or> (\<exists>(cid, region, c) \<in> set xs.
        case repair_contract mode dead replacement c of (c', r, e) \<Rightarrow> r \<or> e))"
    if "fold ?f xs (k, m, r0, e0) = (n, new, rollback, erase)" "fst ` set m \<subseteq> gen ` {..<k}" "omap_ok m"
      "k + length xs \<le> length contracts"
    for xs k m r0 e0
    using that
  proof (induction xs arbitrary: k m r0 e0)
    case (Cons x xs)
    obtain cid region c where x: "x = (cid, region, c)" by (cases x)
    obtain c' r e where c': "repair_contract mode dead replacement c = (c', r, e)" by (cases "repair_contract mode dead replacement c")
    have "gen k \<noteq> gen i" if "i < k" for i
      using inj_onD [OF assms(1), of k i] that Cons.prems(4) by fastforce
    then have fresh: "gen k \<notin> fst ` set m" using Cons.prems(2) by auto
    have "snd ` set new = snd ` set (omap_insert (gen k) (region, c') m) \<union> repaired mode dead replacement xs \<and> omap_ok new \<and>
      (rollback \<or> erase \<longleftrightarrow> (r0 \<or> r) \<or> (e0 \<or> e) \<or> (\<exists>(cid, region, c) \<in> set xs.
        case repair_contract mode dead replacement c of (c', r, e) \<Rightarrow> r \<or> e))"
    proof (rule Cons.IH)
      show "fold ?f xs (k + 1, omap_insert (gen k) (region, c') m, r0 \<or> r, e0 \<or> e) = (n, new, rollback, erase)"
        using Cons.prems(1) by (simp add: x c')
      show "fst ` set (omap_insert (gen k) (region, c') m) \<subseteq> gen ` {..<k + 1}"
        using Cons.prems(2) by (auto simp: omap_insert_keys less_Suc_eq)
      show "omap_ok (omap_insert (gen k) (region, c') m)" using Cons.prems(3) by (rule omap_insert_ok)
      show "k + 1 + length xs \<le> length contracts" using Cons.prems(4) by simp
    qed
    then show ?case by (auto simp: x c' repaired_def set_omap_insert_fresh [OF fresh])
  qed (simp add: repaired_def)
  from this [of contracts 0 "[]" False False] assms(2)
  show "snd ` set new = repaired mode dead replacement contracts" "omap_ok new"
    "rollback \<or> erase \<longleftrightarrow> (\<exists>(cid, region, c) \<in> set contracts.
      case repair_contract mode dead replacement c of (c', r, e) \<Rightarrow> r \<or> e)"
    by (simp_all add: repair_contracts_def)
qed

section \<open>The new configuration\<close>

lemma add_contract_replicas_facts:
  assumes "finite (c_replicas c)"
  shows "sh_all_replicas (add_contract_replicas c shard) = sh_all_replicas shard \<union> c_replicas c"
    and "voting_replicas shard \<union> (c_voters c \<inter> c_replicas c) \<subseteq> voting_replicas (add_contract_replicas c shard)"
proof -
  have "sh_all_replicas (fold (add_replica c) xs shard) = sh_all_replicas shard \<union> set xs \<and>
      voting_replicas shard \<union> (c_voters c \<inter> set xs) \<subseteq> voting_replicas (fold (add_replica c) xs shard)" for xs
  proof (induction xs arbitrary: shard)
    case (Cons x xs)
    have "sh_all_replicas (add_replica c x shard) = insert x (sh_all_replicas shard)"
      "voting_replicas shard \<union> (c_voters c \<inter> {x}) \<subseteq> voting_replicas (add_replica c x shard)"
      by (auto simp: add_replica_def voting_replicas_def)
    then show ?case using Cons [of "add_replica c x shard"] by auto
  qed simp
  from this [of "sorted_list_of_set (c_replicas c)"] assms
  show "sh_all_replicas (add_contract_replicas c shard) = sh_all_replicas shard \<union> c_replicas c"
    "voting_replicas shard \<union> (c_voters c \<inter> c_replicas c) \<subseteq> voting_replicas (add_contract_replicas c shard)"
    by (simp_all add: add_contract_replicas_def)
qed

text \<open>A map of the whole key space, all of whose shards satisfy a property.\<close>

definition shard_map_ok :: "(right_bound \<Rightarrow> shard_t \<Rightarrow> bool) \<Rightarrow> shard_map \<Rightarrow> bool" where
  "shard_map_ok P m \<longleftrightarrow>
     rm_ok m \<and> rm_left m = Bound store_key_min \<and> right_edge m = Unbounded \<and>
     (\<forall>e shard. rm_at m e = Some shard \<longrightarrow> P e shard)"

lemma shard_map_mutate:
  assumes m: "shard_map_ok P m" and lr: "Bound l \<le> r"
    and cb: "\<And>e shard. Bound l \<le> e \<Longrightarrow> e < r \<Longrightarrow> P e shard \<Longrightarrow> \<exists>shard'. cb shard = Some shard' \<and> Q e shard'"
    and rest: "\<And>e shard. \<not> (Bound l \<le> e \<and> e < r) \<Longrightarrow> P e shard \<Longrightarrow> Q e shard"
  shows "\<exists>m'. rm_visit_mutable (\<lambda>_ _ shard. cb shard) (Bound l) r m = Some m' \<and> shard_map_ok Q m'"
proof -
  have "rm_ok m" "rm_left m \<le> Bound l" "r \<le> right_edge m"
    using m store_key_min_le by (auto simp: shard_map_ok_def)
  then obtain m' where m': "rm_visit_mutable (\<lambda>_ _ shard. cb shard) (Bound l) r m = Some m'" "rm_ok m'"
    "rm_left m' = rm_left m" "right_edge m' = right_edge m"
    "\<And>e. rm_at m' e = (if Bound l \<le> e \<and> e < r then Option.bind (rm_at m e) cb else rm_at m e)"
    using rm_visit_mutable_uniform [of m "Bound l" r cb] lr m cb unfolding shard_map_ok_def by (metis option.distinct(1))
  have "Q e shard" if at: "rm_at m' e = Some shard" for e shard
  proof (cases "Bound l \<le> e \<and> e < r")
    case True
    then obtain old where old: "rm_at m e = Some old" "cb old = Some shard"
      using at m'(5) [of e] by (auto simp: bind_eq_Some_conv)
    then have "P e old" using m by (simp add: shard_map_ok_def)
    then show ?thesis using cb [of e old] True old(2) by auto
  next
    case False
    then show ?thesis using that m'(5) [of e] m rest unfolding shard_map_ok_def by auto
  qed
  then show ?thesis using m' m by (auto simp: shard_map_ok_def)
qed

text \<open>Contracts that give every key a voter, on ranges with their ends in order.\<close>

definition contracts_cover :: "contract_map \<Rightarrow> bool" where
  "contracts_cover contracts \<longleftrightarrow>
     (\<forall>(cid, region, c) \<in> set contracts. Bound (kr_left (hr_inner region)) \<le> kr_right (hr_inner region) \<and> contract_wf c) \<and>
     (\<forall>key. \<exists>(cid, region, c) \<in> set contracts. contains_key (hr_inner region) key)"

definition voters_at :: "contract_map \<Rightarrow> right_bound \<Rightarrow> server_id set" where
  "voters_at contracts e =
     (\<Union>(cid, region, c) \<in> {x \<in> set contracts. Bound (kr_left (hr_inner (fst (snd x)))) \<le> e \<and> e < kr_right (hr_inner (fst (snd x)))}. c_voters c)"

lemma voters_at_nonempty:
  assumes "contracts_cover contracts"
  shows "voters_at contracts (Bound key) \<noteq> {}"
proof -
  obtain cid region c where c: "(cid, region, c) \<in> set contracts" "contains_key (hr_inner region) key"
    using assms unfolding contracts_cover_def by blast
  then have "c_voters c \<noteq> {}" using assms contract_wfD(4) by (auto simp: contracts_cover_def)
  moreover have "c_voters c \<subseteq> voters_at contracts (Bound key)"
    using c by (force simp: voters_at_def contains_key_iff)
  ultimately show ?thesis by blast
qed

lemma config_replicas_ok:
  assumes "\<forall>(cid, region, c) \<in> set contracts. Bound (kr_left (hr_inner region)) \<le> kr_right (hr_inner region) \<and> contract_wf c"
    and "shard_map_ok (\<lambda>e shard. finite (sh_all_replicas shard) \<and> sh_all_replicas shard \<subseteq> R \<and> V e \<subseteq> voting_replicas shard) m"
  shows "\<exists>m'. config_replicas contracts m = Some m' \<and>
    shard_map_ok (\<lambda>e shard. finite (sh_all_replicas shard) \<and> sh_all_replicas shard \<subseteq> R \<union> all_replicas_of contracts \<and>
      V e \<union> voters_at contracts e \<subseteq> voting_replicas shard) m'"
  using assms
proof (induction contracts arbitrary: m R V)
  case Nil
  then show ?case by (simp add: config_replicas_def all_replicas_of_def voters_at_def)
next
  case (Cons x contracts)
  obtain cid region c where x: "x = (cid, region, c)" by (cases x)
  let ?l = "kr_left (hr_inner region)" and ?r = "kr_right (hr_inner region)"
  let ?V = "\<lambda>e. V e \<union> (if Bound ?l \<le> e \<and> e < ?r then c_voters c else {})"
  have lr: "Bound ?l \<le> ?r" and wf: "contract_wf c" using Cons.prems(1) x by auto
  note w = contract_wfD [OF wf]
  note facts = add_contract_replicas_facts [OF w(1)]
  have "\<exists>m1. rm_visit_mutable (\<lambda>_ _ shard. Some (add_contract_replicas c shard)) (Bound ?l) ?r m = Some m1 \<and>
    shard_map_ok (\<lambda>e shard. finite (sh_all_replicas shard) \<and> sh_all_replicas shard \<subseteq> R \<union> c_replicas c \<and>
      ?V e \<subseteq> voting_replicas shard) m1"
  proof (rule shard_map_mutate [OF Cons.prems(2) lr])
    fix e shard
    assume e: "Bound ?l \<le> e" "e < ?r"
      and shard: "finite (sh_all_replicas shard) \<and> sh_all_replicas shard \<subseteq> R \<and> V e \<subseteq> voting_replicas shard"
    have "?V e \<subseteq> voting_replicas (add_contract_replicas c shard)" using e shard w(2) facts(2) [of shard] by auto
    then show "\<exists>shard'. Some (add_contract_replicas c shard) = Some shard' \<and> finite (sh_all_replicas shard') \<and>
        sh_all_replicas shard' \<subseteq> R \<union> c_replicas c \<and> ?V e \<subseteq> voting_replicas shard'"
      using shard w(1) facts(1) [of shard] by auto
  qed auto
  then obtain m1 where m1: "rm_visit_mutable (\<lambda>_ _ shard. Some (add_contract_replicas c shard)) (Bound ?l) ?r m = Some m1"
    "shard_map_ok (\<lambda>e shard. finite (sh_all_replicas shard) \<and> sh_all_replicas shard \<subseteq> R \<union> c_replicas c \<and>
      ?V e \<subseteq> voting_replicas shard) m1"
    by blast
  have rest: "\<forall>(cid, region, c) \<in> set contracts. Bound (kr_left (hr_inner region)) \<le> kr_right (hr_inner region) \<and> contract_wf c"
    using Cons.prems(1) by simp
  obtain m2 where m2: "config_replicas contracts m1 = Some m2"
    "shard_map_ok (\<lambda>e shard. finite (sh_all_replicas shard) \<and> sh_all_replicas shard \<subseteq> (R \<union> c_replicas c) \<union> all_replicas_of contracts \<and>
      ?V e \<union> voters_at contracts e \<subseteq> voting_replicas shard) m2"
    using Cons.IH [OF rest m1(2)] by blast
  have "voters_at (x # contracts) e = (if Bound ?l \<le> e \<and> e < ?r then c_voters c else {}) \<union> voters_at contracts e" for e
    by (auto simp: voters_at_def x)
  moreover have "all_replicas_of (x # contracts) = c_replicas c \<union> all_replicas_of contracts"
    by (auto simp: all_replicas_of_def x)
  moreover have "config_replicas (x # contracts) m = Some m2"
    using m1(1) m2(1) by (simp add: config_replicas_def x)
  ultimately show ?case using m2(2) by (simp add: Un_assoc)
qed

lemma config_primaries_ok:
  assumes scheme: "split_points_ok (cs_shard_scheme cs)" "length (tc_shards (cs_config cs)) = num_shards (cs_shard_scheme cs)"
    and m: "shard_map_ok (\<lambda>e shard. finite (sh_all_replicas shard) \<and> sh_all_replicas shard \<subseteq> R \<and> voting_replicas shard \<noteq> {}) m"
  shows "\<exists>m'. config_primaries cs m = Some m' \<and>
    shard_map_ok (\<lambda>e shard. finite (sh_all_replicas shard) \<and> sh_all_replicas shard \<subseteq> R \<and>
      sh_primary_replica shard \<in> voting_replicas shard) m'"
proof -
  let ?ps = "cs_shard_scheme cs" and ?shards = "tc_shards (cs_config cs)"
  let ?P = "\<lambda>shard. finite (sh_all_replicas shard) \<and> sh_all_replicas shard \<subseteq> R \<and> voting_replicas shard \<noteq> {}"
  let ?Q = "\<lambda>n e shard. ?P shard \<and> (\<forall>key. e = Bound key \<and> find_shard_for_key ?ps key < n \<longrightarrow>
      sh_primary_replica shard \<in> voting_replicas shard)"
  let ?f = "\<lambda>i m. do { range \<leftarrow> get_shard_range ?ps i;
      rm_visit_mutable (\<lambda>_ _ shard. assign_primary (sh_primary_replica (?shards ! i)) shard)
        (Bound (kr_left range)) (kr_right range) m }"
  have "\<exists>m'. fold_opt ?f [0..<n] m = Some m' \<and> shard_map_ok (?Q n) m'" if "n \<le> num_shards ?ps" for n
    using that
  proof (induction n)
    case 0
    then show ?case using m by (simp add: shard_map_ok_def)
  next
    case (Suc n)
    then obtain m1 where m1: "fold_opt ?f [0..<n] m = Some m1" "shard_map_ok (?Q n) m1" by auto
    have n: "n < num_shards ?ps" using Suc.prems by simp
    obtain l r where range: "get_shard_range ?ps n = Some \<lparr>kr_left = l, kr_right = r\<rparr>" and lr: "Bound l \<le> r"
      using shard_range_ordered [OF scheme(1) n] by blast
    have inside: "Bound l \<le> Bound key \<and> Bound key < r \<longleftrightarrow> find_shard_for_key ?ps key = n" for key
      using find_shard_iff [OF scheme(1) n, of key] range by (simp add: contains_key_iff)
    have "\<exists>m'. rm_visit_mutable (\<lambda>_ _ shard. assign_primary (sh_primary_replica (?shards ! n)) shard) (Bound l) r m1 = Some m' \<and>
        shard_map_ok (?Q (Suc n)) m'"
    proof (rule shard_map_mutate [OF m1(2) lr])
      fix e shard
      assume shard: "?Q n e shard"
      have "finite (voting_replicas shard)" using shard by (simp add: finite_subset [OF voting_subset])
      then have "Min (voting_replicas shard) \<in> voting_replicas shard" using shard by simp
      then obtain p where p: "p \<in> voting_replicas shard"
        "assign_primary (sh_primary_replica (?shards ! n)) shard = Some (shard\<lparr>sh_primary_replica := p\<rparr>)"
        using shard by (cases "sh_primary_replica (?shards ! n) \<in> voting_replicas shard") (simp_all add: assign_primary_def)
      have "voting_replicas (shard\<lparr>sh_primary_replica := p\<rparr>) = voting_replicas shard" by (simp add: voting_replicas_def)
      then have "?Q (Suc n) e (shard\<lparr>sh_primary_replica := p\<rparr>)" using shard p(1) by simp
      then show "\<exists>shard'. assign_primary (sh_primary_replica (?shards ! n)) shard = Some shard' \<and> ?Q (Suc n) e shard'"
        using p(2) by blast
    next
      fix e shard
      assume e: "\<not> (Bound l \<le> e \<and> e < r)" and "?Q n e shard"
      moreover have "find_shard_for_key ?ps key \<noteq> n" if "e = Bound key" for key using inside [of key] e that by blast
      ultimately show "?Q (Suc n) e shard" by (auto simp: less_Suc_eq)
    qed
    then show ?case using m1(1) range by (auto simp: fold_opt_append)
  qed
  from this [of "num_shards ?ps"] obtain m' where m': "config_primaries cs m = Some m'" "shard_map_ok (?Q (num_shards ?ps)) m'"
    by (auto simp: config_primaries_def scheme(2))
  have "sh_primary_replica shard \<in> voting_replicas shard" if "rm_at m' e = Some shard" for e shard
  proof -
    have "e < Unbounded" using m'(2) rm_at_dom [of m' e] that by (auto simp: shard_map_ok_def)
    then obtain key where "e = Bound key" by (cases e) auto
    then show ?thesis using m'(2) that find_shard_bound [OF scheme(1)] unfolding shard_map_ok_def by blast
  qed
  then show ?thesis using m' unfolding shard_map_ok_def by blast
qed

text \<open>Cutting the whole key space gives one split point fewer than shards.\<close>

lemma num_split_points:
  assumes "tiles l Unbounded pieces" and "l \<noteq> Unbounded"
  shows "num_shards (split_points_of pieces) = length pieces"
  using assms
proof (induction l "Unbounded" pieces rule: tiles.induct)
  case (2 l a b v pieces)
  show ?case
  proof (cases b)
    case Unbounded
    then have "pieces = []" using "2.prems" by (cases pieces) auto
    then show ?thesis using Unbounded by (simp add: split_points_of_def num_shards_def)
  next
    case (Bound k)
    then show ?thesis using 2 by (simp add: split_points_of_def num_shards_def)
  qed
qed simp

lemma add_names_ok:
  assumes "set servers \<subseteq> fst ` set old_names"
  shows "\<exists>names'. add_names old_names servers names = Some names'"
proof -
  have "\<exists>t. fold_opt (\<lambda>server names. do { name \<leftarrow> map_of old_names server; Some (omap_insert server name names) }) servers names = Some t \<and> True"
  proof (rule fold_opt_total)
    fix server and names :: server_name_map
    assume "server \<in> set servers"
    then obtain name where "map_of old_names server = Some name"
      using assms omap_keys_iff [of old_names server] by (meson not_None_eq subsetD)
    then show "\<exists>s'. Option.bind (map_of old_names server) (\<lambda>name. Some (omap_insert server name names)) = Some s' \<and> True" by simp
  qed simp
  then show ?thesis by (simp add: add_names_def)
qed

lemma repair_config_ok:
  assumes cover: "contracts_cover contracts" and named: "all_replicas_of contracts \<subseteq> fst ` set (rs_server_names old_state)"
    and scheme: "split_points_ok (cs_shard_scheme (rs_config old_state))"
      "length (tc_shards (cs_config (rs_config old_state))) = num_shards (cs_shard_scheme (rs_config old_state))"
  obtains config where "repair_config p0 old_state contracts = Some config"
    "length (tc_shards (cs_config config)) = num_shards (cs_shard_scheme config)"
    "list_all config_wf (tc_shards (cs_config config))"
proof -
  let ?m0 = "range_map_of (Bound store_key_min) Unbounded (empty_shard p0)"
  have "shard_map_ok (\<lambda>e shard. finite (sh_all_replicas shard) \<and> sh_all_replicas shard \<subseteq> {} \<and> {} \<subseteq> voting_replicas shard) ?m0"
    by (auto simp: shard_map_ok_def rm_ok_of rm_at_of empty_shard_def split: if_splits)
  from config_replicas_ok [OF _ this, of contracts] cover obtain m1 where m1: "config_replicas contracts ?m0 = Some m1"
    "shard_map_ok (\<lambda>e shard. finite (sh_all_replicas shard) \<and> sh_all_replicas shard \<subseteq> all_replicas_of contracts \<and>
      voters_at contracts e \<subseteq> voting_replicas shard) m1"
    by (auto simp: contracts_cover_def)
  have "voting_replicas shard \<noteq> {}" if at: "rm_at m1 e = Some shard" for e shard
  proof -
    have "e < Unbounded" using m1(2) rm_at_dom [of m1 e] at by (auto simp: shard_map_ok_def)
    then obtain key where "e = Bound key" by (cases e) auto
    then have "voters_at contracts e \<noteq> {}" using voters_at_nonempty [OF cover] by blast
    then show ?thesis using m1(2) at unfolding shard_map_ok_def by blast
  qed
  then have "shard_map_ok (\<lambda>e shard. finite (sh_all_replicas shard) \<and> sh_all_replicas shard \<subseteq> all_replicas_of contracts \<and>
      voting_replicas shard \<noteq> {}) m1"
    using m1(2) unfolding shard_map_ok_def by blast
  then obtain m2 where m2: "config_primaries (rs_config old_state) m1 = Some m2"
    "shard_map_ok (\<lambda>e shard. finite (sh_all_replicas shard) \<and> sh_all_replicas shard \<subseteq> all_replicas_of contracts \<and>
      sh_primary_replica shard \<in> voting_replicas shard) m2"
    using config_primaries_ok [OF scheme] by blast
  obtain pieces where pieces: "rm_visit m2 (Bound store_key_min) Unbounded = Some pieces"
    "tiles (Bound store_key_min) Unbounded pieces"
    "\<forall>(a, b, v) \<in> set pieces. \<forall>e. a \<le> e \<and> e < b \<longrightarrow> rm_at m2 e = Some v"
    using rm_visit_tiles [of m2 "Bound store_key_min" Unbounded] m2(2) by (auto simp: shard_map_ok_def)
  have good: "finite (sh_all_replicas shard) \<and> sh_all_replicas shard \<subseteq> all_replicas_of contracts \<and>
      sh_primary_replica shard \<in> voting_replicas shard" if piece: "(a, b, shard) \<in> set pieces" for a b shard
  proof -
    have "rm_at m2 a = Some shard" using pieces(3) piece tiles_bounds [OF pieces(2) piece] by auto
    then show ?thesis using m2(2) by (simp add: shard_map_ok_def)
  qed
  let ?shards = "map (\<lambda>(_, _, shard). shard) pieces"
  have "\<exists>names. fold_opt (\<lambda>shard. add_names (rs_server_names old_state) (sorted_list_of_set (sh_all_replicas shard))) ?shards [] = Some names \<and> True"
  proof (rule fold_opt_total)
    fix shard names assume "shard \<in> set ?shards"
    then obtain a b where "(a, b, shard) \<in> set pieces" by auto
    from good [OF this] named
    show "\<exists>s'. add_names (rs_server_names old_state) (sorted_list_of_set (sh_all_replicas shard)) names = Some s' \<and> True"
      using add_names_ok [of "sorted_list_of_set (sh_all_replicas shard)" "rs_server_names old_state" names] by auto
  qed simp
  then obtain names where names:
    "fold_opt (\<lambda>shard. add_names (rs_server_names old_state) (sorted_list_of_set (sh_all_replicas shard))) ?shards [] = Some names"
    by blast
  have num: "length ?shards = num_shards (split_points_of pieces)" using num_split_points [OF pieces(2)] by simp
  have "config_wf shard" if "(a, b, shard) \<in> set pieces" for a b shard
    using good [OF that] by (auto simp: config_wf_def)
  then have wf: "list_all config_wf ?shards" by (auto simp: list_all_iff)
  obtain config where config: "repair_config p0 old_state contracts = Some config" "tc_shards (cs_config config) = ?shards"
    "cs_shard_scheme config = split_points_of pieces"
    using m1(1) m2(1) pieces(1) names num by (simp add: repair_config_def Let_def)
  show thesis by (rule that [OF config(1)]) (use config(2,3) num wf in simp_all)
qed

lemma repair_config_copies:
  "repair_config p0 state contracts = Some config \<Longrightarrow>
    tc_write_hook (cs_config config) = None \<and>
    tc_basic (cs_config config) = tc_basic (cs_config (rs_config state)) \<and>
    tc_sindexes (cs_config config) = tc_sindexes (cs_config (rs_config state)) \<and>
    tc_write_ack_config (cs_config config) = tc_write_ack_config (cs_config (rs_config state)) \<and>
    tc_durability (cs_config config) = tc_durability (cs_config (rs_config state))"
  by (auto simp: repair_config_def Let_def bind_eq_Some_conv split: if_splits)

section \<open>Members and names\<close>

lemma repair_member_servers:
  assumes "set servers \<subseteq> fst ` set old_names" and "omap_ok members" "omap_ok names" and "fst ` set members = fst ` set names"
  shows "\<exists>n' members' names'. fold_opt (repair_member gen old_names) servers (n, members, names) = Some (n', members', names') \<and>
    omap_ok members' \<and> omap_ok names' \<and> fst ` set members' = fst ` set names' \<and> fst ` set names' = fst ` set names \<union> set servers"
  using assms
proof (induction servers arbitrary: n members names)
  case (Cons server servers)
  then obtain name where name: "map_of old_names server = Some name"
    using omap_keys_iff [of old_names server] by fastforce
  show ?case
  proof (cases "map_of members server")
    case None
    let ?members = "omap_insert server (gen n) members" and ?names = "omap_insert server name names"
    have "\<exists>n' members' names'. fold_opt (repair_member gen old_names) servers (n + 1, ?members, ?names) = Some (n', members', names') \<and>
      omap_ok members' \<and> omap_ok names' \<and> fst ` set members' = fst ` set names' \<and> fst ` set names' = fst ` set ?names \<union> set servers"
      using Cons.prems by (intro Cons.IH) (auto simp: omap_insert_ok omap_insert_keys)
    then show ?thesis using None name by (simp add: repair_member_def [of gen old_names server] omap_insert_keys)
  next
    case (Some m)
    then have "server \<in> fst ` set names" using Cons.prems(4) omap_keys_iff [of members server] by simp
    then have "insert server (fst ` set names \<union> set servers) = fst ` set names \<union> set servers" by auto
    then show ?thesis using Some Cons.IH [of members names n] Cons.prems by (simp add: repair_member_def [of gen old_names server])
  qed
qed simp

lemma repair_members_ok:
  assumes "all_replicas_of contracts \<subseteq> fst ` set old_names" and "\<forall>(cid, region, c) \<in> set contracts. finite (c_replicas c)"
  obtains members names where "repair_members gen old_names contracts n = Some (members, names)"
    "fst ` set members = all_replicas_of contracts" "fst ` set names = all_replicas_of contracts" "omap_ok names"
proof -
  have "\<exists>n' members' names'.
      fold_opt (\<lambda>(cid, region, c). fold_opt (repair_member gen old_names) (sorted_list_of_set (c_replicas c)))
        contracts (n, members, names) = Some (n', members', names') \<and>
      omap_ok members' \<and> omap_ok names' \<and> fst ` set members' = fst ` set names' \<and>
      fst ` set names' = fst ` set names \<union> all_replicas_of contracts"
    if "omap_ok members" "omap_ok names" "fst ` set members = fst ` set names" for n members names
    using assms that
  proof (induction contracts arbitrary: n members names)
    case (Cons x contracts)
    obtain cid region c where x: "x = (cid, region, c)" by (cases x)
    have all: "all_replicas_of (x # contracts) = c_replicas c \<union> all_replicas_of contracts"
      by (auto simp: all_replicas_of_def x)
    have fin: "finite (c_replicas c)" using Cons.prems(2) x by auto
    obtain n1 members1 names1 where one:
      "fold_opt (repair_member gen old_names) (sorted_list_of_set (c_replicas c)) (n, members, names) = Some (n1, members1, names1)"
      "omap_ok members1" "omap_ok names1" "fst ` set members1 = fst ` set names1" "fst ` set names1 = fst ` set names \<union> c_replicas c"
      using repair_member_servers [of "sorted_list_of_set (c_replicas c)" old_names members names gen n] Cons.prems fin all by auto
    have "all_replicas_of contracts \<subseteq> fst ` set old_names" "\<forall>(cid, region, c) \<in> set contracts. finite (c_replicas c)"
      using Cons.prems(1,2) all by auto
    from Cons.IH [OF this one(2-4), of n1] one(1,5) show ?case by (simp add: x all [unfolded x] Un_assoc)
  qed (simp add: all_replicas_of_def)
  from this [of "[]" "[]" n] obtain n' members names where
    "fold_opt (\<lambda>(cid, region, c). fold_opt (repair_member gen old_names) (sorted_list_of_set (c_replicas c)))
      contracts (n, [], []) = Some (n', members, names)"
    "fst ` set members = all_replicas_of contracts" "fst ` set names = all_replicas_of contracts" "omap_ok names"
    by auto
  then show thesis by (intro that [of members names]) (simp_all add: repair_members_def)
qed

text \<open>Conversely, a repair that succeeds has found a name for every server of the new contracts.\<close>

lemma repair_member_named:
  assumes "fold_opt (repair_member gen old_names) servers (n, members, names) = Some (n', members', names')"
    and "fst ` set members \<subseteq> fst ` set old_names"
  shows "set servers \<subseteq> fst ` set old_names \<and> fst ` set members' \<subseteq> fst ` set old_names"
  using assms
proof (induction servers arbitrary: n members names)
  case (Cons server servers)
  obtain n1 members1 names1 where step: "repair_member gen old_names server (n, members, names) = Some (n1, members1, names1)"
    "fold_opt (repair_member gen old_names) servers (n1, members1, names1) = Some (n', members', names')"
    using Cons.prems(1) by (auto simp: bind_eq_Some_conv)
  have "server \<in> fst ` set old_names \<and> fst ` set members1 \<subseteq> fst ` set old_names"
  proof (cases "map_of members server")
    case None
    then obtain name where "map_of old_names server = Some name" "members1 = omap_insert server (gen n) members"
      using step(1) by (auto simp: repair_member_def bind_eq_Some_conv)
    then show ?thesis using Cons.prems(2) omap_keys_iff [of old_names server] by (auto simp: omap_insert_keys)
  next
    case (Some m)
    then have "server \<in> fst ` set members" "members1 = members"
      using step(1) omap_keys_iff [of members server] by (auto simp: repair_member_def)
    then show ?thesis using Cons.prems(2) by auto
  qed
  then show ?case using Cons.IH [OF step(2)] by simp
qed simp

lemma repair_members_named:
  assumes "repair_members gen old_names contracts n = Some result" and "(cid, region, c) \<in> set contracts" and "finite (c_replicas c)"
  shows "c_replicas c \<subseteq> fst ` set old_names"
proof -
  let ?f = "\<lambda>(cid, region, c). fold_opt (repair_member gen old_names) (sorted_list_of_set (c_replicas c))"
  have "\<forall>(cid, region, c) \<in> set xs. finite (c_replicas c) \<longrightarrow> c_replicas c \<subseteq> fst ` set old_names"
    if "fold_opt ?f xs st = Some st'" "fst ` set (fst (snd st)) \<subseteq> fst ` set old_names" for xs st st'
    using that
  proof (induction xs arbitrary: st)
    case (Cons x xs)
    obtain cid region c where x: "x = (cid, region, c)" by (cases x)
    obtain n members names where st: "st = (n, members, names)" by (cases st)
    obtain n1 members1 names1 where step:
      "fold_opt (repair_member gen old_names) (sorted_list_of_set (c_replicas c)) (n, members, names) = Some (n1, members1, names1)"
      "fold_opt ?f xs (n1, members1, names1) = Some st'"
      using Cons.prems(1) by (auto simp: x st bind_eq_Some_conv)
    have "set (sorted_list_of_set (c_replicas c)) \<subseteq> fst ` set old_names \<and> fst ` set members1 \<subseteq> fst ` set old_names"
      by (rule repair_member_named [OF step(1)]) (use Cons.prems(2) st in simp)
    then show ?case using Cons.IH [OF step(2)] x by auto
  qed simp
  moreover obtain st' where "fold_opt ?f contracts (n, [], []) = Some st'" using assms(1) by (auto simp: repair_members_def)
  ultimately show ?thesis using assms(2,3) by fastforce
qed

section \<open>Properties\<close>

text \<open>The states a repair starts from, and the server it may have to fall back on.\<close>

definition repairable :: "('s, 'h) table_raft_state \<Rightarrow> server_id set \<Rightarrow> bool" where
  "repairable state dead \<longleftrightarrow>
     contracts_cover (rs_contracts state) \<and> state_sanity_check state \<and>
     split_points_ok (cs_shard_scheme (rs_config state)) \<and>
     length (tc_shards (cs_config (rs_config state))) = num_shards (cs_shard_scheme (rs_config state)) \<and>
     \<not> is_nil (sid_uuid (erase_replacement dead (rs_member_ids state)))"

definition replacement_named :: "('s, 'h) table_raft_state \<Rightarrow> server_id set \<Rightarrow> bool" where
  "replacement_named state dead \<longleftrightarrow>
     map_of (rs_server_names state) (erase_replacement dead (rs_member_ids state)) \<noteq> None \<or>
     (\<forall>(cid, region, c) \<in> set (rs_contracts state). \<not> all_dead (c_replicas c) dead)"

lemma erase_replacement_alive: "\<not> is_nil (sid_uuid (erase_replacement dead members)) \<Longrightarrow> erase_replacement dead members \<notin> dead"
proof -
  assume nil: "\<not> is_nil (sid_uuid (erase_replacement dead members))"
  then have "filter (\<lambda>(server, _). server \<notin> dead) members \<noteq> []"
    by (auto simp: erase_replacement_def from_server_uuid_def is_nil_def)
  then obtain server m rest where "filter (\<lambda>(server, _). server \<notin> dead) members = (server, m) # rest"
    by (metis neq_Nil_conv surj_pair)
  then have "erase_replacement dead members = server" "(server, m) \<in> set (filter (\<lambda>(server, _). server \<notin> dead) members)"
    by (simp_all add: erase_replacement_def)
  then show ?thesis by simp
qed

lemma repaired_cover:
  assumes "contracts_cover contracts" and "replacement \<notin> dead" and "snd ` set new = repaired mode dead replacement contracts"
  shows "contracts_cover new"
    and "all_replicas_of new \<subseteq> all_replicas_of contracts \<union>
      (if \<exists>(cid, region, c) \<in> set contracts. all_dead (c_replicas c) dead then {replacement} else {})"
proof -
  have from_old: "\<exists>cid' c'. (cid', region, c') \<in> set contracts \<and> c = fst (repair_contract mode dead replacement c')"
    if "(cid, region, c) \<in> set new" for cid region c
  proof -
    have "(region, c) \<in> repaired mode dead replacement contracts" using that assms(3) by force
    then show ?thesis by (auto simp: repaired_def)
  qed
  have to_new: "\<exists>cid' c'. (cid', region, c') \<in> set new" if "(cid, region, c) \<in> set contracts" for cid region c
  proof -
    have "(region, fst (repair_contract mode dead replacement c)) \<in> snd ` set new"
      using that assms(3) by (force simp: repaired_def)
    then obtain cid' where "(cid', region, fst (repair_contract mode dead replacement c)) \<in> set new" by auto
    then show ?thesis by blast
  qed
  note old = assms(1) [unfolded contracts_cover_def]
  show "contracts_cover new"
    unfolding contracts_cover_def
  proof (intro conjI ballI allI)
    fix x assume new: "x \<in> set new"
    obtain cid region c where x: "x = (cid, region, c)" by (cases x)
    obtain cid' c' where c': "(cid', region, c') \<in> set contracts" "c = fst (repair_contract mode dead replacement c')"
      using from_old new x by blast
    obtain a r e where a: "repair_contract mode dead replacement c' = (a, r, e)" by (cases "repair_contract mode dead replacement c'")
    have "Bound (kr_left (hr_inner region)) \<le> kr_right (hr_inner region)" "contract_wf c'" using old c'(1) by auto
    then show "case x of (cid, region, c) \<Rightarrow> Bound (kr_left (hr_inner region)) \<le> kr_right (hr_inner region) \<and> contract_wf c"
      using repair_contract_ok(1) [OF _ assms(2) a] c'(2) a x by simp
  next
    fix key
    obtain cid region c where "(cid, region, c) \<in> set contracts" "contains_key (hr_inner region) key" using old by blast
    then show "\<exists>(cid, region, c) \<in> set new. contains_key (hr_inner region) key" using to_new by blast
  qed
  show "all_replicas_of new \<subseteq> all_replicas_of contracts \<union>
      (if \<exists>(cid, region, c) \<in> set contracts. all_dead (c_replicas c) dead then {replacement} else {})"
  proof
    fix server assume "server \<in> all_replicas_of new"
    then obtain cid region c where c: "(cid, region, c) \<in> set new" "server \<in> c_replicas c" by (auto simp: all_replicas_of_def)
    obtain cid' c' where c': "(cid', region, c') \<in> set contracts" "c = fst (repair_contract mode dead replacement c')"
      using from_old [OF c(1)] by blast
    obtain a r e where a: "repair_contract mode dead replacement c' = (a, r, e)" by (cases "repair_contract mode dead replacement c'")
    have "contract_wf c'" using old c'(1) by auto
    then have "server \<in> c_replicas c' \<or> all_dead (c_replicas c') dead \<and> server = replacement"
      using repair_contract_ok(5) [OF _ assms(2) a] c(2) c'(2) a by (auto split: if_splits)
    then show "server \<in> all_replicas_of contracts \<union>
      (if \<exists>(cid, region, c) \<in> set contracts. all_dead (c_replicas c) dead then {replacement} else {})"
      using c'(1) by (auto simp: all_replicas_of_def)
  qed
qed

text \<open>
  Property C9. Emergency repair: from a sane state whose contracts give every key a voter, with a
  living member that has a name whenever a shard has to be erased, and with different identifiers
  for the new contracts, \<open>calculate_emergency_repair()\<close> ends without an abort. The new state passes the sanity check, its shards are well-formed and as
  many as its split points ask for, and repairing it again for the same dead servers would find
  nothing, except for shards without a living replica when erasing was not allowed. A contract that
  needed no repair is kept, and the flags report whether one did.
\<close>

theorem emergency_repair_restores_service:
  assumes "inj_on gen {..<length (rs_contracts state)}" and "repairable state dead" "replacement_named state dead" and "mode \<noteq> Debug_recommit"
  shows "\<exists>new rollback erase. calculate_emergency_repair gen p0 state dead mode = Some (new, rollback, erase) \<and>
    state_sanity_check new \<and>
    length (tc_shards (cs_config (rs_config new))) = num_shards (cs_shard_scheme (rs_config new)) \<and>
    list_all config_wf (tc_shards (cs_config (rs_config new))) \<and>
    (\<forall>(cid, region, c) \<in> set (rs_contracts new). contract_wf c \<and>
      (serviceable dead c \<or> mode = Unsafe_rollback \<and> all_dead (c_replicas c) dead)) \<and>
    (\<forall>(cid, region, c) \<in> set (rs_contracts state). serviceable dead c \<longrightarrow> (region, c) \<in> snd ` set (rs_contracts new)) \<and>
    (rollback \<or> erase \<longleftrightarrow> (\<exists>(cid, region, c) \<in> set (rs_contracts state). \<not> serviceable dead c))"
proof -
  let ?repl = "erase_replacement dead (rs_member_ids state)" and ?old = "rs_contracts state"
  note r = assms(2) [unfolded repairable_def]
  have alive: "?repl \<notin> dead" using r by (intro erase_replacement_alive) blast
  obtain n new rollback erase where rc: "repair_contracts gen mode dead ?repl ?old = (n, new, rollback, erase)"
    by (cases "repair_contracts gen mode dead ?repl ?old")
  note rep = repair_contracts_eq [OF assms(1) rc]
  have cover: "contracts_cover ?old" using r by blast
  note new = repaired_cover [OF cover alive rep(1)]
  have wf_old: "contract_wf c" if "(cid, region, c) \<in> set ?old" for cid region c
    using that cover by (auto simp: contracts_cover_def)
  have named_old: "all_replicas_of ?old \<subseteq> fst ` set (rs_server_names state)" using r by (simp add: state_sanity_iff)
  then have named: "all_replicas_of new \<subseteq> fst ` set (rs_server_names state)"
    using new(2) assms(3) omap_keys_iff [of "rs_server_names state" ?repl]
    by (auto simp: replacement_named_def split: if_splits)
  obtain config where config: "repair_config p0 state new = Some config"
    "length (tc_shards (cs_config config)) = num_shards (cs_shard_scheme config)"
    "list_all config_wf (tc_shards (cs_config config))"
    by (rule repair_config_ok [OF new(1) named]) (use r in blast)+
  have wf_new: "\<forall>(cid, region, c) \<in> set new. contract_wf c" using new(1) by (auto simp: contracts_cover_def)
  then have "\<forall>(cid, region, c) \<in> set new. finite (c_replicas c)" using contract_wfD(1) by blast
  then obtain members names where mn: "repair_members gen (rs_server_names state) new n = Some (members, names)"
    "fst ` set members = all_replicas_of new" "fst ` set names = all_replicas_of new" "omap_ok names"
    by (rule repair_members_ok [OF named])
  let ?new = "\<lparr>rs_config = config, rs_contracts = new, rs_current_branches = rs_current_branches state,
    rs_branch_history = rs_branch_history state, rs_member_ids = members, rs_server_names = names\<rparr>"
  have result: "calculate_emergency_repair gen p0 state dead mode = Some (?new, rollback, erase)"
    using assms(4) r rc config(1) mn(1) by (simp add: calculate_emergency_repair_def Let_def)
  have "\<forall>(cid, region, c) \<in> set new. contract_sanity_check c" using wf_new by (auto simp: contract_wf_def)
  then have sane: "state_sanity_check ?new" using mn(3) by (simp add: state_sanity_iff)
  have one: "\<exists>c'. (region, c') \<in> snd ` set new \<and> (serviceable dead c \<longrightarrow> c' = c)" if "(cid, region, c) \<in> set ?old" for cid region c
  proof -
    obtain c' r e where c': "repair_contract mode dead ?repl c = (c', r, e)" by (cases "repair_contract mode dead ?repl c")
    then have "(region, c') \<in> snd ` set new" using that rep(1) by (force simp: repaired_def)
    then show ?thesis using repair_contract_ok(3) [OF wf_old [OF that] alive c'] by blast
  qed
  have flags: "(case repair_contract mode dead ?repl c of (c', r, e) \<Rightarrow> r \<or> e) \<longleftrightarrow> \<not> serviceable dead c"
    if "(cid, region, c) \<in> set ?old" for cid region c
    using repair_contract_ok(4) [OF wf_old [OF that] alive] by (cases "repair_contract mode dead ?repl c") auto
  have good: "serviceable dead c \<or> mode = Unsafe_rollback \<and> all_dead (c_replicas c) dead" if "(cid, region, c) \<in> set new" for cid region c
  proof -
    have "(region, c) \<in> repaired mode dead ?repl ?old" using that rep(1) by force
    then obtain cid' c' where "(cid', region, c') \<in> set ?old" "c = fst (repair_contract mode dead ?repl c')" by (auto simp: repaired_def)
    then show ?thesis
      using repair_contract_ok(2) [OF wf_old alive] assms(4)
      by (cases "repair_contract mode dead ?repl c'"; cases mode) fastforce+
  qed
  have "rollback \<or> erase \<longleftrightarrow> (\<exists>(cid, region, c) \<in> set ?old. \<not> serviceable dead c)"
    unfolding rep(3)
  proof (intro bex_cong refl)
    fix x assume x: "x \<in> set ?old"
    obtain cid region c where eq: "x = (cid, region, c)" by (cases x)
    from flags x eq show "(case x of (cid, region, c) \<Rightarrow> case repair_contract mode dead ?repl c of (c', r, e) \<Rightarrow> r \<or> e) \<longleftrightarrow>
        (case x of (cid, region, c) \<Rightarrow> \<not> serviceable dead c)"
      by simp
  qed
  moreover have "\<forall>(cid, region, c) \<in> set new. contract_wf c \<and>
      (serviceable dead c \<or> mode = Unsafe_rollback \<and> all_dead (c_replicas c) dead)"
    using wf_new good by blast
  moreover have "\<forall>(cid, region, c) \<in> set ?old. serviceable dead c \<longrightarrow> (region, c) \<in> snd ` set new" using one by blast
  ultimately show ?thesis
    using result sane config(2,3)
    by (intro exI [of _ ?new] exI [of _ rollback] exI [of _ erase]) simp
qed

text \<open>A table of one shard on three servers, two of which are lost.\<close>

definition server :: "uuid_u \<Rightarrow> server_id" where
  "server u = from_server_uuid u"

definition lost_table :: "server_id set \<Rightarrow> 'h option \<Rightarrow> (unit, 'h) table_raft_state" where
  "lost_table servers hook =
     (let shard = \<lparr>sh_all_replicas = servers, sh_nonvoting_replicas = {}, sh_primary_replica = server 1\<rparr>;
          names = [(server 3, 0, ''c''), (server 2, 0, ''b''), (server 1, 0, ''a'')]
      in \<lparr>rs_config =
            \<lparr>cs_config = \<lparr>tc_basic = \<lparr>tb_name = ''t'', tb_database = 9, tb_primary_key = ''id''\<rparr>, tc_shards = [shard],
               tc_sindexes = [], tc_write_hook = hook, tc_write_ack_config = Ack_majority, tc_durability = Durability_hard\<rparr>,
             cs_shard_scheme = [], cs_server_names = names\<rparr>,
          rs_contracts = [(5, the hash_region_universe,
            \<lparr>c_replicas = servers, c_voters = servers, c_temp_voters = None, c_primary = None, c_after_emergency_repair = False\<rparr>)],
          rs_current_branches = region_map_of (the hash_region_universe) nil_uuid,
          rs_branch_history = [], rs_member_ids = [(server 3, 13), (server 2, 12), (server 1, 11)],
          rs_server_names = filter (\<lambda>(s, _). s \<in> servers) names\<rparr>)"

lemma lost_table_repairable:
  assumes "servers \<noteq> {}" "servers \<subseteq> {server 1, server 2, server 3}"
  shows "repairable (lost_table servers hook) {server 1, server 2}"
proof -
  have fin: "finite servers" using assms(2) by (rule finite_subset) simp
  have "contains_key \<lparr>kr_left = store_key_min, kr_right = Unbounded\<rparr> key" for key
    by (simp add: contains_key_iff store_key_min_le)
  then have "contracts_cover (rs_contracts (lost_table servers hook))"
    using assms fin
    by (auto simp: contracts_cover_def lost_table_def Let_def hash_region_universe_eq contract_wf_def contract_sanity_check_def)
  moreover have "state_sanity_check (lost_table servers hook)"
    using assms(2)
    by (auto simp: state_sanity_iff lost_table_def Let_def all_replicas_of_def contract_sanity_check_def)
  moreover have "\<not> is_nil (sid_uuid (erase_replacement {server 1, server 2} (rs_member_ids (lost_table servers hook))))"
    by (simp add: lost_table_def Let_def erase_replacement_def server_def from_server_uuid_def is_nil_def nil_uuid_def)
  ultimately show ?thesis
    by (simp add: repairable_def lost_table_def Let_def split_points_ok_def num_shards_def)
qed

theorem emergency_repair_restores_service_witness:
  "\<exists>new rollback erase. calculate_emergency_repair of_nat (server 0) (lost_table {server 1, server 2, server 3} (None :: unit option))
      {server 1, server 2} Unsafe_rollback = Some (new, rollback, erase) \<and> state_sanity_check new"
proof -
  let ?t = "lost_table {server 1, server 2, server 3} (None :: unit option)"
  have "inj_on (of_nat :: nat \<Rightarrow> uuid_u) {..<length (rs_contracts ?t)}" by (simp add: lost_table_def Let_def inj_on_def)
  moreover have "repairable ?t {server 1, server 2}" by (rule lost_table_repairable) simp_all
  moreover have "replacement_named ?t {server 1, server 2}"
    by (simp add: replacement_named_def lost_table_def Let_def all_dead_def server_def from_server_uuid_def)
  ultimately show ?thesis
    using emergency_repair_restores_service [of of_nat ?t "{server 1, server 2}" Unsafe_rollback "server 0"] by blast
qed



text \<open>
  Property C32. The replacement of an erased shard needs a name: when a shard without a living
  replica is to be erased and the first living member is named by no contract, so that the Raft
  state has no name for it, \<open>calculate_emergency_repair()\<close> aborts.
\<close>

theorem emergency_repair_aborts_without_name:
  assumes "inj_on gen {..<length (rs_contracts state)}"
    and "(cid, region, c) \<in> set (rs_contracts state)" and "all_dead (c_replicas c) dead"
    and "map_of (rs_server_names state) (erase_replacement dead (rs_member_ids state)) = None"
  shows "calculate_emergency_repair gen p0 state dead Unsafe_rollback_or_erase = None"
proof (rule ccontr)
  let ?repl = "erase_replacement dead (rs_member_ids state)"
  assume some: "calculate_emergency_repair gen p0 state dead Unsafe_rollback_or_erase \<noteq> None"
  obtain n new rollback erase where
    rc: "repair_contracts gen Unsafe_rollback_or_erase dead ?repl (rs_contracts state) = (n, new, rollback, erase)"
    by (cases "repair_contracts gen Unsafe_rollback_or_erase dead ?repl (rs_contracts state)")
  have "repair_members gen (rs_server_names state) new n \<noteq> None"
  proof
    assume "repair_members gen (rs_server_names state) new n = None"
    then show False
      using some rc by (cases "repair_config p0 state new") (simp_all add: calculate_emergency_repair_def Let_def split: if_splits)
  qed
  then obtain members where rm: "repair_members gen (rs_server_names state) new n = Some members" by blast
  have "(region, erase_contract ?repl) \<in> repaired Unsafe_rollback_or_erase dead ?repl (rs_contracts state)"
    using assms(2,3) by (force simp: repaired_def repair_contract_def)
  then obtain cid' where "(cid', region, erase_contract ?repl) \<in> set new"
    using repair_contracts_eq(1) [OF assms(1) rc] by force
  from repair_members_named [OF rm this] show False
    using assms(4) by (simp add: erase_contract_def omap_keys_iff [symmetric])
qed

theorem emergency_repair_aborts_without_name_witness:
  "calculate_emergency_repair of_nat (server 0) (lost_table {server 1, server 2} (None :: unit option)) {server 1, server 2}
     Unsafe_rollback_or_erase = None \<and> repairable (lost_table {server 1, server 2} (None :: unit option)) {server 1, server 2}"
proof
  let ?t = "lost_table {server 1, server 2} (None :: unit option)"
  show "calculate_emergency_repair of_nat (server 0) ?t {server 1, server 2} Unsafe_rollback_or_erase = None"
  proof (rule emergency_repair_aborts_without_name)
    show "inj_on (of_nat :: nat \<Rightarrow> uuid_u) {..<length (rs_contracts ?t)}" by (simp add: lost_table_def Let_def inj_on_def)
    show "(5, the hash_region_universe, \<lparr>c_replicas = {server 1, server 2}, c_voters = {server 1, server 2},
        c_temp_voters = None, c_primary = None, c_after_emergency_repair = False\<rparr>) \<in> set (rs_contracts ?t)"
      by (simp add: lost_table_def Let_def)
    show "map_of (rs_server_names ?t) (erase_replacement {server 1, server 2} (rs_member_ids ?t)) = None"
      by (simp add: lost_table_def Let_def erase_replacement_def server_def from_server_uuid_def)
  qed (simp add: all_dead_def)
  show "repairable ?t {server 1, server 2}" by (rule lost_table_repairable) simp_all
qed

end
