(* ===== verification/Raft_Storage.thy ===== *)
theory Raft_Storage
  imports Raft_Types "HOL-Library.List_Lexorder" "HOL-Library.Char_ord"
begin

text \<open>
  How a Raft member's persistent state is kept in the metadata file,
  \<open>clustering/administration/persist/raft_storage_interface.cc\<close>: a header, a snapshot and one
  record per log entry under the hexadecimal text of its index. The file is a B-tree: records are
  read back in the order of their keys.
\<close>

unbundle bit_operations_syntax

section \<open>Log indexes as keys\<close>

definition hex_digits :: string where
  "hex_digits = ''0123456789abcdef''"

definition log_index_to_str :: "raft_log_index \<Rightarrow> string" where
  "log_index_to_str log_index =
     map (\<lambda>i. hex_digits ! unat (drop_bit ((15 - i) * 4) log_index AND 0x0f)) [0..<16]"

text \<open>
  \<open>val\<close> is an \<open>int\<close>, so that \<open>val << n\<close> is defined for \<open>n < 32\<close> only: \<open>wide\<close> stands for what the
  compiled code does with a larger shift. The sum with the index extends the sign.
\<close>

definition hex_val :: "char \<Rightarrow> 32 word option" where
  "hex_val c =
     (if CHR ''0'' \<le> c \<and> c \<le> CHR ''9'' then Some (of_char c - of_char (CHR ''0''))
      else if CHR ''a'' \<le> c \<and> c \<le> CHR ''f'' then Some (10 + (of_char c - of_char (CHR ''a'')))
      else None)"

definition shift_int :: "(32 word \<Rightarrow> nat \<Rightarrow> 32 word) \<Rightarrow> 32 word \<Rightarrow> nat \<Rightarrow> 32 word" where
  "shift_int wide v n = (if n < 32 then push_bit n v else wide v n)"

definition str_to_log_index :: "(32 word \<Rightarrow> nat \<Rightarrow> 32 word) \<Rightarrow> string \<Rightarrow> raft_log_index option" where
  "str_to_log_index wide str =
     (if length str = 16 then
        fold_opt (\<lambda>i index. do {
            val \<leftarrow> hex_val (str ! i);
            Some (index + scast (shift_int wide val ((15 - i) * 4)))
          }) [0..<16] 0
      else None)"

text \<open>What is relied on of \<open>wide\<close>: zero digits do not contribute.\<close>

definition zero_shift :: "(32 word \<Rightarrow> nat \<Rightarrow> 32 word) \<Rightarrow> bool" where
  "zero_shift wide \<longleftrightarrow> (\<forall>n. wide 0 n = 0)"

text \<open>The digits of the text.\<close>

definition hex_digit :: "raft_log_index \<Rightarrow> nat \<Rightarrow> nat" where
  "hex_digit li i = unat li div 16 ^ (15 - i) mod 16"

lemma hex_digit_bits: "unat (drop_bit ((15 - i) * 4) li AND 0x0f) = hex_digit li i"
proof -
  have "drop_bit ((15 - i) * 4) li AND 0x0f = take_bit 4 (drop_bit ((15 - i) * 4) li)"
    by (simp add: take_bit_eq_mask mask_eq_exp_minus_1)
  also have "unat \<dots> = take_bit 4 (drop_bit ((15 - i) * 4) (unat li))"
    using unsigned_less [of li, where 'a = nat]
    by (simp add: unsigned_take_bit_eq unsigned_drop_bit_eq take_bit_nat_eq_self)
  also have "\<dots> = unat li div 2 ^ ((15 - i) * 4) mod 16"
    by (simp add: take_bit_eq_mod drop_bit_eq_div)
  also have "(2::nat) ^ ((15 - i) * 4) = 16 ^ (15 - i)"
    by (simp add: mult.commute [of _ 4] power_mult)
  finally show ?thesis by (simp add: hex_digit_def)
qed

lemma log_index_to_str_nth: "i < 16 \<Longrightarrow> log_index_to_str li ! i = hex_digits ! hex_digit li i"
  by (simp add: log_index_to_str_def hex_digit_bits)

lemma length_log_index_to_str [simp]: "length (log_index_to_str li) = 16"
  by (simp add: log_index_to_str_def)

lemma less_16_cases: "n < (16::nat) \<Longrightarrow> n \<in> {0, 1, 2, 3, 4, 5, 6, 7, 8, 9, 10, 11, 12, 13, 14, 15}"
  by (simp; presburger)

lemma hex_val_digit: "n < 16 \<Longrightarrow> hex_val (hex_digits ! n) = Some (of_nat n)"
  by (drule less_16_cases) (elim insertE emptyE; simp add: hex_digits_def hex_val_def less_eq_char_def)

lemma hex_digits_mono: "m < n \<Longrightarrow> n < 16 \<Longrightarrow> hex_digits ! m < hex_digits ! n"
proof -
  assume "m < n" "n < 16"
  have "sorted_wrt (<) hex_digits" by (simp add: hex_digits_def less_char_def)
  moreover have "length hex_digits = 16" by (simp add: hex_digits_def)
  ultimately show ?thesis using \<open>m < n\<close> \<open>n < 16\<close> by (simp add: sorted_wrt_iff_nth_less)
qed

text \<open>The texts are ordered as the indexes are, so that the file lists the entries in their order.\<close>

lemma div_mod_power: "(n::nat) div 16 ^ Suc k = n div 16 ^ k div 16"
  by (simp only: power_Suc2 div_mult2_eq)

lemma first_difference:
  assumes "(m::nat) < n"
  shows "m div 16 ^ k < n div 16 ^ k
    \<or> (m div 16 ^ k = n div 16 ^ k \<and> (\<exists>j < k. m div 16 ^ j mod 16 < n div 16 ^ j mod 16
        \<and> (\<forall>i < k. j < i \<longrightarrow> m div 16 ^ i mod 16 = n div 16 ^ i mod 16)))"
  using assms
proof (induction k)
  case 0
  then show ?case by simp
next
  case (Suc k)
  let ?m = "m div 16 ^ k" and ?n = "n div 16 ^ k"
  consider "?m < ?n" | "?m = ?n" using Suc by linarith
  then show ?case
  proof cases
    case 1
    show ?thesis
    proof (cases "?m div 16 = ?n div 16")
      case True
      then have "?m mod 16 < ?n mod 16" using 1 by (metis div_mult_mod_eq nat_add_left_cancel_less)
      then show ?thesis using True unfolding div_mod_power by auto
    next
      case False
      moreover have "?m div 16 \<le> ?n div 16" using 1 by (simp add: div_le_mono)
      ultimately show ?thesis unfolding div_mod_power by simp
    qed
  next
    case 2
    then obtain j where j: "j < k" "m div 16 ^ j mod 16 < n div 16 ^ j mod 16"
        "\<forall>i < k. j < i \<longrightarrow> m div 16 ^ i mod 16 = n div 16 ^ i mod 16"
      using Suc by auto
    have "\<forall>i < Suc k. j < i \<longrightarrow> m div 16 ^ i mod 16 = n div 16 ^ i mod 16"
      using j(3) 2 less_Suc_eq by force
    then show ?thesis using 2 j(1,2) unfolding div_mod_power by (metis less_SucI)
  qed
qed

lemma log_index_to_str_mono: "a < b \<Longrightarrow> log_index_to_str a < log_index_to_str b"
proof -
  assume ab: "a < b"
  have small: "unat a div 16 ^ 16 = 0" "unat b div 16 ^ 16 = 0"
    using unsigned_less [of a, where 'a = nat] unsigned_less [of b, where 'a = nat] by simp_all
  have "unat a < unat b" using ab by (simp add: word_less_nat_alt)
  from first_difference [OF this, of 16] small obtain j where
    j: "j < 16" "unat a div 16 ^ j mod 16 < unat b div 16 ^ j mod 16"
      "\<forall>i < 16. j < i \<longrightarrow> unat a div 16 ^ i mod 16 = unat b div 16 ^ i mod 16"
    by auto
  define i where "i = 15 - j"
  have i: "i < 16" "15 - i = j" using j(1) by (auto simp: i_def)
  have same: "hex_digit a l = hex_digit b l" if "l < i" for l
    using j(3) that i by (simp add: hex_digit_def)
  have less: "hex_digits ! hex_digit a i < hex_digits ! hex_digit b i"
    using j(2) i by (intro hex_digits_mono) (simp_all add: hex_digit_def)
  let ?a = "log_index_to_str a" and ?b = "log_index_to_str b"
  have "take i ?a = take i ?b" using i same by (intro nth_equalityI) (simp_all add: log_index_to_str_nth)
  moreover have "?a = take i ?a @ ?a ! i # drop (Suc i) ?a" "?b = take i ?b @ ?b ! i # drop (Suc i) ?b"
    using i by (simp_all add: id_take_nth_drop)
  moreover have "?a ! i < ?b ! i" using i less by (simp add: log_index_to_str_nth)
  moreover have "(x # xs, y # ys) \<in> lexord {(u, v). u < v}" if "x < y" for x y :: char and xs ys
    using that by simp
  ultimately show ?thesis
    unfolding list_less_def using lexord_append_leftI [of _ _ "{(u, v). u < v}" "take i ?a"] by metis
qed

lemma log_index_to_str_inj: "log_index_to_str a = log_index_to_str b \<longleftrightarrow> a = b"
  using log_index_to_str_mono by (metis less_irrefl linorder_neqE)

lemma fold_opt_sum:
  assumes "\<And>x s. x \<in> set xs \<Longrightarrow> f x s = Some (s + g x)"
  shows "fold_opt f xs (s::'a::comm_monoid_add) = Some (s + sum_list (map g xs))"
  using assms by (induction xs arbitrary: s) (simp_all add: add.assoc)

lemma str_to_log_index_sum:
  "str_to_log_index wide (log_index_to_str li) =
     Some (\<Sum>i\<leftarrow>[0..<16]. scast (shift_int wide (of_nat (hex_digit li i)) ((15 - i) * 4)))"
proof -
  have "hex_digit li i < 16" for i by (simp add: hex_digit_def)
  then have "hex_val (log_index_to_str li ! i) = Some (of_nat (hex_digit li i))" if "i < 16" for i
    using that by (simp add: log_index_to_str_nth hex_val_digit)
  then show ?thesis
    unfolding str_to_log_index_def
    by (subst fold_opt_sum [where g = "\<lambda>i. scast (shift_int wide (of_nat (hex_digit li i)) ((15 - i) * 4))"]) simp_all
qed

lemma scast_small:
  assumes "n * 2 ^ k < 2 ^ 31"
  shows "(scast (push_bit k (of_nat n :: 32 word)) :: u64) = of_nat (n * 2 ^ k)"
proof -
  have "push_bit k (of_nat n :: 32 word) = of_nat (n * 2 ^ k)"
    by (simp add: push_bit_eq_mult)
  moreover have "sint (of_nat (n * 2 ^ k) :: 32 word) = int (n * 2 ^ k)"
  proof -
    have "int (n * 2 ^ k) < 2 ^ 31" using assms by (simp flip: of_nat_less_iff [where 'a = int])
    then have "signed_take_bit 31 (int (n * 2 ^ k)) = int (n * 2 ^ k)"
      by (intro signed_take_bit_int_eq_self) (simp_all add: order.trans [of _ 0])
    then show ?thesis by (subst signed_of_nat) simp
  qed
  ultimately show ?thesis by (simp only: scast_eq) simp
qed

lemma sixteen_digits:
  assumes "n < (2::nat) ^ 31"
  shows "(n div 16 ^ 7 mod 16) * 2 ^ 28 + (n div 16 ^ 6 mod 16) * 2 ^ 24 + (n div 16 ^ 5 mod 16) * 2 ^ 20
    + (n div 16 ^ 4 mod 16) * 2 ^ 16 + (n div 16 ^ 3 mod 16) * 2 ^ 12 + (n div 16 ^ 2 mod 16) * 2 ^ 8
    + (n div 16 mod 16) * 2 ^ 4 + n mod 16 = n"
proof -
  define a where "a = rec_nat n (\<lambda>_ x. x div 16)"
  have a0: "a 0 = n" and aS: "a (Suc k) = a k div 16" for k by (simp_all add: a_def)
  have ak: "n div 16 ^ k = a k" for k
    by (induction k) (simp_all add: a0 aS div_mod_power del: power_Suc)
  have split: "a k = a (Suc k) * 16 + a k mod 16" for k by (simp add: aS)
  have top: "a 7 mod 16 = a 7" using assms by (simp add: less_mult_imp_div_less flip: ak)
  have s1: "a (Suc 0) = a 2 * 16 + a (Suc 0) mod 16" using split [of 1] by (simp add: numeral_2_eq_2)
  have low: "n div 16 = a 1" "n mod 16 = a 0 mod 16" using ak [of 1] by (simp_all add: a0)
  have "a 7 * 2 ^ 28 + (a 6 mod 16) * 2 ^ 24 + (a 5 mod 16) * 2 ^ 20 + (a 4 mod 16) * 2 ^ 16
      + (a 3 mod 16) * 2 ^ 12 + (a 2 mod 16) * 2 ^ 8 + (a 1 mod 16) * 2 ^ 4 + a 0 mod 16 = a 0"
    using split [of 0] s1 split [of 2] split [of 3] split [of 4] split [of 5] split [of 6] by simp
  then show ?thesis unfolding ak low top by (simp only: a0)
qed

lemma digit_le: "(n::nat) div b mod 16 * b \<le> n"
proof -
  have "n div b mod 16 * b \<le> n div b * b" by (simp add: mult_le_mono1)
  then show ?thesis using div_times_less_eq_dividend order_trans by blast
qed

lemma high_digits_vanish:
  assumes "zero_shift wide" and "unat li < 2 ^ 32" and "i < 8"
  shows "shift_int wide (of_nat (hex_digit li i)) ((15 - i) * 4) = 0"
proof -
  have "unat li < 16 ^ (15 - i)"
    using assms(3)
    by (intro less_le_trans [OF assms(2)]) (simp add: power_increasing [of 8 "15 - i" "16::nat", simplified])
  then have "hex_digit li i = 0" by (simp add: hex_digit_def)
  then show ?thesis using assms(1,3) by (simp add: shift_int_def zero_shift_def)
qed

lemma read_low_index:
  assumes "zero_shift wide" and "li < 0x80000000"
  shows "str_to_log_index wide (log_index_to_str li) = Some li"
proof -
  have n: "unat li < 2 ^ 31" using assms(2) by (simp add: word_less_nat_alt)
  define t where "t i = (scast (shift_int wide (of_nat (hex_digit li i)) ((15 - i) * 4)) :: u64)" for i
  have high: "t i = 0" if "i < 8" for i
    unfolding t_def using high_digits_vanish [of wide li i] that assms(1) n by simp
  have low: "t i = of_nat (hex_digit li i * 2 ^ ((15 - i) * 4))" if "8 \<le> i" for i
  proof -
    have "hex_digit li i * 16 ^ (15 - i) \<le> unat li" unfolding hex_digit_def by (rule digit_le)
    moreover have "(16::nat) ^ (15 - i) = 2 ^ ((15 - i) * 4)" by (simp add: mult.commute [of _ 4] power_mult)
    ultimately have small: "hex_digit li i * 2 ^ ((15 - i) * 4) < 2 ^ 31" using n by simp
    have "shift_int wide (of_nat (hex_digit li i)) ((15 - i) * 4) = push_bit ((15 - i) * 4) (of_nat (hex_digit li i))"
    proof -
      have "(15 - i) * 4 < 32" using that by linarith
      then show ?thesis by (simp only: shift_int_def if_True)
    qed
    then show ?thesis unfolding t_def using scast_small [OF small] by simp
  qed
  have upt: "[0..<16] = [0, 1, 2, 3, 4, 5, 6, 7, 8, 9, 10, 11, 12, 13, 14, 15::nat]" by (simp add: upt_rec)
  have "(\<Sum>i\<leftarrow>[0..<16]. t i) = t 8 + t 9 + t 10 + t 11 + t 12 + t 13 + t 14 + t 15"
    unfolding upt by (simp add: high add.assoc)
  also have "\<dots> = of_nat (hex_digit li 8 * 2 ^ 28 + hex_digit li 9 * 2 ^ 24 + hex_digit li 10 * 2 ^ 20
      + hex_digit li 11 * 2 ^ 16 + hex_digit li 12 * 2 ^ 12 + hex_digit li 13 * 2 ^ 8
      + hex_digit li 14 * 2 ^ 4 + hex_digit li 15)"
    using low [of 8] low [of 9] low [of 10] low [of 11] low [of 12] low [of 13] low [of 14] low [of 15]
    by simp
  also have "\<dots> = of_nat (unat li)"
    using sixteen_digits [OF n] by (simp add: hex_digit_def)
  finally show ?thesis unfolding str_to_log_index_sum by (simp flip: t_def)
qed

text \<open>
  Property C40. The key of a log entry can be read back below index \<open>2 ^ 31\<close>: there
  \<open>str_to_log_index\<close> inverts \<open>log_index_to_str\<close>, provided a zero shifted too far is zero. It does not
  above, since the digits are shifted as a 32-bit \<open>int\<close>: the key of \<open>2 ^ 31\<close> is read as
  \<open>2 ^ 64 - 2 ^ 31\<close>.
\<close>

theorem log_index_text_roundtrip:
  assumes "zero_shift wide"
  shows "(li < 0x80000000 \<longrightarrow> str_to_log_index wide (log_index_to_str li) = Some li)
    \<and> str_to_log_index wide (log_index_to_str 0x80000000) = Some 0xFFFFFFFF80000000"
proof (intro conjI impI)
  show "str_to_log_index wide (log_index_to_str li) = Some li" if "li < 0x80000000"
    using read_low_index [of wide li] assms that by blast
  have digit: "hex_digit 0x80000000 i = (if i = 8 then 8 else 0)" if "i < 16" for i
    using less_16_cases [OF that] by (elim insertE emptyE; simp add: hex_digit_def)
  have "(scast (push_bit 28 (8 :: 32 word)) :: u64) = 0xFFFFFFFF80000000" by code_simp
  then have "(scast (shift_int wide (of_nat (hex_digit 0x80000000 i)) ((15 - i) * 4)) :: u64)
      = (if i = 8 then 0xFFFFFFFF80000000 else 0)" if "i < 16" for i
    using that assms by (simp add: digit shift_int_def zero_shift_def)
  then have "(\<Sum>i\<leftarrow>[0..<16]. scast (shift_int wide (of_nat (hex_digit 0x80000000 i)) ((15 - i) * 4)))
      = (\<Sum>i\<leftarrow>[0..<16]. if i = 8 then 0xFFFFFFFF80000000 else (0::u64))"
    by (intro arg_cong [where f = sum_list] map_cong) simp_all
  then show "str_to_log_index wide (log_index_to_str 0x80000000) = Some 0xFFFFFFFF80000000"
    unfolding str_to_log_index_sum by (simp add: upt_rec)
qed

section \<open>The stored state\<close>

record stored_header =
  hd_current_term :: raft_term
  hd_voted_for :: raft_member_id
  hd_commit_index :: raft_log_index

record 's stored_snapshot =
  sn_state :: 's
  sn_config :: raft_complex_config
  sn_log_prev_index :: raft_log_index
  sn_log_prev_term :: raft_term

text \<open>The records of one table in the metadata file.\<close>

record ('s, 'c) raft_file =
  rf_header :: "stored_header option"
  rf_snapshot :: "'s stored_snapshot option"
  rf_log :: "(string, 'c raft_log_entry) omap"

definition empty_file :: "('s, 'c) raft_file" where
  "empty_file = \<lparr>rf_header = None, rf_snapshot = None, rf_log = []\<rparr>"

definition header_from_state :: "('s, 'c) raft_persistent_state \<Rightarrow> stored_header" where
  "header_from_state s = \<lparr>hd_current_term = ps_current_term s, hd_voted_for = ps_voted_for s,
     hd_commit_index = ps_commit_index s\<rparr>"

record ('s, 'c) raft_storage =
  rst_file :: "('s, 'c) raft_file"
  rst_state :: "('s, 'c) raft_persistent_state"

definition write_header :: "('s, 'c) raft_persistent_state \<Rightarrow> ('s, 'c) raft_file \<Rightarrow> ('s, 'c) raft_file" where
  "write_header s f = f\<lparr>rf_header := Some (header_from_state s)\<rparr>"

text \<open>The indexes a loop from \<open>a\<close> to \<open>b\<close> goes through; \<open>b\<close> is not the greatest word.\<close>

definition index_range :: "raft_log_index \<Rightarrow> raft_log_index \<Rightarrow> raft_log_index list" where
  "index_range a b = map of_nat [unat a..<Suc (unat b)]"

text \<open>The constructor that reads an existing state.\<close>

definition storage_read :: "(32 word \<Rightarrow> nat \<Rightarrow> 32 word) \<Rightarrow> ('s, 'c) raft_file
    \<Rightarrow> ('s, 'c) raft_persistent_state option" where
  "storage_read wide f =
     do {
       header \<leftarrow> rf_header f;
       snapshot \<leftarrow> rf_snapshot f;
       log \<leftarrow> fold_opt (\<lambda>(index_str, entry) log. do {
           index \<leftarrow> str_to_log_index wide index_str;
           (if index = get_latest_index log + 1 then Some (log_append entry log) else None)
         }) (rf_log f)
         \<lparr>lg_prev_index = sn_log_prev_index snapshot, lg_prev_term = sn_log_prev_term snapshot, lg_entries = []\<rparr>;
       Some \<lparr>ps_current_term = hd_current_term header, ps_voted_for = hd_voted_for header,
         ps_snapshot_state = sn_state snapshot, ps_snapshot_config = sn_config snapshot,
         ps_log = log, ps_commit_index = hd_commit_index header\<rparr>
     }"

text \<open>The constructor that writes a new state.\<close>

definition storage_create :: "('s, 'c) raft_file \<Rightarrow> ('s, 'c) raft_persistent_state \<Rightarrow> ('s, 'c) raft_storage option" where
  "storage_create f s =
     do {
       let snapshot = \<lparr>sn_state = ps_snapshot_state s, sn_config = ps_snapshot_config s,
         sn_log_prev_index = lg_prev_index (ps_log s), sn_log_prev_term = lg_prev_term (ps_log s)\<rparr>;
       log \<leftarrow> fold_opt (\<lambda>i m. do { entry \<leftarrow> get_entry_ref (ps_log s) i; Some (omap_assign (log_index_to_str i) entry m) })
         (index_range (lg_prev_index (ps_log s) + 1) (get_latest_index (ps_log s))) (rf_log f);
       Some \<lparr>rst_file = (write_header s f)\<lparr>rf_snapshot := Some snapshot, rf_log := log\<rparr>, rst_state = s\<rparr>
     }"

definition storage_erase :: "('s, 'c) raft_file \<Rightarrow> ('s, 'c) raft_file" where
  "storage_erase f = f\<lparr>rf_header := None, rf_snapshot := None,
     rf_log := fold omap_erase (map fst (rf_log f)) (rf_log f)\<rparr>"

definition write_current_term_and_voted_for ::
  "raft_term \<Rightarrow> raft_member_id \<Rightarrow> ('s, 'c) raft_storage \<Rightarrow> ('s, 'c) raft_storage" where
  "write_current_term_and_voted_for current_term voted_for st =
     (let s = (rst_state st)\<lparr>ps_current_term := current_term, ps_voted_for := voted_for\<rparr>
      in \<lparr>rst_file = write_header s (rst_file st), rst_state = s\<rparr>)"

definition write_commit_index :: "raft_log_index \<Rightarrow> ('s, 'c) raft_storage \<Rightarrow> ('s, 'c) raft_storage" where
  "write_commit_index commit_index st =
     (let s = (rst_state st)\<lparr>ps_commit_index := commit_index\<rparr>
      in \<lparr>rst_file = write_header s (rst_file st), rst_state = s\<rparr>)"

definition write_log_replace_tail ::
  "'c raft_log \<Rightarrow> raft_log_index \<Rightarrow> ('s, 'c) raft_storage \<Rightarrow> ('s, 'c) raft_storage option" where
  "write_log_replace_tail source first_replaced st =
     (let l = ps_log (rst_state st)
      in if first_replaced > lg_prev_index l \<and> first_replaced \<le> get_latest_index l + 1 then
           do {
             m \<leftarrow> fold_opt (\<lambda>i m.
                 if i \<le> get_latest_index source
                 then do { entry \<leftarrow> get_entry_ref source i; Some (omap_assign (log_index_to_str i) entry m) }
                 else Some (omap_erase (log_index_to_str i) m))
               (index_range first_replaced (max (get_latest_index l) (get_latest_index source)))
               (rf_log (rst_file st));
             l1 \<leftarrow> (if first_replaced \<noteq> get_latest_index l + 1
                    then delete_entries_from first_replaced l else Some l);
             l2 \<leftarrow> fold_opt (\<lambda>i l. do { entry \<leftarrow> get_entry_ref source i; Some (log_append entry l) })
               (index_range first_replaced (get_latest_index source)) l1;
             Some \<lparr>rst_file = (rst_file st)\<lparr>rf_log := m\<rparr>, rst_state = (rst_state st)\<lparr>ps_log := l2\<rparr>\<rparr>
           }
         else None)"

definition write_log_append_one :: "'c raft_log_entry \<Rightarrow> ('s, 'c) raft_storage \<Rightarrow> ('s, 'c) raft_storage" where
  "write_log_append_one entry st =
     (let l = ps_log (rst_state st); index = get_latest_index l + 1
      in \<lparr>rst_file = (rst_file st)\<lparr>rf_log := omap_assign (log_index_to_str index) entry (rf_log (rst_file st))\<rparr>,
          rst_state = (rst_state st)\<lparr>ps_log := log_append entry l\<rparr>\<rparr>)"

definition write_snapshot ::
  "'s \<Rightarrow> raft_complex_config \<Rightarrow> bool \<Rightarrow> raft_log_index \<Rightarrow> raft_term \<Rightarrow> raft_log_index
    \<Rightarrow> ('s, 'c) raft_storage \<Rightarrow> ('s, 'c) raft_storage option" where
  "write_snapshot snapshot_state snapshot_config clear_log log_prev_index log_prev_term commit_index st =
     (let s = (rst_state st)\<lparr>ps_commit_index := commit_index\<rparr>;
          f = write_header s (rst_file st);
          snapshot = \<lparr>sn_state = snapshot_state, sn_config = snapshot_config,
            sn_log_prev_index = log_prev_index, sn_log_prev_term = log_prev_term\<rparr>;
          m = fold (\<lambda>i. omap_erase (log_index_to_str i))
            (index_range (lg_prev_index (ps_log s) + 1)
              (if clear_log then get_latest_index (ps_log s) else log_prev_index)) (rf_log f)
      in do {
           l \<leftarrow> (if clear_log
                 then Some \<lparr>lg_prev_index = log_prev_index, lg_prev_term = log_prev_term, lg_entries = []\<rparr>
                 else delete_entries_to log_prev_index log_prev_term (ps_log s));
           Some \<lparr>rst_file = f\<lparr>rf_snapshot := Some snapshot, rf_log := m\<rparr>,
             rst_state = s\<lparr>ps_snapshot_state := snapshot_state, ps_snapshot_config := snapshot_config, ps_log := l\<rparr>\<rparr>
         })"

section \<open>The file follows the state\<close>

definition log_bounded :: "nat \<Rightarrow> 'c raft_log \<Rightarrow> bool" where
  "log_bounded b l \<longleftrightarrow> unat (lg_prev_index l) + length (lg_entries l) < b"

definition index_key :: "nat \<Rightarrow> string" where
  "index_key n = log_index_to_str (of_nat n)"

definition log_items :: "nat \<Rightarrow> 'e list \<Rightarrow> (string, 'e) omap" where
  "log_items p es = zip (map index_key [Suc p..<Suc p + length es]) es"

lemma index_key_less: "m < n \<Longrightarrow> n < 2 ^ 64 \<Longrightarrow> index_key m < index_key n"
  unfolding index_key_def by (rule log_index_to_str_mono) (simp add: word_of_nat_less_iff take_bit_nat_eq_self)

lemma index_key_inj: "m < 2 ^ 64 \<Longrightarrow> n < 2 ^ 64 \<Longrightarrow> index_key m = index_key n \<longleftrightarrow> m = n"
  by (metis index_key_less less_irrefl linorder_neqE_nat)

lemma fst_log_items: "map fst (log_items p es) = map index_key [Suc p..<Suc p + length es]"
  by (simp add: log_items_def)

lemma log_items_ok: "p + length es < 2 ^ 64 \<Longrightarrow> omap_ok (log_items p es)"
  unfolding omap_ok_def fst_log_items
  by (auto simp: sorted_wrt_iff_nth_less simp del: upt_Suc intro!: index_key_less)

lemma map_of_log_items:
  assumes "p + length es < 2 ^ 64" and "n < 2 ^ 64"
  shows "map_of (log_items p es) (index_key n) = (if p < n \<and> n \<le> p + length es then Some (es ! (n - Suc p)) else None)"
proof (cases "p < n \<and> n \<le> p + length es")
  case True
  then have "log_items p es ! (n - Suc p) = (index_key n, es ! (n - Suc p))"
    by (auto simp: log_items_def simp del: upt_Suc)
  moreover have "n - Suc p < length (log_items p es)" using True by (auto simp: log_items_def)
  ultimately have "(index_key n, es ! (n - Suc p)) \<in> set (log_items p es)" by (metis nth_mem)
  then show ?thesis using True map_of_omap_ok [OF log_items_ok [OF assms(1)]] by simp
next
  case False
  have "index_key n \<notin> fst ` set (log_items p es)"
  proof
    assume "index_key n \<in> fst ` set (log_items p es)"
    then have "index_key n \<in> set (map fst (log_items p es))" by simp
    then obtain m where "m \<in> {Suc p..<Suc p + length es}" "index_key n = index_key m"
      unfolding fst_log_items by (auto simp del: upt_Suc)
    then show False using index_key_inj [of n m] assms False by auto
  qed
  then have "map_of (log_items p es) (index_key n) = None" by (simp add: map_of_eq_None_iff)
  then show ?thesis using False by (simp only: if_False)
qed

lemma map_of_log_items_other: "k \<notin> range index_key \<Longrightarrow> map_of (log_items p es) k = None"
proof -
  assume "k \<notin> range index_key"
  then have "k \<notin> set (map fst (log_items p es))" unfolding fst_log_items by auto
  then show ?thesis by (simp add: map_of_eq_None_iff)
qed

lemma omap_ext:
  assumes "omap_ok m" and "omap_ok n" and "map_of m = map_of n"
  shows "m = n"
proof -
  have "set m = set n"
    using assms map_of_omap_ok map_of_SomeD by (metis subrelI subset_antisym)
  then show ?thesis
    using assms(1,2) by (intro map_sorted_distinct_set_unique [where f = fst])
      (auto simp: omap_ok_def strict_sorted_iff inj_on_def eq_key_imp_eq_value)
qed

text \<open>A series of writes and erasures under index keys.\<close>

definition put_index :: "(nat \<Rightarrow> 'e option) \<Rightarrow> nat \<Rightarrow> (string, 'e) omap \<Rightarrow> (string, 'e) omap" where
  "put_index u n m = (case u n of Some e \<Rightarrow> omap_assign (index_key n) e m | None \<Rightarrow> omap_erase (index_key n) m)"

lemma put_index_ok: "omap_ok m \<Longrightarrow> omap_ok (fold (put_index u) ns m)"
  by (induction ns arbitrary: m)
    (auto simp: put_index_def omap_assign_ok omap_erase_ok split: option.splits)

lemma map_of_put_index:
  assumes "omap_ok m" and "\<forall>n \<in> set ns. n < 2 ^ 64" and "i < 2 ^ 64"
  shows "map_of (fold (put_index u) ns m) (index_key i) = (if i \<in> set ns then u i else map_of m (index_key i))"
  using assms
proof (induction ns arbitrary: m)
  case (Cons n ns)
  have ok: "omap_ok (put_index u n m)" using put_index_ok [of m u "[n]"] Cons.prems by simp
  have "map_of (put_index u n m) (index_key i) = (if i = n then u n else map_of m (index_key i))"
    using Cons.prems index_key_inj [of i n]
    by (auto simp: put_index_def map_of_omap_assign map_of_omap_erase split: option.splits)
  then show ?case using Cons ok by auto
qed simp

lemma map_of_put_index_other:
  assumes "omap_ok m" and "k \<notin> range index_key"
  shows "map_of (fold (put_index u) ns m) k = map_of m k"
  using assms(1)
proof (induction ns arbitrary: m)
  case (Cons n ns)
  have ok: "omap_ok (put_index u n m)" using put_index_ok [of m u "[n]"] Cons.prems by simp
  have "map_of (put_index u n m) k = map_of m k"
    using Cons.prems assms(2)
    by (auto simp: put_index_def map_of_omap_assign map_of_omap_erase split: option.splits)
  then show ?case using Cons ok by simp
qed simp

lemma put_index_items:
  assumes "p + length es < 2 ^ 64" and "q + length fs < 2 ^ 64" and "\<forall>n \<in> set ns. n < 2 ^ 64"
    and "\<And>i. i < 2 ^ 64 \<Longrightarrow>
      (if i \<in> set ns then u i else if p < i \<and> i \<le> p + length es then Some (es ! (i - Suc p)) else None)
      = (if q < i \<and> i \<le> q + length fs then Some (fs ! (i - Suc q)) else None)"
  shows "fold (put_index u) ns (log_items p es) = log_items q fs"
proof (rule omap_ext)
  show "omap_ok (fold (put_index u) ns (log_items p es))" by (rule put_index_ok [OF log_items_ok [OF assms(1)]])
  show "omap_ok (log_items q fs)" by (rule log_items_ok [OF assms(2)])
  show "map_of (fold (put_index u) ns (log_items p es)) = map_of (log_items q fs)"
  proof
    fix k
    show "map_of (fold (put_index u) ns (log_items p es)) k = map_of (log_items q fs) k"
    proof (cases "k \<in> range index_key")
      case True
      then obtain j where "k = index_key j" by auto
      then have "k = index_key (unat (of_nat j :: u64))" by (simp add: index_key_def)
      moreover have "unat (of_nat j :: u64) < 2 ^ 64" using unsigned_less [of "of_nat j :: u64", where 'a = nat] by simp
      ultimately obtain i where i: "k = index_key i" "i < 2 ^ 64" by blast
      show ?thesis
        unfolding i(1) map_of_put_index [OF log_items_ok [OF assms(1)] assms(3) i(2)]
          map_of_log_items [OF assms(1) i(2)] map_of_log_items [OF assms(2) i(2)]
        using assms(4) [OF i(2)] .
    next
      case False
      then show ?thesis
        using map_of_put_index_other [OF log_items_ok [OF assms(1)] False] map_of_log_items_other by metis
    qed
  qed
qed

definition file_of :: "('s, 'c) raft_persistent_state \<Rightarrow> ('s, 'c) raft_file" where
  "file_of s = \<lparr>rf_header = Some (header_from_state s),
     rf_snapshot = Some \<lparr>sn_state = ps_snapshot_state s, sn_config = ps_snapshot_config s,
       sn_log_prev_index = lg_prev_index (ps_log s), sn_log_prev_term = lg_prev_term (ps_log s)\<rparr>,
     rf_log = log_items (unat (lg_prev_index (ps_log s))) (lg_entries (ps_log s))\<rparr>"

lemma log_items_Cons: "log_items p (e # es) = (index_key (Suc p), e) # log_items (Suc p) es"
  by (simp add: log_items_def upt_conv_Cons del: upt_Suc)

lemma log_items_Nil [simp]: "log_items p [] = []"
  by (simp add: log_items_def)

lemma unat_latest:
  assumes "log_bounded b l" and "b \<le> 2 ^ 64"
  shows "unat (get_latest_index l) = unat (lg_prev_index l) + length (lg_entries l)"
proof -
  have "get_latest_index l = of_nat (unat (lg_prev_index l) + length (lg_entries l))"
    by (simp add: get_latest_index_def)
  then show ?thesis
    using assms by (simp only: unsigned_of_nat log_bounded_def) (simp add: take_bit_nat_eq_self)
qed

lemma read_items:
  assumes "zero_shift wide" and "unat (lg_prev_index l) + length (lg_entries l) + length es < 2 ^ 31"
  shows "fold_opt (\<lambda>(index_str, entry) log. do {
       index \<leftarrow> str_to_log_index wide index_str;
       (if index = get_latest_index log + 1 then Some (log_append entry log) else None)
     }) (log_items (unat (lg_prev_index l) + length (lg_entries l)) es) l
   = Some (l\<lparr>lg_entries := lg_entries l @ es\<rparr>)"
  using assms(2)
proof (induction es arbitrary: l)
  case (Cons e es)
  let ?n = "Suc (unat (lg_prev_index l) + length (lg_entries l))"
  have "(of_nat ?n :: u64) < 0x80000000"
    using Cons.prems by (simp only: word_less_nat_alt unsigned_of_nat) (simp add: take_bit_nat_eq_self)
  then have "str_to_log_index wide (index_key ?n) = Some (of_nat ?n)"
    unfolding index_key_def by (rule read_low_index [OF assms(1)])
  moreover have "(of_nat ?n :: u64) = get_latest_index l + 1" by (simp add: get_latest_index_def)
  ultimately show ?case
    using Cons.IH [of "log_append e l"] Cons.prems
    by (simp add: log_items_Cons log_append_def)
qed simp

lemma storage_read_file_of:
  assumes "zero_shift wide" and "log_bounded (2 ^ 31) (ps_log s)"
  shows "storage_read wide (file_of s) = Some s"
  using read_items [OF assms(1), where l = "\<lparr>lg_prev_index = lg_prev_index (ps_log s),
      lg_prev_term = lg_prev_term (ps_log s), lg_entries = []\<rparr>" and es = "lg_entries (ps_log s)"] assms(2)
  by (simp add: storage_read_def file_of_def header_from_state_def log_bounded_def)

lemma entry_ref_nat:
  assumes "log_bounded (2 ^ 64) l" and "n < 2 ^ 64"
  shows "get_entry_ref l (of_nat n) =
    (if unat (lg_prev_index l) < n \<and> n \<le> unat (lg_prev_index l) + length (lg_entries l)
     then Some (lg_entries l ! (n - Suc (unat (lg_prev_index l)))) else None)"
proof -
  have n: "unat (of_nat n :: u64) = n" using assms(2) by (simp add: unsigned_of_nat take_bit_nat_eq_self)
  have "unat (of_nat n - lg_prev_index l - 1) = n - Suc (unat (lg_prev_index l))"
    if "unat (lg_prev_index l) < n"
  proof -
    have "lg_prev_index l \<le> of_nat n" using that n by (simp add: word_le_nat_alt)
    then have "unat (of_nat n - lg_prev_index l) = n - unat (lg_prev_index l)"
      using n by (simp add: unat_sub)
    moreover have "(1::u64) \<le> of_nat n - lg_prev_index l"
      using calculation that by (simp add: word_le_nat_alt)
    ultimately show ?thesis by (simp add: unat_sub)
  qed
  then show ?thesis
    unfolding get_entry_ref_def word_less_nat_alt word_le_nat_alt unat_latest [OF assms(1) order.refl] n
    by simp
qed

lemma fold_opt_fold:
  assumes "fold_opt f xs s = Some t" and "\<And>x s t. x \<in> set xs \<Longrightarrow> f x s = Some t \<Longrightarrow> t = g x s"
  shows "t = fold g xs s"
  using assms
proof (induction xs arbitrary: s)
  case (Cons x xs)
  obtain u where u: "f x s = Some u" "fold_opt f xs u = Some t"
    using Cons.prems(1) by (cases "f x s") auto
  have "u = g x s" using Cons.prems(2) u(1) by simp
  then show ?case using Cons.IH [OF u(2)] Cons.prems(2) by simp
qed simp

lemma fold_opt_Some:
  "(\<And>x s. x \<in> set xs \<Longrightarrow> f x s = Some (g x s)) \<Longrightarrow> fold_opt f xs s = Some (fold g xs s)"
  by (induction xs arbitrary: s) simp_all

lemma index_range_nat:
  "a < 2 ^ 64 \<Longrightarrow> b < 2 ^ 64 \<Longrightarrow> index_range (of_nat a) (of_nat b) = map of_nat [a..<Suc b]"
  by (simp add: index_range_def unsigned_of_nat take_bit_nat_eq_self del: upt_Suc)

definition max_index :: nat where
  "max_index = 2 ^ 64 - 1"

lemma range_of_log:
  assumes "log_bounded max_index l"
  shows "index_range (lg_prev_index l + 1) (get_latest_index l) =
    map of_nat [Suc (unat (lg_prev_index l))..<Suc (unat (lg_prev_index l) + length (lg_entries l))]"
proof -
  let ?p = "unat (lg_prev_index l)" and ?n = "length (lg_entries l)"
  have "lg_prev_index l + 1 = of_nat (Suc ?p)" "get_latest_index l = of_nat (?p + ?n)"
    by (simp_all add: get_latest_index_def add.commute)
  then show ?thesis
    using assms index_range_nat [of "Suc ?p" "?p + ?n"]
    by (simp add: log_bounded_def max_index_def del: upt_Suc of_nat_Suc of_nat_add)
qed

lemma bounded_mono: "log_bounded a l \<Longrightarrow> a \<le> b \<Longrightarrow> log_bounded b l"
  by (simp add: log_bounded_def)

lemma max_index_less: "n < max_index \<Longrightarrow> n < 2 ^ 64" "max_index \<le> 2 ^ 64"
  by (simp_all add: max_index_def)

lemma create_file_of:
  assumes "log_bounded max_index (ps_log s)"
  shows "storage_create empty_file s = Some \<lparr>rst_file = file_of s, rst_state = s\<rparr>"
proof -
  let ?l = "ps_log s"
  let ?p = "unat (lg_prev_index ?l)" and ?es = "lg_entries ?l"
  let ?ns = "[Suc ?p..<Suc (?p + length ?es)]"
  have b: "?p + length ?es < 2 ^ 64" using assms by (simp add: log_bounded_def max_index_def)
  have lb: "log_bounded (2 ^ 64) ?l" using assms max_index_less bounded_mono by blast
  define u where "u n = get_entry_ref ?l (of_nat n)" for n
  have u: "u n = Some (?es ! (n - Suc ?p))" if "n \<in> set ?ns" for n
    unfolding u_def using that b by (subst entry_ref_nat [OF lb]) auto
  have "fold_opt (\<lambda>i m. do { entry \<leftarrow> get_entry_ref ?l i; Some (omap_assign (log_index_to_str i) entry m) })
      (map of_nat ?ns) [] = Some (fold (put_index u) ?ns [])"
    unfolding fold_opt_map
  proof (rule fold_opt_Some)
    fix n m assume n: "n \<in> set ?ns"
    show "get_entry_ref ?l (of_nat n) \<bind> (\<lambda>entry. Some (omap_assign (log_index_to_str (of_nat n)) entry m))
        = Some (put_index u n m)"
      using u [OF n] by (simp add: put_index_def index_key_def u_def)
  qed
  moreover have "fold (put_index u) ?ns (log_items ?p []) = log_items ?p ?es"
  proof (rule put_index_items)
    fix i :: nat assume "i < 2 ^ 64"
    show "(if i \<in> set ?ns then u i
        else if ?p < i \<and> i \<le> ?p + length [] then Some ([] ! (i - Suc ?p)) else None)
      = (if ?p < i \<and> i \<le> ?p + length ?es then Some (?es ! (i - Suc ?p)) else None)"
      using u [of i] by (auto simp del: upt_Suc)
  qed (use b in auto)
  ultimately show ?thesis
    by (simp add: storage_create_def range_of_log [OF assms] empty_file_def write_header_def file_of_def
        del: upt_Suc)
qed

lemma write_term_file_of:
  "rst_file st = file_of (rst_state st) \<Longrightarrow>
     rst_file (write_current_term_and_voted_for t v st) = file_of (rst_state (write_current_term_and_voted_for t v st))"
  by (simp add: write_current_term_and_voted_for_def Let_def write_header_def file_of_def header_from_state_def)

lemma write_commit_file_of:
  "rst_file st = file_of (rst_state st) \<Longrightarrow>
     rst_file (write_commit_index i st) = file_of (rst_state (write_commit_index i st))"
  by (simp add: write_commit_index_def Let_def write_header_def file_of_def header_from_state_def)

lemma append_one_file_of:
  assumes "rst_file st = file_of (rst_state st)"
    and "log_bounded max_index (ps_log (rst_state (write_log_append_one e st)))"
  shows "rst_file (write_log_append_one e st) = file_of (rst_state (write_log_append_one e st))"
proof -
  let ?l = "ps_log (rst_state st)"
  let ?p = "unat (lg_prev_index ?l)" and ?es = "lg_entries ?l"
  let ?n = "Suc (?p + length ?es)"
  have b: "?p + length ?es < 2 ^ 64" "?p + length (?es @ [e]) < 2 ^ 64"
    using assms(2) by (simp_all add: write_log_append_one_def log_append_def log_bounded_def max_index_def Let_def)
  have "log_index_to_str (get_latest_index ?l + 1) = index_key ?n"
    by (simp add: index_key_def get_latest_index_def add.commute add.left_commute)
  moreover have "fold (put_index (\<lambda>_. Some e)) [?n] (log_items ?p ?es) = log_items ?p (?es @ [e])"
  proof (rule put_index_items)
    fix i :: nat assume "i < 2 ^ 64"
    show "(if i \<in> set [?n] then Some e
        else if ?p < i \<and> i \<le> ?p + length ?es then Some (?es ! (i - Suc ?p)) else None)
      = (if ?p < i \<and> i \<le> ?p + length (?es @ [e]) then Some ((?es @ [e]) ! (i - Suc ?p)) else None)"
      by (auto simp: nth_append)
  qed (use b in auto)
  ultimately show ?thesis
    using assms(1)
    by (simp add: write_log_append_one_def Let_def file_of_def log_append_def header_from_state_def put_index_def)
qed

lemma fold_append_entries:
  assumes "fold_opt (\<lambda>i l. do { entry \<leftarrow> g i; Some (log_append entry l) }) is l = Some l'"
  shows "l' = l\<lparr>lg_entries := lg_entries l @ map (\<lambda>i. the (g i)) is\<rparr> \<and> (\<forall>i \<in> set is. g i \<noteq> None)"
  using assms
proof (induction "is" arbitrary: l)
  case (Cons i js)
  obtain e where e: "g i = Some e" using Cons.prems by (cases "g i") auto
  then show ?case using Cons.IH [of "log_append e l"] Cons.prems by (simp add: log_append_def)
qed simp

lemma unat_less_next:
  assumes "log_bounded max_index l" and "i \<le> get_latest_index l + 1"
  shows "unat i \<le> Suc (unat (lg_prev_index l) + length (lg_entries l))"
proof -
  let ?n = "unat (lg_prev_index l) + length (lg_entries l)"
  have "get_latest_index l + 1 = of_nat (Suc ?n)" by (simp add: get_latest_index_def add.commute add.left_commute)
  moreover have "unat (of_nat (Suc ?n) :: u64) = Suc ?n"
    using assms(1) by (simp only: unsigned_of_nat log_bounded_def max_index_def) (simp add: take_bit_nat_eq_self)
  ultimately show ?thesis using assms(2) by (simp only: word_le_nat_alt)
qed

lemma unat_before:
  fixes i p :: u64
  assumes "p < i"
  shows "unat (i - p - 1) = unat i - Suc (unat p)"
proof -
  have "unat (i - p) = unat i - unat p" using assms by (simp add: unat_sub less_imp_le)
  moreover have "unat p < unat i" using assms by (simp add: word_less_nat_alt)
  ultimately show ?thesis by (simp add: unat_sub word_le_nat_alt)
qed

lemma replace_tail_cut:
  assumes "log_bounded max_index l" and "first > lg_prev_index l" and "first \<le> get_latest_index l + 1"
    and "(if first \<noteq> get_latest_index l + 1 then delete_entries_from first l else Some l) = Some l1"
  shows "l1 = l\<lparr>lg_entries := take (unat first - Suc (unat (lg_prev_index l))) (lg_entries l)\<rparr>"
proof (cases "first = get_latest_index l + 1")
  case True
  let ?n = "unat (lg_prev_index l) + length (lg_entries l)"
  have "first = of_nat (Suc ?n)" using True by (simp add: get_latest_index_def add.commute add.left_commute)
  moreover have "unat (of_nat (Suc ?n) :: u64) = Suc ?n"
    using assms(1) by (simp only: unsigned_of_nat log_bounded_def max_index_def) (simp add: take_bit_nat_eq_self)
  ultimately have "unat first = Suc ?n" by simp
  then show ?thesis using assms(4) True by simp
next
  case False
  then show ?thesis
    using assms(4) unat_before [OF assms(2)] by (simp add: delete_entries_from_def split: if_splits)
qed

lemma replace_tail_file_of:
  assumes ok: "rst_file st = file_of (rst_state st)"
    and b: "log_bounded max_index (ps_log (rst_state st))" and sb: "log_bounded max_index source"
    and w: "write_log_replace_tail source first st = Some st'"
  shows "rst_file st' = file_of (rst_state st') \<and> log_bounded max_index (ps_log (rst_state st'))"
proof -
  let ?l = "ps_log (rst_state st)"
  let ?p = "unat (lg_prev_index ?l)" and ?es = "lg_entries ?l" and ?f = "unat first"
  let ?ls = "?p + length ?es" and ?sl = "unat (lg_prev_index source) + length (lg_entries source)"
  have lats: "unat (get_latest_index ?l) = ?ls" "unat (get_latest_index source) = ?sl"
    using unat_latest [OF b] unat_latest [OF sb] max_index_less(2) by blast+
  have bs: "?ls < max_index" "?sl < max_index" using b sb by (simp_all add: log_bounded_def)
  have bs64: "?ls < 2 ^ 64" "?sl < 2 ^ 64" using bs max_index_less(1) by blast+
  have c: "first > lg_prev_index ?l" "first \<le> get_latest_index ?l + 1"
    using w by (auto simp: write_log_replace_tail_def Let_def split: if_splits)
  have f: "?p < ?f" "?f \<le> Suc ?ls"
    using c(1) unat_less_next [OF b c(2)] by (simp_all add: word_less_nat_alt)
  let ?r1 = "index_range first (max (get_latest_index ?l) (get_latest_index source))"
  let ?r2 = "index_range first (get_latest_index source)"
  obtain m l1 l2 where m: "fold_opt (\<lambda>i m.
          if i \<le> get_latest_index source
          then do { entry \<leftarrow> get_entry_ref source i; Some (omap_assign (log_index_to_str i) entry m) }
          else Some (omap_erase (log_index_to_str i) m)) ?r1 (rf_log (rst_file st)) = Some m"
      and l1: "(if first \<noteq> get_latest_index ?l + 1 then delete_entries_from first ?l else Some ?l) = Some l1"
      and l2: "fold_opt (\<lambda>i l. do { entry \<leftarrow> get_entry_ref source i; Some (log_append entry l) }) ?r2 l1 = Some l2"
      and st': "st' = \<lparr>rst_file = (rst_file st)\<lparr>rf_log := m\<rparr>, rst_state = (rst_state st)\<lparr>ps_log := l2\<rparr>\<rparr>"
    using w c by (auto simp: write_log_replace_tail_def Let_def split: bind_splits)
  have max: "unat (max (get_latest_index ?l) (get_latest_index source)) = max ?ls ?sl"
    using lats by (simp add: max_def word_le_nat_alt)
  have r1: "?r1 = map of_nat [?f..<Suc (max ?ls ?sl)]" and r2: "?r2 = map of_nat [?f..<Suc ?sl]"
    by (simp_all add: index_range_def max lats del: upt_Suc)
  define u where "u n = (if n \<le> ?sl then get_entry_ref source (of_nat n) else None)" for n
  have le: "(of_nat n \<le> get_latest_index source) = (n \<le> ?sl)" if "n \<le> max ?ls ?sl" for n
    using that bs64 lats by (simp add: word_le_nat_alt unsigned_of_nat take_bit_nat_eq_self)
  have m': "m = fold (put_index u) [?f..<Suc (max ?ls ?sl)] (log_items ?p ?es)"
  proof (rule fold_opt_fold)
    show "fold_opt (\<lambda>n m.
          if (of_nat n :: u64) \<le> get_latest_index source
          then do { entry \<leftarrow> get_entry_ref source (of_nat n); Some (omap_assign (log_index_to_str (of_nat n)) entry m) }
          else Some (omap_erase (log_index_to_str (of_nat n)) m)) [?f..<Suc (max ?ls ?sl)] (log_items ?p ?es) = Some m"
      using m ok unfolding r1 fold_opt_map by (simp add: file_of_def del: upt_Suc)
    fix n x y assume n: "n \<in> set [?f..<Suc (max ?ls ?sl)]"
      and "(if (of_nat n :: u64) \<le> get_latest_index source
          then do { entry \<leftarrow> get_entry_ref source (of_nat n); Some (omap_assign (log_index_to_str (of_nat n)) entry x) }
          else Some (omap_erase (log_index_to_str (of_nat n)) x)) = Some y"
    then show "y = put_index u n x"
      using le [of n] by (auto simp: put_index_def u_def index_key_def simp del: upt_Suc split: bind_splits if_splits)
  qed
  let ?tail = "map (\<lambda>n. the (get_entry_ref source (of_nat n))) [?f..<Suc ?sl]"
  let ?fs = "take (?f - Suc ?p) ?es @ ?tail"
  note app = fold_append_entries [OF l2, unfolded r2]
  have l2': "l2 = ?l\<lparr>lg_entries := ?fs\<rparr>"
    using app replace_tail_cut [OF b c l1] by (simp add: comp_def del: upt_Suc)
  have some: "get_entry_ref source (of_nat n) \<noteq> None" if "?f \<le> n" "n \<le> ?sl" for n
    using app that by (simp del: upt_Suc)
  have len: "?p + length ?fs = (if ?f \<le> Suc ?sl then ?sl else ?f - 1)" using f by auto
  then have fb: "?p + length ?fs < max_index" using bs f by (auto split: if_splits)
  have "m = log_items ?p ?fs"
    unfolding m'
  proof (rule put_index_items)
    fix i :: nat assume "i < 2 ^ 64"
    show "(if i \<in> set [?f..<Suc (max ?ls ?sl)] then u i
        else if ?p < i \<and> i \<le> ?p + length ?es then Some (?es ! (i - Suc ?p)) else None)
      = (if ?p < i \<and> i \<le> ?p + length ?fs then Some (?fs ! (i - Suc ?p)) else None)"
    proof -
      have t: "length (take (?f - Suc ?p) ?es) = ?f - Suc ?p" using f by simp
      consider "i < ?f" | "?f \<le> i" "i \<le> ?sl" | "?f \<le> i" "?sl < i" by linarith
      then show ?thesis
      proof cases
        case 1
        then have "i \<notin> set [?f..<Suc (max ?ls ?sl)]" "?p < i \<Longrightarrow> i \<le> ?ls" "i \<le> ?p + length ?fs \<or> i \<le> ?p"
          using f len by (auto split: if_splits)
        moreover have "?fs ! (i - Suc ?p) = ?es ! (i - Suc ?p)" if "?p < i"
          using 1 that t by (simp add: nth_append del: upt_Suc)
        ultimately show ?thesis by (auto simp del: upt_Suc)
      next
        case 2
        have "?fs ! (i - Suc ?p) = ?tail ! (i - ?f)"
          using 2 f t by (simp add: nth_append del: upt_Suc)
        also have "\<dots> = the (get_entry_ref source (of_nat i))" using 2 by (simp del: upt_Suc)
        finally have v: "?fs ! (i - Suc ?p) = the (get_entry_ref source (of_nat i))" .
        have "i \<in> set [?f..<Suc (max ?ls ?sl)]" using 2 by (simp del: upt_Suc)
        moreover have "?p < i \<and> i \<le> ?p + length ?fs" using 2 f len by simp
        moreover have "u i = Some (?fs ! (i - Suc ?p))" using 2 some [of i] v by (simp only: u_def) auto
        ultimately show ?thesis by (simp only: if_True simp_thms)
      next
        case 3
        then have "\<not> i \<le> ?p + length ?fs" using f len by (auto split: if_splits)
        then show ?thesis using 3 by (simp add: u_def del: upt_Suc)
      qed
    qed
  qed (use bs64 fb max_index_less(1) in \<open>auto simp del: upt_Suc\<close>)
  then show ?thesis
    using ok fb l2' unfolding st' by (simp add: file_of_def header_from_state_def log_bounded_def)
qed

lemma erase_items:
  assumes "p + length es < 2 ^ 64" and "q + length fs < 2 ^ 64" and "b < 2 ^ 64"
    and "\<And>i. i < 2 ^ 64 \<Longrightarrow>
      (if Suc p \<le> i \<and> i \<le> b then None else if p < i \<and> i \<le> p + length es then Some (es ! (i - Suc p)) else None)
      = (if q < i \<and> i \<le> q + length fs then Some (fs ! (i - Suc q)) else None)"
  shows "fold (\<lambda>i. omap_erase (log_index_to_str i)) (map of_nat [Suc p..<Suc b]) (log_items p es) = log_items q fs"
proof -
  have "fold (\<lambda>i. omap_erase (log_index_to_str i)) (map of_nat [Suc p..<Suc b]) m =
      fold (put_index (\<lambda>_. None)) [Suc p..<Suc b] m" for m :: "(string, 'a) omap"
  proof -
    have "put_index (\<lambda>_. None) = (\<lambda>n m. omap_erase (log_index_to_str (of_nat n)) (m :: (string, 'a) omap))"
      by (simp add: put_index_def index_key_def fun_eq_iff)
    then show ?thesis by (simp add: fold_map comp_def del: upt_Suc)
  qed
  moreover have "fold (put_index (\<lambda>_. None)) [Suc p..<Suc b] (log_items p es) = log_items q fs"
  proof (rule put_index_items [OF assms(1,2)])
    fix i :: nat assume i: "i < 2 ^ 64"
    have "(i \<in> set [Suc p..<Suc b]) = (Suc p \<le> i \<and> i \<le> b)" by (auto simp del: upt_Suc)
    then show "(if i \<in> set [Suc p..<Suc b] then None
        else if p < i \<and> i \<le> p + length es then Some (es ! (i - Suc p)) else None)
      = (if q < i \<and> i \<le> q + length fs then Some (fs ! (i - Suc q)) else None)"
      using assms(4) [OF i] by (simp only:)
  qed (use assms(3) in \<open>auto simp del: upt_Suc\<close>)
  ultimately show ?thesis by simp
qed

lemma snapshot_file_of:
  assumes ok: "rst_file st = file_of (rst_state st)"
    and b: "log_bounded max_index (ps_log (rst_state st))" and ib: "unat log_prev_index < max_index"
    and w: "write_snapshot ss sc clear_log log_prev_index log_prev_term ci st = Some st'"
  shows "rst_file st' = file_of (rst_state st') \<and> log_bounded max_index (ps_log (rst_state st'))"
proof -
  let ?l = "ps_log (rst_state st)"
  let ?p = "unat (lg_prev_index ?l)" and ?es = "lg_entries ?l" and ?q = "unat log_prev_index"
  have lat: "unat (get_latest_index ?l) = ?p + length ?es"
    using unat_latest [OF b] max_index_less(2) by blast
  have bs: "?p + length ?es < 2 ^ 64" "?q < 2 ^ 64"
    using b ib max_index_less(1) by (auto simp: log_bounded_def)
  define u where "u = (if clear_log then get_latest_index ?l else log_prev_index)"
  define m where "m = fold (\<lambda>i. omap_erase (log_index_to_str i)) (index_range (lg_prev_index ?l + 1) u) (rf_log (rst_file st))"
  obtain l where l: "(if clear_log
        then Some \<lparr>lg_prev_index = log_prev_index, lg_prev_term = log_prev_term, lg_entries = []\<rparr>
        else delete_entries_to log_prev_index log_prev_term ?l) = Some l"
      and st': "st' = \<lparr>rst_file = (write_header ((rst_state st)\<lparr>ps_commit_index := ci\<rparr>) (rst_file st))\<lparr>rf_snapshot :=
          Some \<lparr>sn_state = ss, sn_config = sc, sn_log_prev_index = log_prev_index, sn_log_prev_term = log_prev_term\<rparr>,
          rf_log := m\<rparr>,
        rst_state = (rst_state st)\<lparr>ps_commit_index := ci, ps_snapshot_state := ss, ps_snapshot_config := sc, ps_log := l\<rparr>\<rparr>"
    using w by (auto simp: write_snapshot_def Let_def m_def u_def write_header_def cong: if_cong split: bind_splits)
  have "unat (lg_prev_index ?l + 1) = Suc ?p"
  proof -
    have "lg_prev_index ?l + 1 = of_nat (Suc ?p)" by (simp add: add.commute)
    moreover have "unat (of_nat (Suc ?p) :: u64) = Suc ?p"
      using b by (simp only: unsigned_of_nat log_bounded_def max_index_def) (simp add: take_bit_nat_eq_self)
    ultimately show ?thesis by (simp only:)
  qed
  then have r: "index_range (lg_prev_index ?l + 1) u = map of_nat [Suc ?p..<Suc (unat u)]"
    by (simp add: index_range_def del: upt_Suc)
  have m': "m = fold (\<lambda>i. omap_erase (log_index_to_str i)) (map of_nat [Suc ?p..<Suc (unat u)]) (log_items ?p ?es)"
    using ok by (simp add: m_def r file_of_def del: upt_Suc)
  have lp: "lg_prev_index l = log_prev_index" "lg_prev_term l = log_prev_term"
    using l by (auto simp: delete_entries_to_def split: if_splits bind_splits)
  have es: "clear_log \<Longrightarrow> lg_entries l = []"
    "\<not> clear_log \<Longrightarrow> lg_prev_index ?l < log_prev_index \<and> lg_entries l = drop (?q - ?p) ?es"
  proof -
    show "lg_entries l = []" if clear_log using l that by auto
    assume nc: "\<not> clear_log"
    then have c: "lg_prev_index ?l < log_prev_index" using l by (auto simp: delete_entries_to_def split: if_splits)
    moreover have "unat (log_prev_index - lg_prev_index ?l) = ?q - ?p" using c by (simp add: unat_sub less_imp_le)
    moreover have "log_prev_index \<le> get_latest_index ?l \<longleftrightarrow> ?q \<le> ?p + length ?es"
      using lat by (simp add: word_le_nat_alt)
    ultimately show "lg_prev_index ?l < log_prev_index \<and> lg_entries l = drop (?q - ?p) ?es"
      using l nc by (auto simp: delete_entries_to_def split: if_splits)
  qed
  have qb: "?q + length (lg_entries l) < max_index"
    using es ib b by (cases clear_log) (auto simp: log_bounded_def word_less_nat_alt)
  have "m = log_items ?q (lg_entries l)"
    unfolding m'
  proof (rule erase_items)
    show "unat u < 2 ^ 64" using unsigned_less [of u, where 'a = nat] by simp
    show "?q + length (lg_entries l) < 2 ^ 64" using qb max_index_less(1) by blast
    fix i :: nat
    show "(if Suc ?p \<le> i \<and> i \<le> unat u then None
        else if ?p < i \<and> i \<le> ?p + length ?es then Some (?es ! (i - Suc ?p)) else None)
      = (if ?q < i \<and> i \<le> ?q + length (lg_entries l) then Some (lg_entries l ! (i - Suc ?q)) else None)"
      using es lat by (cases clear_log) (auto simp: u_def word_less_nat_alt intro!: arg_cong [where f = "nth _"])
  qed (rule bs)
  then show ?thesis
    using ok qb lp unfolding st'
    by (simp add: file_of_def header_from_state_def log_bounded_def write_header_def)
qed

text \<open>The storage of a member: created once, then changed by the five operations of the interface.\<close>

inductive storage_run :: "('s, 'c) raft_storage \<Rightarrow> bool" where
  created: "storage_create empty_file s = Some st \<Longrightarrow> log_bounded max_index (ps_log s) \<Longrightarrow> storage_run st"
| wrote_term: "storage_run st \<Longrightarrow> storage_run (write_current_term_and_voted_for t v st)"
| wrote_commit: "storage_run st \<Longrightarrow> storage_run (write_commit_index i st)"
| replaced_tail: "storage_run st \<Longrightarrow> log_bounded max_index source \<Longrightarrow>
    write_log_replace_tail source i st = Some st' \<Longrightarrow> storage_run st'"
| appended: "storage_run st \<Longrightarrow> st' = write_log_append_one e st \<Longrightarrow>
    log_bounded max_index (ps_log (rst_state st')) \<Longrightarrow> storage_run st'"
| wrote_snapshot: "storage_run st \<Longrightarrow> unat i < max_index \<Longrightarrow>
    write_snapshot ss sc clear i t ci st = Some st' \<Longrightarrow> storage_run st'"

lemma storage_run_file_of:
  "storage_run st \<Longrightarrow> rst_file st = file_of (rst_state st) \<and> log_bounded max_index (ps_log (rst_state st))"
proof (induction rule: storage_run.induct)
  case (created s st)
  then show ?case using create_file_of [of s] by auto
next
  case (wrote_term st t v)
  then show ?case
    using write_term_file_of [of st t v] by (simp add: write_current_term_and_voted_for_def Let_def)
next
  case (wrote_commit st i)
  then show ?case using write_commit_file_of [of st i] by (simp add: write_commit_index_def Let_def)
next
  case (replaced_tail st source i st')
  then show ?case using replace_tail_file_of by blast
next
  case (appended st st' e)
  then show ?case using append_one_file_of [of st e] by simp
next
  case (wrote_snapshot st i ss sc clear t ci st')
  then show ?case using snapshot_file_of [OF _ _ wrote_snapshot(2,3)] by simp
qed

text \<open>
  Property C4. Nothing a member has written is lost: after every sequence of storage
  operations, reading the file gives exactly the state in memory, so a member that is restarted
  continues with the term, vote, commit index, snapshot and log it had. The log indexes stay below
  \<open>2 ^ 31\<close>, where their keys can be read.
\<close>

theorem storage_survives_restart:
  assumes "storage_run st" and "zero_shift wide" and "log_bounded (2 ^ 31) (ps_log (rst_state st))"
  shows "storage_read wide (rst_file st) = Some (rst_state st)"
  using storage_run_file_of [OF assms(1)] storage_read_file_of [OF assms(2,3)] by simp

section \<open>Witnesses\<close>

definition first_state :: "(nat, nat) raft_persistent_state" where
  "first_state = \<lparr>ps_current_term = 1, ps_voted_for = 0, ps_snapshot_state = 0,
     ps_snapshot_config = \<lparr>cc_config = \<lparr>rc_voting_members = {7}, rc_non_voting_members = {}\<rparr>, cc_new_config = None\<rparr>,
     ps_log = \<lparr>lg_prev_index = 0, lg_prev_term = 0, lg_entries = []\<rparr>, ps_commit_index = 0\<rparr>"

definition first_entry :: "nat raft_log_entry" where
  "first_entry = \<lparr>le_type = Log_regular, le_term = 1, le_change = Some 5, le_config = None\<rparr>"

definition used_storage :: "(nat, nat) raft_storage" where
  "used_storage = write_commit_index 1 (write_log_append_one first_entry
     (write_current_term_and_voted_for 2 7 \<lparr>rst_file = file_of first_state, rst_state = first_state\<rparr>))"

lemma used_storage_run: "storage_run used_storage"
proof -
  have b: "log_bounded max_index (ps_log first_state)"
    by (simp add: log_bounded_def max_index_def first_state_def)
  have "storage_run \<lparr>rst_file = file_of first_state, rst_state = first_state\<rparr>"
    using storage_run.created [OF create_file_of [OF b] b] .
  from storage_run.wrote_term [OF this] show ?thesis
    unfolding used_storage_def
    by (intro storage_run.wrote_commit storage_run.appended [OF _ refl])
      (simp_all add: write_log_append_one_def write_current_term_and_voted_for_def Let_def log_append_def
        log_bounded_def max_index_def first_state_def)
qed

theorem log_index_text_roundtrip_witness:
  "str_to_log_index (\<lambda>_ _. 0) (log_index_to_str 77) = Some 77
   \<and> str_to_log_index (\<lambda>_ _. 0) (log_index_to_str 0x80000000) = Some 0xFFFFFFFF80000000"
  using log_index_text_roundtrip [of "\<lambda>_ _. 0" 77] by (simp add: zero_shift_def)

theorem storage_survives_restart_witness:
  "storage_run used_storage \<and> storage_read (\<lambda>_ _. 0) (rst_file used_storage) = Some (rst_state used_storage)"
proof -
  have "log_bounded (2 ^ 31) (ps_log (rst_state used_storage))"
    by (simp add: used_storage_def write_commit_index_def write_log_append_one_def log_append_def
        write_current_term_and_voted_for_def Let_def log_bounded_def first_state_def)
  then show ?thesis
    using storage_survives_restart [OF used_storage_run, of "\<lambda>_ _. 0"] used_storage_run
    by (simp add: zero_shift_def)
qed

end
