(* ===== verification/Raft_Member.thy ===== *)
theory Raft_Member
  imports Raft_Storage
begin

text \<open>
  A Raft member, \<open>raft_member_t\<close> of \<open>clustering/generic/raft_core.tcc\<close>: its state and one definition
  for every section of code that runs under its mutex: the three RPC handlers, elections, what the
  leader does with replies, proposals, reconfiguration. Timers, connections and waiting are
  inputs: whether a leader was heard from recently, that a watchdog fired, that a reply arrived.
  \<open>apply_change\<close> of the replicated state is the parameter \<open>ap\<close>. A failing \<open>guarantee\<close> is \<open>None\<close>.
\<close>

section \<open>State\<close>

datatype raft_mode = Follower | Candidate | Leader

record 's state_and_config =
  sc_log_index :: raft_log_index
  sc_state :: 's
  sc_config :: raft_complex_config

text \<open>
  \<open>mb_votes\<close> and \<open>mb_won\<close> are \<open>votes_for_us\<close> and \<open>we_won_the_election\<close> of the running
  \<open>candidate_run_election\<close>.
\<close>

record ('s, 'c) raft_member =
  mb_storage :: "('s, 'c) raft_storage"
  mb_mode :: raft_mode
  mb_current_term_leader_id :: raft_member_id
  mb_committed_state :: "'s state_and_config"
  mb_latest_state :: "'s state_and_config"
  mb_match_indexes :: "(raft_member_id, raft_log_index) omap"
  mb_votes :: "raft_member_id set"
  mb_won :: bool

definition mb_ps :: "('s, 'c) raft_member \<Rightarrow> ('s, 'c) raft_persistent_state" where
  "mb_ps m = rst_state (mb_storage m)"

type_synonym ('s, 'c) apply_fn = "'c \<Rightarrow> 's \<Rightarrow> 's option"

record request_vote =
  rv_term :: raft_term
  rv_candidate_id :: raft_member_id
  rv_last_log_index :: raft_log_index
  rv_last_log_term :: raft_term

record 's install_snapshot =
  is_term :: raft_term
  is_leader_id :: raft_member_id
  is_last_included_index :: raft_log_index
  is_last_included_term :: raft_term
  is_snapshot_state :: 's
  is_snapshot_config :: raft_complex_config

record 'c append_entries =
  ae_term :: raft_term
  ae_leader_id :: raft_member_id
  ae_entries :: "'c raft_log"
  ae_leader_commit :: raft_log_index

record vote_reply =
  vr_term :: raft_term
  vr_vote_granted :: bool

record append_reply =
  ar_term :: raft_term
  ar_success :: bool

section \<open>Shared steps\<close>

text \<open>Applying entries: of a table, \<open>ap\<close> is \<open>table_raft_state_t::apply_change\<close>.\<close>

definition apply_entry :: "('s, 'c) apply_fn \<Rightarrow> 'c raft_log_entry \<Rightarrow> 's state_and_config \<Rightarrow> 's state_and_config option" where
  "apply_entry ap e sc =
     (case le_type e of
        Log_regular \<Rightarrow> do { c \<leftarrow> le_change e; s \<leftarrow> ap c (sc_state sc);
          Some (sc\<lparr>sc_state := s, sc_log_index := sc_log_index sc + 1\<rparr>) }
      | Log_config \<Rightarrow> do { c \<leftarrow> le_config e; Some (sc\<lparr>sc_config := c, sc_log_index := sc_log_index sc + 1\<rparr>) }
      | Log_noop \<Rightarrow> Some (sc\<lparr>sc_log_index := sc_log_index sc + 1\<rparr>))"

definition apply_log_entries :: "('s, 'c) apply_fn \<Rightarrow> 'c raft_log \<Rightarrow> raft_log_index \<Rightarrow> raft_log_index
    \<Rightarrow> 's state_and_config \<Rightarrow> 's state_and_config option" where
  "apply_log_entries ap log first final sc =
     (if final \<ge> first - 1 \<and> sc_log_index sc + 1 = first then
        do {
          sc \<leftarrow> fold_opt (\<lambda>i sc. do { e \<leftarrow> get_entry_ref log i; apply_entry ap e sc })
            (index_range first final) sc;
          (if sc_log_index sc = final then Some sc else None)
        }
      else None)"

text \<open>The constructor.\<close>

definition member_init :: "('s, 'c) apply_fn \<Rightarrow> ('s, 'c) raft_storage \<Rightarrow> ('s, 'c) raft_member option" where
  "member_init ap storage =
     do {
       let ps = rst_state storage;
       let sc = \<lparr>sc_log_index = lg_prev_index (ps_log ps), sc_state = ps_snapshot_state ps,
         sc_config = ps_snapshot_config ps\<rparr>;
       latest \<leftarrow> apply_log_entries ap (ps_log ps) (sc_log_index sc + 1) (get_latest_index (ps_log ps)) sc;
       committed \<leftarrow> apply_log_entries ap (ps_log ps) (sc_log_index sc + 1) (ps_commit_index ps) sc;
       Some \<lparr>mb_storage = storage, mb_mode = Follower, mb_current_term_leader_id = nil_uuid,
         mb_committed_state = committed, mb_latest_state = latest, mb_match_indexes = [],
         mb_votes = {}, mb_won = False\<rparr>
     }"

definition member_update_term :: "raft_term \<Rightarrow> raft_member_id \<Rightarrow> ('s, 'c) raft_member \<Rightarrow> ('s, 'c) raft_member option" where
  "member_update_term new_term new_voted_for m =
     (if new_term > ps_current_term (mb_ps m)
      then Some (m\<lparr>mb_storage := write_current_term_and_voted_for new_term new_voted_for (mb_storage m),
             mb_current_term_leader_id := nil_uuid\<rparr>)
      else None)"

text \<open>
  \<open>candidate_or_leader_become_follower\<close>: interrupts \<open>candidate_and_leader_coro\<close> and waits for its end,
  which resets the mode and clears \<open>match_indexes\<close>.
\<close>

definition become_follower :: "('s, 'c) raft_member \<Rightarrow> ('s, 'c) raft_member option" where
  "become_follower m =
     (if mb_mode m = Candidate \<or> mb_mode m = Leader
      then Some (m\<lparr>mb_mode := Follower, mb_match_indexes := [], mb_votes := {}, mb_won := False\<rparr>)
      else None)"

definition step_down :: "('s, 'c) raft_member \<Rightarrow> ('s, 'c) raft_member option" where
  "step_down m = (if mb_mode m \<noteq> Follower then become_follower m else Some m)"

definition snapshot_threshold :: nat where
  "snapshot_threshold = 20"

definition update_commit_index :: "('s, 'c) apply_fn \<Rightarrow> raft_log_index \<Rightarrow> ('s, 'c) raft_member
    \<Rightarrow> ('s, 'c) raft_member option" where
  "update_commit_index ap new_commit_index m =
     (let old_commit_index = sc_log_index (mb_committed_state m)
      in if new_commit_index > old_commit_index then
           do {
             let storage = write_commit_index new_commit_index (mb_storage m);
             let log = ps_log (rst_state storage);
             committed \<leftarrow> apply_log_entries ap log (old_commit_index + 1) new_commit_index (mb_committed_state m);
             (if unat (new_commit_index - lg_prev_index log) > snapshot_threshold then
                do {
                  t \<leftarrow> get_entry_term log new_commit_index;
                  storage \<leftarrow> write_snapshot (sc_state committed) (sc_config committed) False
                    new_commit_index t new_commit_index storage;
                  Some (m\<lparr>mb_storage := storage, mb_committed_state := committed\<rparr>)
                }
              else Some (m\<lparr>mb_storage := storage, mb_committed_state := committed\<rparr>))
           }
         else None)"

section \<open>Handlers of requests\<close>

text \<open>
  \<open>heard\<close>: the watchdog of leaders is not triggered, that is, a leader was heard from recently.
\<close>

definition on_request_vote_rpc :: "raft_member_id \<Rightarrow> bool \<Rightarrow> request_vote \<Rightarrow> ('s, 'c) raft_member
    \<Rightarrow> (('s, 'c) raft_member \<times> vote_reply) option" where
  "on_request_vote_rpc this_id heard request m =
     (let refuse = (\<lambda>m. (m, \<lparr>vr_term = ps_current_term (mb_ps m), vr_vote_granted = False\<rparr>))
      in if (mb_mode m = Leader \<and> \<not> complex_is_member (sc_config (mb_latest_state m)) (rv_candidate_id request))
            \<or> (mb_mode m = Follower \<and> heard)
         then Some (refuse m)
         else
           do {
             m \<leftarrow> (if rv_term request > ps_current_term (mb_ps m)
                   then do { m \<leftarrow> step_down m; member_update_term (rv_term request) nil_uuid m } else Some m);
             (if rv_term request < ps_current_term (mb_ps m) then Some (refuse m)
              else if rv_candidate_id request = this_id then None
              else if mb_mode m \<noteq> Follower \<and> ps_voted_for (mb_ps m) \<noteq> this_id then None
              else if \<not> is_nil (ps_voted_for (mb_ps m)) \<and> ps_voted_for (mb_ps m) \<noteq> rv_candidate_id request
              then Some (refuse m)
              else
                do {
                  let log = ps_log (mb_ps m);
                  t \<leftarrow> get_entry_term log (get_latest_index log);
                  (if rv_last_log_term request > t
                      \<or> (rv_last_log_term request = t \<and> rv_last_log_index request \<ge> get_latest_index log) then
                     (if get_latest_index log \<ge> ps_commit_index (mb_ps m)
                         \<and> rv_last_log_index request \<ge> ps_commit_index (mb_ps m)
                      then Some (m\<lparr>mb_storage := write_current_term_and_voted_for (ps_current_term (mb_ps m))
                               (rv_candidate_id request) (mb_storage m)\<rparr>,
                             \<lparr>vr_term = ps_current_term (mb_ps m), vr_vote_granted = True\<rparr>)
                      else None)
                   else Some (refuse m))
                })
           })"

definition on_rpc_from_leader :: "raft_member_id \<Rightarrow> raft_member_id \<Rightarrow> raft_term \<Rightarrow> ('s, 'c) raft_member
    \<Rightarrow> (('s, 'c) raft_member \<times> bool) option" where
  "on_rpc_from_leader this_id request_leader_id request_term m =
     (if request_leader_id = this_id then None
      else
        do {
          m \<leftarrow> (if request_term > ps_current_term (mb_ps m)
                then do { m \<leftarrow> step_down m; member_update_term request_term nil_uuid m } else Some m);
          (if request_term < ps_current_term (mb_ps m) then Some (m, False)
           else
             do {
               m \<leftarrow> (if mb_mode m = Candidate then become_follower m else Some m);
               (if mb_mode m = Leader then None
                else if is_nil (mb_current_term_leader_id m)
                then Some (m\<lparr>mb_current_term_leader_id := request_leader_id\<rparr>, True)
                else if mb_current_term_leader_id m = request_leader_id then Some (m, True)
                else None)
             })
        })"

definition on_install_snapshot_rpc :: "raft_member_id \<Rightarrow> 's install_snapshot \<Rightarrow> ('s, 'c) raft_member
    \<Rightarrow> (('s, 'c) raft_member \<times> raft_term) option" where
  "on_install_snapshot_rpc this_id request m =
     do {
       (m, ok) \<leftarrow> on_rpc_from_leader this_id (is_leader_id request) (is_term request) m;
       let i = is_last_included_index request;
       let t = is_last_included_term request;
       let log = ps_log (mb_ps m);
       (if \<not> ok then Some (m, ps_current_term (mb_ps m))
        else if i \<le> lg_prev_index log then
          (if i = lg_prev_index log \<and> t \<noteq> lg_prev_term log then None else Some (m, ps_current_term (mb_ps m)))
        else
          do {
            m \<leftarrow> (if i \<le> get_latest_index log \<and> get_entry_term log i = Some t then
                   do {
                     storage \<leftarrow> write_snapshot (is_snapshot_state request) (is_snapshot_config request) False i t
                       (max i (ps_commit_index (mb_ps m))) (mb_storage m);
                     Some (m\<lparr>mb_storage := storage\<rparr>)
                   }
                 else
                   do {
                     storage \<leftarrow> write_snapshot (is_snapshot_state request) (is_snapshot_config request) True i t i
                       (mb_storage m);
                     Some (m\<lparr>mb_storage := storage,
                       mb_latest_state := \<lparr>sc_log_index = i, sc_state = is_snapshot_state request,
                         sc_config = is_snapshot_config request\<rparr>\<rparr>)
                   });
            (if i > sc_log_index (mb_committed_state m) then
               (if ps_commit_index (mb_ps m) = i
                then Some (m\<lparr>mb_committed_state := \<lparr>sc_log_index = i, sc_state = is_snapshot_state request,
                       sc_config = is_snapshot_config request\<rparr>\<rparr>, ps_current_term (mb_ps m))
                else None)
             else Some (m, ps_current_term (mb_ps m)))
          })
     }"

text \<open>The loop of \<open>on_append_entries_rpc\<close>: the first index where the terms differ, if there is one.\<close>

definition first_conflict :: "'c raft_log \<Rightarrow> 'c raft_log \<Rightarrow> raft_log_index list \<Rightarrow> raft_log_index option" where
  "first_conflict log entries is = find (\<lambda>i. get_entry_term log i \<noteq> get_entry_term entries i) is"

text \<open>
  The part of \<open>on_append_entries_rpc\<close> that writes the log; the result also says whether entries
  were in conflict.
\<close>

definition store_entries :: "'c raft_log \<Rightarrow> ('s, 'c) raft_member \<Rightarrow> (('s, 'c) raft_member \<times> bool) option" where
  "store_entries entries m =
     (let log = ps_log (mb_ps m);
          min_index = max (lg_prev_index entries) (lg_prev_index log) + 1;
          last_index = min (get_latest_index log) (get_latest_index entries);
          conflict = first_conflict log entries (index_range min_index last_index);
          first_nonmatching_index = (case conflict of Some i \<Rightarrow> i | None \<Rightarrow> max min_index (last_index + 1))
      in if conflict \<noteq> None \<or> first_nonmatching_index > get_latest_index log then
           (if first_nonmatching_index > ps_commit_index (mb_ps m) then
              do {
                storage \<leftarrow> write_log_replace_tail entries first_nonmatching_index (mb_storage m);
                Some (m\<lparr>mb_storage := storage\<rparr>, conflict \<noteq> None)
              }
            else None)
         else Some (m, conflict \<noteq> None))"

definition refresh_latest :: "('s, 'c) apply_fn \<Rightarrow> bool \<Rightarrow> ('s, 'c) raft_member \<Rightarrow> ('s, 'c) raft_member option" where
  "refresh_latest ap conflict m =
     (let base = (if conflict then mb_committed_state m else mb_latest_state m)
      in map_option (\<lambda>latest. m\<lparr>mb_latest_state := latest\<rparr>)
           (apply_log_entries ap (ps_log (mb_ps m)) (sc_log_index base + 1)
             (get_latest_index (ps_log (mb_ps m))) base))"

definition on_append_entries_rpc :: "('s, 'c) apply_fn \<Rightarrow> raft_member_id \<Rightarrow> 'c append_entries \<Rightarrow> ('s, 'c) raft_member
    \<Rightarrow> (('s, 'c) raft_member \<times> append_reply) option" where
  "on_append_entries_rpc ap this_id request m =
     do {
       (m, ok) \<leftarrow> on_rpc_from_leader this_id (ae_leader_id request) (ae_term request) m;
       let reply = (\<lambda>m success. \<lparr>ar_term = ps_current_term (mb_ps m), ar_success = success\<rparr>);
       let log = ps_log (mb_ps m);
       let entries = ae_entries request;
       let prev = lg_prev_index entries;
       (if \<not> ok
           \<or> prev > get_latest_index log
           \<or> (prev \<ge> lg_prev_index log \<and> get_entry_term log prev \<noteq> Some (lg_prev_term entries))
        then Some (m, reply m False)
        else
          do {
            (m, conflict) \<leftarrow> store_entries entries m;
            m \<leftarrow> refresh_latest ap conflict m;
            m \<leftarrow> (if ae_leader_commit request > sc_log_index (mb_committed_state m)
                  then update_commit_index ap (min (ae_leader_commit request) (get_latest_index entries)) m
                  else Some m);
            Some (m, reply m True)
          })
     }"

section \<open>Elections\<close>

text \<open>
  The watchdog fires at a follower, or an election times out at a candidate:
  \<open>candidate_run_election\<close> up to the point where it waits. The result has the request sent to the peers.
\<close>

definition run_election :: "raft_member_id \<Rightarrow> ('s, 'c) raft_member \<Rightarrow> (('s, 'c) raft_member \<times> request_vote) option" where
  "run_election this_id m =
     (if mb_mode m = Candidate then
        do {
          m \<leftarrow> member_update_term (ps_current_term (mb_ps m) + 1) this_id m;
          let votes = {this_id};
          let log = ps_log (mb_ps m);
          t \<leftarrow> get_entry_term log (get_latest_index log);
          Some (m\<lparr>mb_votes := votes, mb_won := complex_is_quorum (sc_config (mb_latest_state m)) votes\<rparr>,
            \<lparr>rv_term = ps_current_term (mb_ps m), rv_candidate_id = this_id,
             rv_last_log_index = get_latest_index log, rv_last_log_term = t\<rparr>)
        }
      else None)"

definition on_watchdog :: "raft_member_id \<Rightarrow> ('s, 'c) raft_member \<Rightarrow> (('s, 'c) raft_member \<times> request_vote) option" where
  "on_watchdog this_id m = (if mb_mode m = Follower then run_election this_id (m\<lparr>mb_mode := Candidate\<rparr>) else None)"

text \<open>
  \<open>candidate_or_leader_note_term\<close>: whether the term of a reply is newer; the coroutine it then starts
  runs later, when the mutex is free again.
\<close>

definition note_term :: "raft_term \<Rightarrow> ('s, 'c) raft_member \<Rightarrow> bool option" where
  "note_term t m = (if mb_mode m = Follower then None else Some (t > ps_current_term (mb_ps m)))"

definition note_term_coro :: "raft_term \<Rightarrow> raft_term \<Rightarrow> ('s, 'c) raft_member \<Rightarrow> ('s, 'c) raft_member option" where
  "note_term_coro local_current_term t m =
     (if ps_current_term (mb_ps m) = local_current_term
      then do { m \<leftarrow> step_down m; member_update_term t nil_uuid m } else Some m)"

text \<open>A reply to \<open>request_vote\<close>, at a candidate.\<close>

definition on_vote_reply :: "raft_member_id \<Rightarrow> vote_reply \<Rightarrow> ('s, 'c) raft_member \<Rightarrow> ('s, 'c) raft_member option" where
  "on_vote_reply peer reply m =
     (if mb_mode m = Candidate then
        do {
          newer \<leftarrow> note_term (vr_term reply) m;
          (if newer \<or> \<not> vr_vote_granted reply then Some m
           else
             let votes = insert peer (mb_votes m)
             in Some (m\<lparr>mb_votes := votes,
                  mb_won := mb_won m \<or> complex_is_quorum (sc_config (mb_latest_state m)) votes\<rparr>))
        }
      else None)"

section \<open>The leader\<close>

text \<open>The loop of \<open>leader_update_match_index\<close>.\<close>

fun commit_loop :: "('s, 'c) raft_member \<Rightarrow> raft_log_index list \<Rightarrow> raft_log_index \<Rightarrow> raft_log_index option" where
  "commit_loop m [] new_commit_index = Some new_commit_index"
| "commit_loop m (n # ns) new_commit_index =
     do {
       t \<leftarrow> get_entry_term (ps_log (mb_ps m)) n;
       (if t \<noteq> ps_current_term (mb_ps m) then commit_loop m ns new_commit_index
        else
          let approving_members = fst ` set (filter (\<lambda>(k, v). v \<ge> n) (mb_match_indexes m))
          in if complex_is_quorum (sc_config (mb_latest_state m)) approving_members
             then commit_loop m ns n else Some new_commit_index)
     }"

definition leader_update_match_index :: "('s, 'c) apply_fn \<Rightarrow> raft_member_id \<Rightarrow> raft_log_index
    \<Rightarrow> ('s, 'c) raft_member \<Rightarrow> ('s, 'c) raft_member option" where
  "leader_update_match_index ap key new_value m =
     (if mb_mode m = Leader then
        do {
          v \<leftarrow> map_of (mb_match_indexes m) key;
          (if v \<le> new_value then
             do {
               let m = m\<lparr>mb_match_indexes := omap_assign key new_value (mb_match_indexes m)\<rparr>;
               let old_commit_index = sc_log_index (mb_committed_state m);
               new_commit_index \<leftarrow> commit_loop m
                 (index_range (old_commit_index + 1) (get_latest_index (ps_log (mb_ps m)))) old_commit_index;
               (if new_commit_index \<noteq> old_commit_index then update_commit_index ap new_commit_index m else Some m)
             }
           else None)
        }
      else None)"

definition leader_append_log_entry :: "('s, 'c) apply_fn \<Rightarrow> raft_member_id \<Rightarrow> 'c raft_log_entry
    \<Rightarrow> ('s, 'c) raft_member \<Rightarrow> ('s, 'c) raft_member option" where
  "leader_append_log_entry ap this_id log_entry m =
     (if mb_mode m = Leader \<and> le_term log_entry = ps_current_term (mb_ps m) then
        do {
          let m = m\<lparr>mb_storage := write_log_append_one log_entry (mb_storage m)\<rparr>;
          let log = ps_log (mb_ps m);
          let s = mb_latest_state m;
          (if sc_log_index s + 1 = get_latest_index log then
             do {
               latest \<leftarrow> apply_log_entries ap log (sc_log_index s + 1) (sc_log_index s + 1) s;
               let m = m\<lparr>mb_latest_state := latest\<rparr>;
               v \<leftarrow> map_of (mb_match_indexes m) this_id;
               (if v + 1 = get_latest_index log
                then leader_update_match_index ap this_id (get_latest_index log) m else None)
             }
           else None)
        }
      else None)"

text \<open>
  Winning: the end of \<open>candidate_run_election\<close> and the start of the leader's part of
  \<open>candidate_and_leader_coro\<close>.
\<close>

definition become_leader :: "('s, 'c) apply_fn \<Rightarrow> raft_member_id \<Rightarrow> ('s, 'c) raft_member \<Rightarrow> ('s, 'c) raft_member option" where
  "become_leader ap this_id m =
     (if mb_mode m = Candidate \<and> mb_won m then
        (if is_nil (mb_current_term_leader_id m) \<and> mb_match_indexes m = [] then
           (let m = m\<lparr>mb_mode := Leader, mb_current_term_leader_id := this_id,
                  mb_match_indexes := [(this_id, get_latest_index (ps_log (mb_ps m)))]\<rparr>
            in leader_append_log_entry ap this_id
                 \<lparr>le_type = Log_noop, le_term = ps_current_term (mb_ps m), le_change = None, le_config = None\<rparr> m)
         else None)
      else None)"

text \<open>
  \<open>leader_spawn_update_coros\<close>: \<open>match_indexes\<close> has an entry for every peer that updates are sent to,
  besides the leader's own.
\<close>

definition leader_spawn_update_coros :: "raft_member_id \<Rightarrow> ('s, 'c) raft_member \<Rightarrow> ('s, 'c) raft_member option" where
  "leader_spawn_update_coros this_id m =
     (if mb_mode m = Leader then
        (let peers = complex_all_members (sc_config (mb_latest_state m));
             added = fold (\<lambda>peer. omap_insert peer 0) (sorted_list_of_set (peers - {this_id})) (mb_match_indexes m)
         in Some (m\<lparr>mb_match_indexes := filter (\<lambda>(k, v). k = this_id \<or> k \<in> peers) added\<rparr>))
      else None)"

definition leader_continue_reconfiguration :: "('s, 'c) apply_fn \<Rightarrow> raft_member_id \<Rightarrow> ('s, 'c) raft_member
    \<Rightarrow> ('s, 'c) raft_member option" where
  "leader_continue_reconfiguration ap this_id m =
     (if mb_mode m = Leader then
        (let committed = sc_config (mb_committed_state m); latest = sc_config (mb_latest_state m)
         in if \<not> complex_is_valid_leader committed this_id \<and> \<not> complex_is_valid_leader latest this_id
            then Some m
            else if is_joint_consensus committed \<and> is_joint_consensus latest then
              do {
                new_config \<leftarrow> cc_new_config committed;
                leader_append_log_entry ap this_id
                  \<lparr>le_type = Log_config, le_term = ps_current_term (mb_ps m), le_change = None,
                   le_config = Some \<lparr>cc_config = new_config, cc_new_config = None\<rparr>\<rparr> m
              }
            else Some m)
      else None)"

text \<open>
  What \<open>leader_send_updates\<close> sends to a peer whose next entry is \<open>next_index\<close>, and what it does with
  the reply; the next \<open>next_index\<close> is part of the result.
\<close>

definition make_install_snapshot :: "raft_member_id \<Rightarrow> ('s, 'c) raft_member \<Rightarrow> 's install_snapshot" where
  "make_install_snapshot this_id m =
     \<lparr>is_term = ps_current_term (mb_ps m), is_leader_id = this_id,
      is_last_included_index = lg_prev_index (ps_log (mb_ps m)),
      is_last_included_term = lg_prev_term (ps_log (mb_ps m)),
      is_snapshot_state = ps_snapshot_state (mb_ps m), is_snapshot_config = ps_snapshot_config (mb_ps m)\<rparr>"

definition make_append_entries :: "raft_member_id \<Rightarrow> raft_log_index \<Rightarrow> ('s, 'c) raft_member
    \<Rightarrow> 'c append_entries option" where
  "make_append_entries this_id next_index m =
     do {
       let log = ps_log (mb_ps m);
       t \<leftarrow> get_entry_term log (next_index - 1);
       entries \<leftarrow> fold_opt (\<lambda>i l. do { e \<leftarrow> get_entry_ref log i; Some (log_append e l) })
         (index_range next_index (get_latest_index log))
         \<lparr>lg_prev_index = next_index - 1, lg_prev_term = t, lg_entries = []\<rparr>;
       (if get_latest_index entries = get_latest_index log
        then Some \<lparr>ae_term = ps_current_term (mb_ps m), ae_leader_id = this_id, ae_entries = entries,
               ae_leader_commit = sc_log_index (mb_committed_state m)\<rparr>
        else None)
     }"

definition on_snapshot_reply :: "('s, 'c) apply_fn \<Rightarrow> raft_member_id \<Rightarrow> 's install_snapshot \<Rightarrow> raft_term
    \<Rightarrow> ('s, 'c) raft_member \<Rightarrow> (('s, 'c) raft_member \<times> raft_log_index option) option" where
  "on_snapshot_reply ap peer request reply_term m =
     do {
       newer \<leftarrow> note_term reply_term m;
       (if newer then Some (m, None)
        else do {
          m \<leftarrow> leader_update_match_index ap peer (is_last_included_index request) m;
          Some (m, Some (is_last_included_index request + 1))
        })
     }"

definition on_append_reply :: "('s, 'c) apply_fn \<Rightarrow> raft_member_id \<Rightarrow> raft_log_index \<Rightarrow> 'c append_entries \<Rightarrow> append_reply
    \<Rightarrow> ('s, 'c) raft_member \<Rightarrow> (('s, 'c) raft_member \<times> raft_log_index option) option" where
  "on_append_reply ap peer next_index request reply m =
     do {
       newer \<leftarrow> note_term (ar_term reply) m;
       (if newer then Some (m, None)
        else if ar_success reply then
          do {
            let i = get_latest_index (ae_entries request);
            v \<leftarrow> map_of (mb_match_indexes m) peer;
            m \<leftarrow> (if v < i then leader_update_match_index ap peer i m else Some m);
            Some (m, Some (i + 1))
          }
        else Some (m, Some (next_index - 1)))
     }"

section \<open>Proposals\<close>

text \<open>
  Whether changes and configuration changes are accepted, given the members in contact.
\<close>

definition update_readiness_for_change :: "raft_member_id set \<Rightarrow> ('s, 'c) raft_member \<Rightarrow> bool \<times> bool" where
  "update_readiness_for_change peers m =
     (if mb_mode m = Leader \<and> complex_is_quorum (sc_config (mb_latest_state m)) peers
      then (True, \<not> is_joint_consensus (sc_config (mb_committed_state m)) \<and>
                  \<not> is_joint_consensus (sc_config (mb_latest_state m)))
      else (False, False))"

text \<open>\<open>ready\<close> is \<open>readiness_for_change\<close> or \<open>readiness_for_config_change\<close>; without it nothing is proposed.\<close>

definition propose_entry :: "('s, 'c) apply_fn \<Rightarrow> raft_member_id \<Rightarrow> 'c raft_log_entry \<Rightarrow> ('s, 'c) raft_member
    \<Rightarrow> ('s, 'c) raft_member option" where
  "propose_entry ap this_id new_entry m =
     do {
       let log_index = get_latest_index (ps_log (mb_ps m)) + 1;
       m \<leftarrow> leader_append_log_entry ap this_id new_entry m;
       (if get_latest_index (ps_log (mb_ps m)) = log_index then Some m else None)
     }"

definition propose_change :: "('s, 'c) apply_fn \<Rightarrow> raft_member_id \<Rightarrow> bool \<Rightarrow> 'c \<Rightarrow> ('s, 'c) raft_member
    \<Rightarrow> ('s, 'c) raft_member option" where
  "propose_change ap this_id ready change m =
     (if ready
      then propose_entry ap this_id \<lparr>le_type = Log_regular, le_term = ps_current_term (mb_ps m),
             le_change = Some change, le_config = None\<rparr> m
      else Some m)"

definition propose_config_change :: "('s, 'c) apply_fn \<Rightarrow> raft_member_id \<Rightarrow> bool \<Rightarrow> raft_config \<Rightarrow> ('s, 'c) raft_member
    \<Rightarrow> ('s, 'c) raft_member option" where
  "propose_config_change ap this_id ready new_config m =
     (if ready then
        (if is_joint_consensus (sc_config (mb_committed_state m)) \<or> is_joint_consensus (sc_config (mb_latest_state m))
         then None
         else propose_entry ap this_id \<lparr>le_type = Log_config, le_term = ps_current_term (mb_ps m),
                le_change = None,
                le_config = Some \<lparr>cc_config = cc_config (sc_config (mb_latest_state m)),
                  cc_new_config = Some new_config\<rparr>\<rparr> m)
      else Some m)"

definition propose_noop :: "('s, 'c) apply_fn \<Rightarrow> raft_member_id \<Rightarrow> bool \<Rightarrow> ('s, 'c) raft_member
    \<Rightarrow> ('s, 'c) raft_member option" where
  "propose_noop ap this_id ready m =
     (if ready
      then propose_entry ap this_id \<lparr>le_type = Log_noop, le_term = ps_current_term (mb_ps m),
             le_change = None, le_config = None\<rparr> m
      else Some m)"

text \<open>\<open>make_initial\<close> and \<open>get_state_for_init\<close>: the states members start from.\<close>

definition make_initial :: "'s \<Rightarrow> raft_config \<Rightarrow> ('s, 'c) raft_persistent_state" where
  "make_initial initial_state initial_config =
     \<lparr>ps_current_term = 0, ps_voted_for = nil_uuid, ps_snapshot_state = initial_state,
      ps_snapshot_config = \<lparr>cc_config = initial_config, cc_new_config = None\<rparr>,
      ps_log = \<lparr>lg_prev_index = 0, lg_prev_term = 0, lg_entries = []\<rparr>, ps_commit_index = 0\<rparr>"

definition get_state_for_init :: "('s, 'c) raft_member \<Rightarrow> ('s, 'c) raft_persistent_state" where
  "get_state_for_init m = (mb_ps m)\<lparr>ps_voted_for := nil_uuid\<rparr>"

end
