(* ===== verification/Raft_Cluster.thy ===== *)
theory Raft_Cluster
  imports Raft_Member
begin

text \<open>
  Members that exchange messages: a run interleaves the steps of \<open>Raft_Member\<close> at any members in any
  order, with messages of any content, lost, delayed or repeated, and with restarts. The cluster
  keeps which votes were granted and which members were elected.
\<close>

section \<open>What a step leaves alone\<close>

abbreviation mb_term :: "('s, 'c) raft_member \<Rightarrow> raft_term" where
  "mb_term m \<equiv> ps_current_term (mb_ps m)"

abbreviation mb_voted_for :: "('s, 'c) raft_member \<Rightarrow> raft_member_id" where
  "mb_voted_for m \<equiv> ps_voted_for (mb_ps m)"

text \<open>The part of a member's state that elections depend on.\<close>

definition ballot :: "('s, 'c) raft_member \<Rightarrow> raft_term \<times> raft_member_id \<times> raft_mode \<times> raft_member_id set \<times> bool" where
  "ballot m = (mb_term m, mb_voted_for m, mb_mode m, mb_votes m, mb_won m)"

lemma ballot_eq:
  "ballot m' = ballot m \<longleftrightarrow> mb_term m' = mb_term m \<and> mb_voted_for m' = mb_voted_for m \<and> mb_mode m' = mb_mode m
     \<and> mb_votes m' = mb_votes m \<and> mb_won m' = mb_won m"
  by (simp add: ballot_def)

lemma write_snapshot_vote:
  "write_snapshot ss sc c i t ci st = Some st' \<Longrightarrow>
     ps_current_term (rst_state st') = ps_current_term (rst_state st) \<and> ps_voted_for (rst_state st') = ps_voted_for (rst_state st)"
  by (auto simp: write_snapshot_def Let_def split: bind_splits if_splits)

lemma replace_tail_vote:
  "write_log_replace_tail src i st = Some st' \<Longrightarrow>
     ps_current_term (rst_state st') = ps_current_term (rst_state st) \<and> ps_voted_for (rst_state st') = ps_voted_for (rst_state st)"
  by (auto simp: write_log_replace_tail_def Let_def split: bind_splits if_splits)

lemma update_commit_index_ballot:
  assumes "update_commit_index ap i m = Some m'"
  shows "ballot m' = ballot m \<and> mb_latest_state m' = mb_latest_state m"
  using assms
  by (auto simp: update_commit_index_def Let_def ballot_eq mb_ps_def write_commit_index_def
      split: if_splits bind_splits dest!: write_snapshot_vote)

lemma leader_update_match_index_ballot:
  assumes "leader_update_match_index ap k v m = Some m'"
  shows "ballot m' = ballot m \<and> mb_mode m = Leader"
proof -
  have b: "ballot (m\<lparr>mb_match_indexes := x\<rparr>) = ballot m" for x by (simp add: ballot_def mb_ps_def)
  show ?thesis
    using assms update_commit_index_ballot [of ap _ "m\<lparr>mb_match_indexes := omap_assign k v (mb_match_indexes m)\<rparr>" m']
    by (auto simp: leader_update_match_index_def Let_def b split: if_splits bind_splits)
qed

lemma leader_append_log_entry_ballot:
  assumes "leader_append_log_entry ap i e m = Some m'"
  shows "ballot m' = ballot m \<and> mb_mode m = Leader"
proof -
  have b: "ballot (m\<lparr>mb_storage := write_log_append_one e (mb_storage m), mb_latest_state := x\<rparr>) = ballot m" for x
    by (simp add: ballot_def mb_ps_def write_log_append_one_def Let_def)
  obtain x where "leader_update_match_index ap i (get_latest_index (ps_log (rst_state
      (write_log_append_one e (mb_storage m)))))
      (m\<lparr>mb_storage := write_log_append_one e (mb_storage m), mb_latest_state := x\<rparr>) = Some m'" "mb_mode m = Leader"
    using assms by (auto simp: leader_append_log_entry_def Let_def mb_ps_def split: if_splits bind_splits)
  then show ?thesis using leader_update_match_index_ballot b by metis
qed

text \<open>
  Most steps are quiet: the term does not fall, a vote is not changed within a term, and a member
  that stays candidate or leader stays it in the same term, with the same votes.
\<close>

definition quiet :: "('s, 'c) raft_member \<Rightarrow> ('s, 'c) raft_member \<Rightarrow> bool" where
  "quiet m m' \<longleftrightarrow>
     mb_term m \<le> mb_term m' \<and> (mb_term m' = mb_term m \<longrightarrow> mb_voted_for m' = mb_voted_for m)
     \<and> (mb_mode m' \<noteq> Follower \<longrightarrow> ballot m' = ballot m \<and> (mb_mode m = Candidate \<longrightarrow> mb_latest_state m' = mb_latest_state m))"

lemma quiet_refl [simp]: "quiet m m"
  by (simp add: quiet_def)

lemma quiet_trans: "quiet m m' \<Longrightarrow> quiet m' m'' \<Longrightarrow> quiet m m''"
  by (auto simp: quiet_def ballot_eq)

lemma quiet_ballot: "ballot m' = ballot m \<Longrightarrow> mb_mode m \<noteq> Candidate \<Longrightarrow> quiet m m'"
  by (auto simp: quiet_def ballot_eq)

lemma step_down_quiet: "step_down m = Some m' \<Longrightarrow> quiet m m' \<and> mb_mode m' = Follower \<and> mb_term m' = mb_term m"
  by (auto simp: step_down_def become_follower_def quiet_def mb_ps_def split: if_splits)

lemma become_follower_quiet:
  "become_follower m = Some m' \<Longrightarrow> quiet m m' \<and> mb_mode m' = Follower \<and> mb_term m' = mb_term m"
  by (auto simp: become_follower_def quiet_def mb_ps_def split: if_splits)

lemma update_term_quiet:
  "member_update_term t v m = Some m' \<Longrightarrow> mb_mode m = Follower \<Longrightarrow>
     quiet m m' \<and> mb_mode m' = Follower \<and> mb_term m' = t \<and> mb_voted_for m' = v \<and> mb_term m < t"
  by (auto simp: member_update_term_def quiet_def mb_ps_def write_current_term_and_voted_for_def Let_def split: if_splits)

lemma catch_up_quiet:
  assumes "(if t > mb_term m then do { m \<leftarrow> step_down m; member_update_term t nil_uuid m } else Some m) = Some m'"
  shows "quiet m m' \<and> t \<le> mb_term m' \<and> (mb_term m' = mb_term m \<or> mb_mode m' = Follower \<and> mb_term m' = t \<and> mb_voted_for m' = nil_uuid)"
proof (cases "t > mb_term m")
  case True
  then obtain m1 where m1: "step_down m = Some m1" "member_update_term t nil_uuid m1 = Some m'"
    using assms by (auto split: bind_splits)
  have "quiet m m1" "mb_mode m1 = Follower" using step_down_quiet [OF m1(1)] by auto
  then show ?thesis using update_term_quiet [OF m1(2)] quiet_trans by blast
next
  case False
  then show ?thesis using assms by auto
qed

lemma on_rpc_from_leader_quiet:
  assumes "on_rpc_from_leader i l t m = Some (m', ok)"
  shows "quiet m m' \<and> (ok \<longrightarrow> mb_mode m' = Follower)"
proof -
  obtain m1 where m1: "(if t > mb_term m then do { m \<leftarrow> step_down m; member_update_term t nil_uuid m } else Some m) = Some m1"
      and rest: "(if t < mb_term m1 then Some (m1, False)
           else
             do {
               m \<leftarrow> (if mb_mode m1 = Candidate then become_follower m1 else Some m1);
               (if mb_mode m = Leader then None
                else if is_nil (mb_current_term_leader_id m)
                then Some (m\<lparr>mb_current_term_leader_id := l\<rparr>, True)
                else if mb_current_term_leader_id m = l then Some (m, True)
                else None)
             }) = Some (m', ok)"
    using assms by (auto simp: on_rpc_from_leader_def split: if_splits bind_splits)
  have q1: "quiet m m1" using catch_up_quiet [OF m1] by simp
  have led: "quiet x (x\<lparr>mb_current_term_leader_id := l\<rparr>)" for x :: "('a, 'b) raft_member"
    by (simp add: quiet_def ballot_def mb_ps_def)
  show ?thesis
  proof (cases "t < mb_term m1")
    case True
    then show ?thesis using rest q1 by simp
  next
    case False
    then obtain m2 where m2: "(if mb_mode m1 = Candidate then become_follower m1 else Some m1) = Some m2"
        "mb_mode m2 \<noteq> Leader" "ok" "m' = m2 \<or> m' = m2\<lparr>mb_current_term_leader_id := l\<rparr>"
      using rest by (auto split: bind_splits if_splits)
    have "quiet m1 m2 \<and> mb_mode m2 = Follower"
      using m2(1,2) become_follower_quiet [of m1 m2] by (cases "mb_mode m1") auto
    then show ?thesis using q1 m2(3,4) led [of m2] quiet_trans by (metis (no_types) raft_member.simps(2) raft_member.surjective raft_member.update_convs(3))
  qed
qed

text \<open>A step of a follower that keeps term, vote and mode.\<close>

lemma quiet_follower:
  "mb_mode m = Follower \<Longrightarrow> mb_mode m' = Follower \<Longrightarrow> mb_term m' = mb_term m \<Longrightarrow> mb_voted_for m' = mb_voted_for m \<Longrightarrow>
     quiet m m'"
  by (simp add: quiet_def)

lemma on_install_snapshot_quiet:
  assumes "on_install_snapshot_rpc i rq m = Some (m', r)"
  shows "quiet m m'"
proof -
  obtain m1 ok where m1: "on_rpc_from_leader i (is_leader_id rq) (is_term rq) m = Some (m1, ok)"
    using assms by (auto simp: on_install_snapshot_rpc_def split: bind_splits)
  have "m' = m1 \<or> mb_mode m1 = Follower \<and> mb_mode m' = Follower \<and> mb_term m' = mb_term m1 \<and> mb_voted_for m' = mb_voted_for m1"
    using assms on_rpc_from_leader_quiet [OF m1]
    by (auto simp: on_install_snapshot_rpc_def m1 Let_def mb_ps_def split: if_splits bind_splits dest!: write_snapshot_vote)
  then show ?thesis using on_rpc_from_leader_quiet [OF m1] quiet_follower quiet_trans by blast
qed

lemma on_append_entries_quiet:
  assumes "on_append_entries_rpc ap i rq m = Some (m', r)"
  shows "quiet m m'"
proof -
  obtain m1 ok where m1: "on_rpc_from_leader i (ae_leader_id rq) (ae_term rq) m = Some (m1, ok)"
    using assms by (auto simp: on_append_entries_rpc_def split: bind_splits)
  note q1 = on_rpc_from_leader_quiet [OF m1]
  show ?thesis
  proof (cases "m' = m1")
    case True
    then show ?thesis using q1 by simp
  next
    case False
    have ok: ok using assms False by (auto simp: on_append_entries_rpc_def m1 Let_def split: if_splits)
    obtain m2 c m3 where m2: "store_entries (ae_entries rq) m1 = Some (m2, c)" and m3: "refresh_latest ap c m2 = Some m3"
      and m': "(if ae_leader_commit rq > sc_log_index (mb_committed_state m3)
            then update_commit_index ap (min (ae_leader_commit rq) (get_latest_index (ae_entries rq))) m3
            else Some m3) = Some m'"
      using assms False by (auto simp: on_append_entries_rpc_def m1 Let_def split: if_split_asm bind_splits)
    have f: "mb_mode m1 = Follower" using q1 ok by simp
    have m2': "mb_mode m2 = Follower \<and> mb_term m2 = mb_term m1 \<and> mb_voted_for m2 = mb_voted_for m1"
      using m2 f by (auto simp: store_entries_def Let_def mb_ps_def split: if_splits bind_splits dest!: replace_tail_vote)
    have m3': "ballot m3 = ballot m2"
      using m3 by (auto simp: refresh_latest_def Let_def ballot_eq mb_ps_def)
    have "ballot m' = ballot m3"
      using m' update_commit_index_ballot [of ap _ m3 m'] by (auto split: if_splits)
    then have "mb_mode m' = Follower" "mb_term m' = mb_term m1" "mb_voted_for m' = mb_voted_for m1"
      using m2' m3' by (simp_all add: ballot_eq)
    then show ?thesis using quiet_trans [of m m1 m'] q1 quiet_follower [of m1 m'] f by simp
  qed
qed

lemma note_term_coro_quiet:
  assumes "note_term_coro lt t m = Some m'"
  shows "quiet m m'"
proof (cases "mb_term m = lt")
  case True
  then obtain m1 where m1: "step_down m = Some m1" "member_update_term t nil_uuid m1 = Some m'"
    using assms by (auto simp: note_term_coro_def split: bind_splits)
  then show ?thesis using step_down_quiet [OF m1(1)] update_term_quiet [OF m1(2)] quiet_trans by blast
next
  case False
  then show ?thesis using assms by (simp add: note_term_coro_def)
qed

lemma append_log_entry_quiet: "leader_append_log_entry ap i e m = Some m' \<Longrightarrow> quiet m m'"
  using leader_append_log_entry_ballot by (metis quiet_ballot raft_mode.distinct(5))

lemma propose_entry_quiet: "propose_entry ap i e m = Some m' \<Longrightarrow> quiet m m'"
  by (auto simp: propose_entry_def Let_def split: bind_splits if_splits intro: append_log_entry_quiet)

lemma update_match_index_quiet: "leader_update_match_index ap k v m = Some m' \<Longrightarrow> quiet m m'"
  using leader_update_match_index_ballot by (metis quiet_ballot raft_mode.distinct(5))

section \<open>Steps of one member\<close>

text \<open>
  Everything a member does besides voting, standing for election, winning and taking a snapshot from a
  leader. Updates are sent to the peers only.
\<close>

inductive local_step :: "('s, 'c) apply_fn \<Rightarrow> raft_member_id \<Rightarrow> ('s, 'c) raft_member \<Rightarrow> ('s, 'c) raft_member \<Rightarrow> bool"
  for ap :: "('s, 'c) apply_fn" and i :: raft_member_id where
  append: "on_append_entries_rpc ap i rq m = Some (m', r) \<Longrightarrow> local_step ap i m m'"
| heartbeat: "on_rpc_from_leader i l t m = Some (m', ok) \<Longrightarrow> local_step ap i m m'"
| noted: "note_term_coro lt t m = Some m' \<Longrightarrow> local_step ap i m m'"
| spawned: "leader_spawn_update_coros i m = Some m' \<Longrightarrow> local_step ap i m m'"
| reconfigured: "leader_continue_reconfiguration ap i m = Some m' \<Longrightarrow> local_step ap i m m'"
| snapshot_reply: "peer \<noteq> i \<Longrightarrow> on_snapshot_reply ap peer irq rt m = Some (m', n) \<Longrightarrow> local_step ap i m m'"
| append_reply: "peer \<noteq> i \<Longrightarrow> on_append_reply ap peer ni rq r m = Some (m', n) \<Longrightarrow> local_step ap i m m'"
| change: "propose_change ap i ready c m = Some m' \<Longrightarrow> local_step ap i m m'"
| config_change: "propose_config_change ap i ready cfg m = Some m' \<Longrightarrow> local_step ap i m m'"
| noop: "propose_noop ap i ready m = Some m' \<Longrightarrow> local_step ap i m m'"
| restart: "member_init ap (mb_storage m) = Some m' \<Longrightarrow> local_step ap i m m'"

lemma local_step_quiet: "local_step ap i m m' \<Longrightarrow> quiet m m'"
proof (induction rule: local_step.induct)
  case (append rq m m' r)
  then show ?case by (rule on_append_entries_quiet)
next
  case (heartbeat l t m m' ok)
  then show ?case using on_rpc_from_leader_quiet by blast
next
  case (noted lt t m m')
  then show ?case by (rule note_term_coro_quiet)
next
  case (spawned m m')
  then have "ballot m' = ballot m \<and> mb_mode m = Leader"
    by (auto simp: leader_spawn_update_coros_def Let_def ballot_eq mb_ps_def split: if_splits)
  then show ?case by (intro quiet_ballot) simp_all
next
  case (reconfigured m m')
  then show ?case
    by (auto simp: leader_continue_reconfiguration_def Let_def split: if_splits bind_splits intro: append_log_entry_quiet)
next
  case (snapshot_reply peer irq rt m m' n)
  then show ?case by (auto simp: on_snapshot_reply_def split: if_splits bind_splits intro: update_match_index_quiet)
next
  case (append_reply peer ni rq r m m' n)
  then show ?case
    by (auto simp: on_append_reply_def Let_def split: if_splits bind_splits intro: update_match_index_quiet)
next
  case (change ready c m m')
  then show ?case by (auto simp: propose_change_def split: if_splits intro: propose_entry_quiet)
next
  case (config_change ready cfg m m')
  then show ?case by (auto simp: propose_config_change_def split: if_splits intro: propose_entry_quiet)
next
  case (noop ready m m')
  then show ?case by (auto simp: propose_noop_def split: if_splits intro: propose_entry_quiet)
next
  case (restart m m')
  then have "mb_storage m' = mb_storage m \<and> mb_mode m' = Follower"
    by (auto simp: member_init_def Let_def split: bind_splits)
  then show ?case by (simp add: quiet_def mb_ps_def)
qed

section \<open>Voting and winning\<close>

lemma vote_effect:
  assumes "on_request_vote_rpc i heard rq m = Some (m', r)" and i: "\<not> is_nil i"
  shows "if vr_vote_granted r
    then mb_mode m' = Follower \<and> mb_term m' = rv_term rq \<and> mb_voted_for m' = rv_candidate_id rq \<and> mb_term m \<le> mb_term m'
      \<and> (mb_term m' = mb_term m \<longrightarrow> is_nil (mb_voted_for m) \<or> mb_voted_for m = rv_candidate_id rq)
    else quiet m m'"
proof (cases "(mb_mode m = Leader \<and> \<not> complex_is_member (sc_config (mb_latest_state m)) (rv_candidate_id rq))
    \<or> (mb_mode m = Follower \<and> heard)")
  case True
  then have "m' = m \<and> \<not> vr_vote_granted r" using assms(1) by (auto simp: on_request_vote_rpc_def Let_def)
  then show ?thesis by simp
next
  case False
  then obtain m1 where m1: "(if rv_term rq > mb_term m
        then do { m \<leftarrow> step_down m; member_update_term (rv_term rq) nil_uuid m } else Some m) = Some m1"
    using assms(1) by (auto simp: on_request_vote_rpc_def Let_def split: bind_splits)
  note q = catch_up_quiet [OF m1]
  have h: "(m' = m1 \<and> \<not> vr_vote_granted r) \<or>
      (rv_term rq \<ge> mb_term m1 \<and> rv_candidate_id rq \<noteq> i \<and> (mb_mode m1 = Follower \<or> mb_voted_for m1 = i)
       \<and> (is_nil (mb_voted_for m1) \<or> mb_voted_for m1 = rv_candidate_id rq) \<and> vr_vote_granted r
       \<and> m' = m1\<lparr>mb_storage := write_current_term_and_voted_for (mb_term m1) (rv_candidate_id rq) (mb_storage m1)\<rparr>)"
    using assms(1) False m1
    by (auto simp: on_request_vote_rpc_def Let_def split: if_split_asm bind_splits)
  show ?thesis
  proof (cases "vr_vote_granted r")
    case False
    then show ?thesis using q h by simp
  next
    case True
    have a: "rv_term rq \<ge> mb_term m1" "rv_candidate_id rq \<noteq> i" "mb_mode m1 = Follower \<or> mb_voted_for m1 = i"
      "is_nil (mb_voted_for m1) \<or> mb_voted_for m1 = rv_candidate_id rq" "vr_vote_granted r"
      "m' = m1\<lparr>mb_storage := write_current_term_and_voted_for (mb_term m1) (rv_candidate_id rq) (mb_storage m1)\<rparr>"
      using h True by simp_all
    have f: "mb_mode m1 = Follower" using a(2,3,4) i by auto
    have t: "rv_term rq = mb_term m1" using a(1) q by auto
    have m': "mb_mode m' = mb_mode m1" "mb_term m' = mb_term m1" "mb_voted_for m' = rv_candidate_id rq"
      using a(6) by (simp_all add: mb_ps_def write_current_term_and_voted_for_def Let_def)
    have "mb_term m \<le> mb_term m1" "mb_term m1 = mb_term m \<longrightarrow> mb_voted_for m1 = mb_voted_for m" using q by (simp_all add: quiet_def)
    then show ?thesis using a(4,5) f t m' by auto
  qed
qed

lemma run_election_effect:
  assumes "run_election i m = Some (m', rq)"
  shows "mb_mode m' = Candidate \<and> mb_term m < mb_term m' \<and> mb_voted_for m' = i \<and> mb_votes m' = {i}
    \<and> (mb_won m' \<longrightarrow> complex_is_quorum (sc_config (mb_latest_state m')) (mb_votes m'))
    \<and> rv_term rq = mb_term m' \<and> rv_candidate_id rq = i"
  using assms
  by (auto simp: run_election_def member_update_term_def mb_ps_def write_current_term_and_voted_for_def Let_def
      split: if_splits bind_splits)

lemma on_watchdog_effect:
  assumes "on_watchdog i m = Some (m', rq)"
  shows "mb_mode m' = Candidate \<and> mb_term m < mb_term m' \<and> mb_voted_for m' = i \<and> mb_votes m' = {i}
    \<and> (mb_won m' \<longrightarrow> complex_is_quorum (sc_config (mb_latest_state m')) (mb_votes m'))
    \<and> rv_term rq = mb_term m' \<and> rv_candidate_id rq = i"
  using assms run_election_effect [of i "m\<lparr>mb_mode := Candidate\<rparr>" m' rq]
  by (auto simp: on_watchdog_def mb_ps_def split: if_splits)

lemma on_vote_reply_effect:
  assumes "on_vote_reply p r m = Some m'"
  shows "mb_mode m = Candidate \<and> mb_mode m' = Candidate \<and> mb_term m' = mb_term m \<and> mb_voted_for m' = mb_voted_for m
    \<and> mb_latest_state m' = mb_latest_state m
    \<and> (m' = m \<or> vr_vote_granted r \<and> vr_term r \<le> mb_term m \<and> mb_votes m' = insert p (mb_votes m)
         \<and> mb_won m' = (mb_won m \<or> complex_is_quorum (sc_config (mb_latest_state m)) (mb_votes m')))"
  using assms by (auto simp: on_vote_reply_def note_term_def Let_def mb_ps_def split: if_splits)

lemma become_leader_effect:
  assumes "become_leader ap i m = Some m'"
  shows "mb_mode m = Candidate \<and> mb_won m \<and> mb_mode m' = Leader \<and> mb_term m' = mb_term m
    \<and> mb_voted_for m' = mb_voted_for m"
proof -
  obtain m1 e where m1: "leader_append_log_entry ap i e m1 = Some m'" and c: "mb_mode m = Candidate" "mb_won m"
    and e: "m1 = m\<lparr>mb_mode := Leader, mb_current_term_leader_id := i,
        mb_match_indexes := [(i, get_latest_index (ps_log (mb_ps m)))]\<rparr>"
    using assms by (auto simp: become_leader_def Let_def split: if_splits)
  then show ?thesis using leader_append_log_entry_ballot [OF m1] by (simp add: ballot_eq mb_ps_def)
qed


section \<open>The cluster\<close>

text \<open>
  \<open>cl_granted\<close> has (voter, candidate, term) for every vote, that of a candidate for itself included,
  and \<open>cl_elected\<close> has (term, leader, configuration) for every election won. They record the run; no
  step reads \<open>cl_elected\<close>, and \<open>cl_granted\<close> says which replies can be in transit.
\<close>

record ('s, 'c) raft_cluster =
  cl_members :: "raft_member_id \<Rightarrow> ('s, 'c) raft_member"
  cl_granted :: "(raft_member_id \<times> raft_member_id \<times> raft_term) set"
  cl_elected :: "(raft_term \<times> raft_member_id \<times> raft_complex_config) set"

abbreviation at_member :: "raft_member_id \<Rightarrow> ('s, 'c) raft_member \<Rightarrow> ('s, 'c) raft_cluster \<Rightarrow> ('s, 'c) raft_cluster" where
  "at_member i m cl \<equiv> cl\<lparr>cl_members := (cl_members cl)(i := m)\<rparr>"

text \<open>
  Every member starts from what its storage holds, in any state. One that joins later is one
  that takes no step before. A reply that grants a vote arrives while the election it belongs to runs.
\<close>

inductive reachable :: "('s, 'c) apply_fn \<Rightarrow> ('s, 'c) raft_cluster \<Rightarrow> bool" for ap :: "('s, 'c) apply_fn" where
  start: "(\<And>i. member_init ap (st i) = Some (ms i)) \<Longrightarrow>
     reachable ap \<lparr>cl_members = ms, cl_granted = {}, cl_elected = {}\<rparr>"
| local: "reachable ap cl \<Longrightarrow> local_step ap i (cl_members cl i) m \<Longrightarrow> reachable ap (at_member i m cl)"
| install: "reachable ap cl \<Longrightarrow> on_install_snapshot_rpc i irq (cl_members cl i) = Some (m, rt) \<Longrightarrow>
     reachable ap (at_member i m cl)"
| vote: "reachable ap cl \<Longrightarrow> \<not> is_nil i \<Longrightarrow> \<not> is_nil (rv_candidate_id rq) \<Longrightarrow>
     on_request_vote_rpc i heard rq (cl_members cl i) = Some (m, r) \<Longrightarrow>
     reachable ap (at_member i m (cl\<lparr>cl_granted :=
       (if vr_vote_granted r then insert (i, rv_candidate_id rq, rv_term rq) (cl_granted cl) else cl_granted cl)\<rparr>))"
| stand: "reachable ap cl \<Longrightarrow> \<not> is_nil i \<Longrightarrow>
     on_watchdog i (cl_members cl i) = Some (m, rq) \<or> run_election i (cl_members cl i) = Some (m, rq) \<Longrightarrow>
     reachable ap (at_member i m (cl\<lparr>cl_granted := insert (i, i, rv_term rq) (cl_granted cl)\<rparr>))"
| counted: "reachable ap cl \<Longrightarrow> on_vote_reply p r (cl_members cl i) = Some m \<Longrightarrow>
     (vr_vote_granted r \<Longrightarrow> (p, i, mb_term (cl_members cl i)) \<in> cl_granted cl) \<Longrightarrow> reachable ap (at_member i m cl)"
| lead: "reachable ap cl \<Longrightarrow> become_leader ap i (cl_members cl i) = Some m \<Longrightarrow>
     reachable ap (at_member i m (cl\<lparr>cl_elected :=
       insert (mb_term m, i, sc_config (mb_latest_state (cl_members cl i))) (cl_elected cl)\<rparr>))"

text \<open>
  The invariant. A member keeps to the votes it gave; votes a candidate counts were given; an
  elected member was given the votes of a quorum; a leader was elected in its term.
\<close>

definition kept :: "raft_member_id \<Rightarrow> raft_member_id \<Rightarrow> raft_term \<Rightarrow> ('s, 'c) raft_member \<Rightarrow> bool" where
  "kept v c t m \<longleftrightarrow> \<not> is_nil c \<and> (t < mb_term m \<or> t = mb_term m \<and> mb_voted_for m = c)"

definition counts :: "(raft_member_id \<times> raft_member_id \<times> raft_term) set \<Rightarrow> raft_member_id \<Rightarrow> ('s, 'c) raft_member \<Rightarrow> bool" where
  "counts g i m \<longleftrightarrow>
     (mb_mode m = Candidate \<longrightarrow> (\<forall>v \<in> mb_votes m. (v, i, mb_term m) \<in> g) \<and>
       (mb_won m \<longrightarrow> (\<exists>V \<subseteq> mb_votes m. complex_is_quorum (sc_config (mb_latest_state m)) V)))"

definition votes_kept :: "('s, 'c) raft_cluster \<Rightarrow> bool" where
  "votes_kept cl \<longleftrightarrow> (\<forall>(v, c, t) \<in> cl_granted cl. kept v c t (cl_members cl v))"

definition votes_unique :: "('s, 'c) raft_cluster \<Rightarrow> bool" where
  "votes_unique cl \<longleftrightarrow> (\<forall>v c c' t. (v, c, t) \<in> cl_granted cl \<and> (v, c', t) \<in> cl_granted cl \<longrightarrow> c = c')"

definition elections_won :: "('s, 'c) raft_cluster \<Rightarrow> bool" where
  "elections_won cl \<longleftrightarrow>
     (\<forall>(t, i, c) \<in> cl_elected cl. \<exists>V. complex_is_quorum c V \<and> (\<forall>v \<in> V. (v, i, t) \<in> cl_granted cl))"

definition leaders_elected :: "('s, 'c) raft_cluster \<Rightarrow> bool" where
  "leaders_elected cl \<longleftrightarrow>
     (\<forall>i. mb_mode (cl_members cl i) = Leader \<longrightarrow> (\<exists>c. (mb_term (cl_members cl i), i, c) \<in> cl_elected cl))"

definition cluster_inv :: "('s, 'c) raft_cluster \<Rightarrow> bool" where
  "cluster_inv cl \<longleftrightarrow> votes_kept cl \<and> votes_unique cl \<and> (\<forall>i. counts (cl_granted cl) i (cl_members cl i))
     \<and> elections_won cl \<and> leaders_elected cl"

lemma quiet_kept: "quiet m m' \<Longrightarrow> kept v c t m \<Longrightarrow> kept v c t m'"
  by (auto simp: quiet_def kept_def)

lemma quiet_counts: "quiet m m' \<Longrightarrow> counts g i m \<Longrightarrow> counts g i m'"
  by (auto simp: quiet_def counts_def ballot_eq)

lemma counts_mono: "counts g i m \<Longrightarrow> g \<subseteq> g' \<Longrightarrow> counts g' i m"
  unfolding counts_def by blast

lemma quiet_inv:
  assumes inv: "cluster_inv cl" and q: "quiet (cl_members cl i) m"
  shows "cluster_inv (at_member i m cl)"
proof -
  have "votes_kept (at_member i m cl)"
    using inv quiet_kept [OF q] by (fastforce simp: cluster_inv_def votes_kept_def)
  moreover have "counts (cl_granted cl) j (((cl_members cl)(i := m)) j)" for j
    using inv quiet_counts [OF q] by (simp add: cluster_inv_def)
  moreover have "leaders_elected (at_member i m cl)"
    using inv q by (auto simp: cluster_inv_def leaders_elected_def quiet_def ballot_eq)
  ultimately show ?thesis using inv by (simp add: cluster_inv_def votes_unique_def elections_won_def)
qed

text \<open>A vote given: the voter's term is the vote's, and it had given no other in that term.\<close>

lemma grant_inv:
  assumes inv: "cluster_inv cl" and c: "\<not> is_nil c" and le: "mb_term (cl_members cl i) \<le> mb_term m"
    and same: "mb_term m = mb_term (cl_members cl i) \<Longrightarrow> is_nil (mb_voted_for (cl_members cl i)) \<or> mb_voted_for (cl_members cl i) = c"
    and m: "mb_voted_for m = c" "mb_mode m \<noteq> Leader" and n: "counts (insert (i, c, mb_term m) (cl_granted cl)) i m"
  shows "cluster_inv (at_member i m (cl\<lparr>cl_granted := insert (i, c, mb_term m) (cl_granted cl)\<rparr>))"
    (is "cluster_inv ?cl'")
proof -
  have k: "kept v d t (cl_members cl v)" if "(v, d, t) \<in> cl_granted cl" for v d t
    using inv that by (auto simp: cluster_inv_def votes_kept_def)
  have u: "d = d'" if "(v, d, t) \<in> cl_granted cl" "(v, d', t) \<in> cl_granted cl" for v d d' t
    using inv that unfolding cluster_inv_def votes_unique_def by metis
  have old: "kept i d t m \<and> (t = mb_term m \<longrightarrow> d = c)" if "(i, d, t) \<in> cl_granted cl" for d t
    using k [OF that] same le m by (auto simp: kept_def)
  have "votes_kept ?cl'"
    using k old c m by (auto simp: votes_kept_def) (auto simp: kept_def)
  moreover have "votes_unique ?cl'"
    using u old unfolding votes_unique_def by (auto dest: u)
  moreover have "counts (cl_granted ?cl') j (cl_members ?cl' j)" for j
    using inv n counts_mono [of "cl_granted cl" j "cl_members cl j" "insert (i, c, mb_term m) (cl_granted cl)"]
    by (auto simp: cluster_inv_def)
  moreover have "elections_won ?cl'"
    using inv unfolding cluster_inv_def elections_won_def by fastforce
  moreover have "leaders_elected ?cl'"
    using inv m by (simp add: cluster_inv_def leaders_elected_def)
  ultimately show ?thesis by (simp add: cluster_inv_def)
qed


lemma votes_kept_at:
  assumes "votes_kept cl" and "mb_term m = mb_term (cl_members cl i)" and "mb_voted_for m = mb_voted_for (cl_members cl i)"
  shows "votes_kept (at_member i m (cl\<lparr>cl_elected := e\<rparr>))"
proof -
  have "kept v c t m = kept v c t (cl_members cl i)" for v c t using assms(2,3) by (simp add: kept_def)
  then show ?thesis using assms(1) by (auto simp: votes_kept_def)
qed

lemma counted_inv:
  assumes inv: "cluster_inv cl" and r: "on_vote_reply p r (cl_members cl i) = Some m"
    and g: "vr_vote_granted r \<Longrightarrow> (p, i, mb_term (cl_members cl i)) \<in> cl_granted cl"
  shows "cluster_inv (at_member i m cl)"
proof -
  note e = on_vote_reply_effect [OF r]
  have n: "counts (cl_granted cl) i m"
  proof (cases "m = cl_members cl i")
    case True
    then show ?thesis using inv by (simp add: cluster_inv_def)
  next
    case False
    have c: "counts (cl_granted cl) i (cl_members cl i)" using inv by (simp add: cluster_inv_def)
    have won: "\<exists>V \<subseteq> mb_votes m. complex_is_quorum (sc_config (mb_latest_state m)) V" if "mb_won m"
    proof (cases "mb_won (cl_members cl i)")
      case True
      then obtain V where "V \<subseteq> mb_votes (cl_members cl i)" "complex_is_quorum (sc_config (mb_latest_state m)) V"
        using c e by (auto simp: counts_def)
      then show ?thesis using e False by auto
    next
      case old: False
      then show ?thesis using e False that by auto
    qed
    have "(v, i, mb_term m) \<in> cl_granted cl" if "v \<in> mb_votes m" for v
      using c e False g that by (auto simp: counts_def)
    then show ?thesis using won by (simp add: counts_def)
  qed
  have "votes_kept (at_member i m cl)"
    using votes_kept_at [of cl m i "cl_elected cl"] inv e by (simp add: cluster_inv_def)
  moreover have "leaders_elected (at_member i m cl)"
    using inv e by (auto simp: cluster_inv_def leaders_elected_def)
  ultimately show ?thesis
    using inv n by (simp add: cluster_inv_def votes_unique_def elections_won_def)
qed

lemma lead_inv:
  assumes inv: "cluster_inv cl" and l: "become_leader ap i (cl_members cl i) = Some m"
  shows "cluster_inv (at_member i m (cl\<lparr>cl_elected :=
       insert (mb_term m, i, sc_config (mb_latest_state (cl_members cl i))) (cl_elected cl)\<rparr>))"
    (is "cluster_inv ?cl'")
proof -
  note e = become_leader_effect [OF l]
  have c: "counts (cl_granted cl) i (cl_members cl i)" using inv by (simp add: cluster_inv_def)
  then have v: "\<forall>v \<in> mb_votes (cl_members cl i). (v, i, mb_term m) \<in> cl_granted cl"
    using e by (simp add: counts_def)
  obtain V where V: "V \<subseteq> mb_votes (cl_members cl i)" "complex_is_quorum (sc_config (mb_latest_state (cl_members cl i))) V"
    using c e by (auto simp: counts_def)
  have "elections_won ?cl'"
    using inv V v by (auto simp: cluster_inv_def elections_won_def)
  moreover have "votes_kept ?cl'"
    using votes_kept_at [of cl m i] inv e by (simp add: cluster_inv_def)
  moreover have "leaders_elected ?cl'"
    using inv by (auto simp: cluster_inv_def leaders_elected_def)
  moreover have "counts (cl_granted ?cl') j (cl_members ?cl' j)" for j
    using inv e by (simp add: cluster_inv_def counts_def)
  ultimately show ?thesis using inv by (simp add: cluster_inv_def votes_unique_def)
qed

lemma stand_effect:
  assumes "on_watchdog i m0 = Some (m, rq) \<or> run_election i m0 = Some (m, rq)"
  shows "mb_mode m = Candidate \<and> mb_term m0 < mb_term m \<and> mb_voted_for m = i \<and> mb_votes m = {i}
    \<and> (mb_won m \<longrightarrow> complex_is_quorum (sc_config (mb_latest_state m)) (mb_votes m))
    \<and> rv_term rq = mb_term m \<and> rv_candidate_id rq = i"
  using assms on_watchdog_effect [of i m0 m rq] run_election_effect [of i m0 m rq] by argo

lemma member_init_follower: "member_init ap st = Some m \<Longrightarrow> mb_mode m = Follower"
  by (auto simp: member_init_def Let_def split: bind_splits)

lemma reachable_inv: "reachable ap cl \<Longrightarrow> cluster_inv cl"
proof (induction rule: reachable.induct)
  case (start st ms)
  have "mb_mode (ms i) = Follower" for i
    using member_init_follower [OF start] .
  then show ?case
    by (simp add: cluster_inv_def votes_kept_def votes_unique_def elections_won_def leaders_elected_def counts_def)
next
  case (local cl i m)
  then show ?case using quiet_inv local_step_quiet by blast
next
  case (install cl i irq m rt)
  then show ?case using quiet_inv on_install_snapshot_quiet by blast
next
  case (vote cl i rq heard m r)
  note e = vote_effect [OF vote.hyps(4,2)]
  show ?case
  proof (cases "vr_vote_granted r")
    case True
    then have "counts (insert (i, rv_candidate_id rq, mb_term m) (cl_granted cl)) i m"
      using e by (simp add: counts_def)
    moreover have "mb_term (cl_members cl i) \<le> rv_term rq" using e True by auto
    ultimately show ?thesis using grant_inv [OF vote.IH vote.hyps(3), of i m] e True by simp
  next
    case False
    then show ?thesis using quiet_inv [OF vote.IH, of i m] e by simp
  qed
next
  case (stand cl i m rq)
  note e = stand_effect [OF stand.hyps(3)]
  have "counts (insert (i, i, mb_term m) (cl_granted cl)) i m"
    using e by (auto simp: counts_def)
  moreover have "mb_term (cl_members cl i) \<le> mb_term m" "mb_term m \<noteq> mb_term (cl_members cl i)" using e by auto
  ultimately show ?case using grant_inv [OF stand.IH stand.hyps(2), of i m] e by simp
next
  case (counted cl p r i m)
  then show ?case using counted_inv by blast
next
  case (lead cl i m)
  then show ?case using lead_inv by blast
qed


section \<open>Election safety\<close>

lemma elected_unique:
  assumes inv: "cluster_inv cl" and "(t, i, c) \<in> cl_elected cl" and "(t, j, d) \<in> cl_elected cl"
    and x: "x \<in> joins c" "x \<in> joins d" "finite (rc_voting_members x)"
  shows "i = j"
proof -
  obtain V where V: "complex_is_quorum c V" "\<forall>v \<in> V. (v, i, t) \<in> cl_granted cl"
    using inv assms(2) by (fastforce simp: cluster_inv_def elections_won_def)
  obtain W where W: "complex_is_quorum d W" "\<forall>v \<in> W. (v, j, t) \<in> cl_granted cl"
    using inv assms(3) by (fastforce simp: cluster_inv_def elections_won_def)
  obtain v where "v \<in> V" "v \<in> W"
    using config_quorums_overlap [OF x(3)] V(1) W(1) x(1,2) by (meson complex_quorum_iff)
  then have "(v, i, t) \<in> cl_granted cl" "(v, j, t) \<in> cl_granted cl" using V(2) W(2) by auto
  then show ?thesis using inv unfolding cluster_inv_def votes_unique_def by metis
qed

text \<open>
  Property C2. Election safety. In every run of the cluster, with steps of members in any order,
  messages of any content lost, delayed or repeated, elections that time out and restarts from
  storage, two members elected in the same term are the same member, provided the configurations
  they were elected under share a configuration, alone or as a part of a joint consensus; and every
  member that is leader was elected in the term it is in.
\<close>

theorem election_safety:
  assumes "reachable ap cl" and "(t, i, c) \<in> cl_elected cl" and "(t, j, d) \<in> cl_elected cl"
    and "x \<in> joins c" and "x \<in> joins d" and "finite (rc_voting_members x)"
  shows "i = j \<and> (\<forall>k. mb_mode (cl_members cl k) = Leader \<longrightarrow> (\<exists>e. (mb_term (cl_members cl k), k, e) \<in> cl_elected cl))"
  using elected_unique [OF reachable_inv [OF assms(1)] assms(2-6)] reachable_inv [OF assms(1)]
  by (simp add: cluster_inv_def leaders_elected_def)


section \<open>Witness\<close>

text \<open>Three voters: the first stands for election, the second votes for it, and it leads.\<close>

definition three_voters :: raft_complex_config where
  "three_voters = \<lparr>cc_config = \<lparr>rc_voting_members = {1, 2, 3}, rc_non_voting_members = {}\<rparr>, cc_new_config = None\<rparr>"

definition still :: "(nat, nat) apply_fn" where
  "still c s = Some s"

definition fresh_storage :: "(nat, nat) raft_storage" where
  "fresh_storage = \<lparr>rst_file = file_of (make_initial 0 (cc_config three_voters)),
     rst_state = make_initial 0 (cc_config three_voters)\<rparr>"

definition fresh_member :: "(nat, nat) raft_member" where
  "fresh_member = the (member_init still fresh_storage)"

definition candidate_one :: "(nat, nat) raft_member" where
  "candidate_one = fst (the (on_watchdog 1 fresh_member))"

definition ask_vote :: request_vote where
  "ask_vote = snd (the (on_watchdog 1 fresh_member))"

definition voter_two :: "(nat, nat) raft_member" where
  "voter_two = fst (the (on_request_vote_rpc 2 False ask_vote fresh_member))"

definition vote_two :: vote_reply where
  "vote_two = snd (the (on_request_vote_rpc 2 False ask_vote fresh_member))"

definition winner_one :: "(nat, nat) raft_member" where
  "winner_one = the (on_vote_reply 2 vote_two candidate_one)"

definition leader_one :: "(nat, nat) raft_member" where
  "leader_one = the (become_leader still 1 winner_one)"

lemma fresh_member_init: "member_init still fresh_storage = Some fresh_member"
proof -
  have "\<not> Option.is_none (member_init still fresh_storage)" by code_simp
  then show ?thesis by (simp add: fresh_member_def is_none_simps Option.is_none_def)
qed

lemma candidate_one_stands: "on_watchdog 1 fresh_member = Some (candidate_one, ask_vote)"
proof -
  have "\<not> Option.is_none (on_watchdog 1 fresh_member)" by code_simp
  then show ?thesis by (simp add: candidate_one_def ask_vote_def Option.is_none_def)
qed

lemma voter_two_votes: "on_request_vote_rpc 2 False ask_vote fresh_member = Some (voter_two, vote_two)"
proof -
  have "\<not> Option.is_none (on_request_vote_rpc 2 False ask_vote fresh_member)" by code_simp
  then show ?thesis by (simp add: voter_two_def vote_two_def Option.is_none_def)
qed

lemma winner_one_counts: "on_vote_reply 2 vote_two candidate_one = Some winner_one"
proof -
  have "\<not> Option.is_none (on_vote_reply 2 vote_two candidate_one)" by code_simp
  then show ?thesis by (simp add: winner_one_def Option.is_none_def)
qed

lemma leader_one_leads: "become_leader still 1 winner_one = Some leader_one"
proof -
  have "\<not> Option.is_none (become_leader still 1 winner_one)" by code_simp
  then show ?thesis by (simp add: leader_one_def Option.is_none_def)
qed

lemma election_facts:
  "rv_term ask_vote = 1 \<and> rv_candidate_id ask_vote = 1 \<and> vr_vote_granted vote_two
   \<and> mb_term candidate_one = 1 \<and> mb_term leader_one = 1 \<and> mb_mode leader_one = Leader
   \<and> sc_config (mb_latest_state winner_one) = three_voters"
  by code_simp

definition led_cluster :: "(nat, nat) raft_cluster" where
  "led_cluster = \<lparr>cl_members = (\<lambda>_. fresh_member)(1 := leader_one, 2 := voter_two),
     cl_granted = {(1, 1, 1), (2, 1, 1)}, cl_elected = {(1, 1, three_voters)}\<rparr>"


lemma led_cluster_reachable: "reachable still led_cluster"
proof -
  note f = election_facts
  have n: "\<not> is_nil (1 :: raft_member_id)" "\<not> is_nil (2 :: raft_member_id)" by (simp_all add: is_nil_def nil_uuid_def)
  define s0 where "s0 = \<lparr>cl_members = (\<lambda>_. fresh_member), cl_granted = {}, cl_elected = {}\<rparr>"
  have r0: "reachable still s0"
    unfolding s0_def by (rule reachable.start [of still "\<lambda>_. fresh_storage"]) (rule fresh_member_init)
  define s1 where "s1 = at_member 1 candidate_one (s0\<lparr>cl_granted := insert (1, 1, rv_term ask_vote) (cl_granted s0)\<rparr>)"
  have r1: "reachable still s1"
    unfolding s1_def using reachable.stand [OF r0 n(1), of candidate_one ask_vote] candidate_one_stands
    by (simp add: s0_def)
  define s2 where "s2 = at_member 2 voter_two (s1\<lparr>cl_granted := insert (2, 1, 1) (cl_granted s1)\<rparr>)"
  have m2: "cl_members s1 2 = fresh_member" by (simp add: s1_def s0_def)
  have r2: "reachable still s2"
    unfolding s2_def using reachable.vote [OF r1 n(2), of ask_vote False voter_two vote_two] voter_two_votes f n(1) m2 by simp
  define s3 where "s3 = at_member 1 winner_one s2"
  have m3: "cl_members s2 1 = candidate_one" by (simp add: s2_def s1_def)
  have g3: "(2, 1, 1) \<in> cl_granted s2" by (simp add: s2_def)
  have r3: "reachable still s3"
    unfolding s3_def using reachable.counted [OF r2, of 2 vote_two 1 winner_one] winner_one_counts f m3 g3 by simp
  have m4: "cl_members s3 1 = winner_one" by (simp add: s3_def)
  have "reachable still (at_member 1 leader_one (s3\<lparr>cl_elected := insert (1, 1, three_voters) (cl_elected s3)\<rparr>))"
    using reachable.lead [OF r3, of 1 leader_one] leader_one_leads f m4 by simp
  moreover have "at_member 1 leader_one (s3\<lparr>cl_elected := insert (1, 1, three_voters) (cl_elected s3)\<rparr>) = led_cluster"
    using f by (auto simp: s3_def s2_def s1_def s0_def led_cluster_def fun_eq_iff)
  ultimately show ?thesis by simp
qed

lemma led_cluster_led:
  "cl_elected led_cluster = {(1, 1, three_voters)} \<and> mb_mode (cl_members led_cluster 1) = Leader"
  using election_facts by (simp add: led_cluster_def)

lemma three_voters_joined:
  "cc_config three_voters \<in> joins three_voters \<and> finite (rc_voting_members (cc_config three_voters))"
  by (simp add: joins_def three_voters_def)

theorem election_safety_witness:
  "reachable still led_cluster \<and> (1, 1, three_voters) \<in> cl_elected led_cluster
   \<and> mb_mode (cl_members led_cluster 1) = Leader
   \<and> (\<exists>e. (mb_term (cl_members led_cluster 1), 1, e) \<in> cl_elected led_cluster)"
  using election_safety [OF led_cluster_reachable, of 1 1 three_voters 1 three_voters "cc_config three_voters"]
    led_cluster_reachable led_cluster_led three_voters_joined
  by simp

end
