(* ===== verification/Raft_Invariants.thy ===== *)
theory Raft_Invariants
  imports Raft_Cluster
begin

text \<open>
  \<open>check_invariants\<close> of \<open>clustering/generic/raft_core.tcc\<close>: what a member checks of itself in debug
  builds, as far as it concerns the indexes and the roles, and that every step of a member keeps it.
\<close>

section \<open>The checks\<close>

definition last_term :: "'c raft_log \<Rightarrow> raft_term option" where
  "last_term l = get_entry_term l (get_latest_index l)"

text \<open>Checks related to the state machine and commits.\<close>

definition check_indexes :: "('s, 'c) raft_member \<Rightarrow> bool" where
  "check_indexes m \<longleftrightarrow>
     (let log = ps_log (mb_ps m); commit_index = sc_log_index (mb_committed_state m)
      in commit_index = ps_commit_index (mb_ps m)
         \<and> commit_index \<ge> lg_prev_index log \<and> commit_index \<le> get_latest_index log
         \<and> sc_log_index (mb_latest_state m) = get_latest_index log)"

text \<open>Checks related to the follower, candidate and leader roles.\<close>

definition check_roles :: "raft_member_id \<Rightarrow> ('s, 'c) raft_member \<Rightarrow> bool" where
  "check_roles this_id m \<longleftrightarrow>
     (mb_mode m = Leader) = (mb_current_term_leader_id m = this_id) \<and>
     (case mb_mode m of
        Follower \<Rightarrow> mb_match_indexes m = []
      | Candidate \<Rightarrow> is_nil (mb_current_term_leader_id m) \<and> ps_voted_for (mb_ps m) = this_id \<and> mb_match_indexes m = []
      | Leader \<Rightarrow> ps_voted_for (mb_ps m) = this_id \<and> last_term (ps_log (mb_ps m)) = Some (ps_current_term (mb_ps m))
          \<and> map_of (mb_match_indexes m) this_id = Some (get_latest_index (ps_log (mb_ps m))))"

definition member_ok :: "raft_member_id \<Rightarrow> ('s, 'c) raft_member \<Rightarrow> bool" where
  "member_ok i m \<longleftrightarrow> storage_run (mb_storage m) \<and> check_indexes m \<and> check_roles i m"

section \<open>The log\<close>

abbreviation mb_log :: "('s, 'c) raft_member \<Rightarrow> 'c raft_log" where
  "mb_log m \<equiv> ps_log (mb_ps m)"

abbreviation whole :: "'c raft_log \<Rightarrow> bool" where
  "whole l \<equiv> log_bounded max_index l"

lemma whole_latest: "whole l \<Longrightarrow> unat (get_latest_index l) = unat (lg_prev_index l) + length (lg_entries l)"
  using unat_latest max_index_less(2) by blast

lemma prev_le_latest: "whole l \<Longrightarrow> lg_prev_index l \<le> get_latest_index l"
  by (simp add: word_le_nat_alt whole_latest)

lemma latest_below: "whole l \<Longrightarrow> unat (get_latest_index l) < max_index"
  by (simp add: whole_latest log_bounded_def)

lemma storage_whole: "storage_run st \<Longrightarrow> whole (ps_log (rst_state st))"
  using storage_run_file_of by blast

lemma last_term_whole:
  assumes "whole l"
  shows "last_term l = Some (if lg_entries l = [] then lg_prev_term l else le_term (last (lg_entries l)))"
proof -
  let ?p = "unat (lg_prev_index l)" and ?n = "length (lg_entries l)"
  have u: "unat (get_latest_index l) = ?p + ?n" by (rule whole_latest [OF assms])
  show ?thesis
  proof (cases "lg_entries l = []")
    case True
    then show ?thesis by (simp add: last_term_def get_entry_term_def get_latest_index_def)
  next
    case False
    have less: "lg_prev_index l < get_latest_index l"
      unfolding word_less_nat_alt u using False by simp
    have "unat (get_latest_index l - lg_prev_index l - 1) = ?n - 1"
      using unat_before [OF less] u by simp
    then show ?thesis
      using less False by (auto simp add: last_term_def get_entry_term_def get_entry_ref_def last_conv_nth less_imp_le)
  qed
qed

text \<open>Cutting the front of the log off leaves its end alone.\<close>

lemma delete_entries_to_end:
  assumes w: "whole l" and i: "i > lg_prev_index l" "i \<le> get_latest_index l" and d: "delete_entries_to i t l = Some l'"
  shows "lg_prev_index l' = i \<and> get_latest_index l' = get_latest_index l \<and> whole l' \<and> last_term l' = last_term l"
proof -
  let ?p = "unat (lg_prev_index l)" and ?n = "length (lg_entries l)" and ?k = "unat (i - lg_prev_index l)"
  have u: "unat (get_latest_index l) = ?p + ?n" by (rule whole_latest [OF w])
  have k: "?k = unat i - ?p" "?p < unat i" "unat i \<le> ?p + ?n"
    using i u by (simp_all add: unat_sub less_imp_le word_less_nat_alt word_le_nat_alt)
  have l': "l' = l\<lparr>lg_entries := drop ?k (lg_entries l), lg_prev_index := i, lg_prev_term := t\<rparr>"
    and t: "get_entry_term l i = Some t"
    using d i by (auto simp: delete_entries_to_def split: if_splits)
  have sum: "unat i + (?n - ?k) = ?p + ?n" using k by simp
  have w': "whole l'" using w sum by (simp add: l' log_bounded_def)
  have "unat (get_latest_index l') = unat (get_latest_index l)"
    using whole_latest [OF w'] u sum by (simp add: l')
  then have lat: "get_latest_index l' = get_latest_index l" by (rule unsigned_word_eqI)
  have "last_term l' = last_term l"
  proof (cases "i = get_latest_index l")
    case True
    then have "lg_entries l' = []" using k u by (simp add: l')
    then show ?thesis using last_term_whole [OF w'] t True by (simp add: l' last_term_def)
  next
    case False
    then have "unat i \<noteq> ?p + ?n" using u by (metis unsigned_word_eqI)
    then have "drop ?k (lg_entries l) \<noteq> []" using k by simp
    then show ?thesis using last_term_whole [OF w'] last_term_whole [OF w] by (auto simp: l' last_drop)
  qed
  then show ?thesis using w' lat by (simp add: l')
qed

lemma apply_log_entries_index:
  assumes "apply_log_entries ap log first final sc = Some sc'"
  shows "sc_log_index sc' = final \<and> sc_log_index sc \<le> final \<and> (sc_log_index sc < final \<longrightarrow> final \<le> get_latest_index log)"
proof -
  obtain s where f: "final \<ge> first - 1" "sc_log_index sc + 1 = first"
    and s: "fold_opt (\<lambda>i sc. do { e \<leftarrow> get_entry_ref log i; apply_entry ap e sc }) (index_range first final) sc = Some s"
    and sc': "sc' = s" "sc_log_index s = final"
    using assms by (auto simp: apply_log_entries_def split: if_splits bind_splits)
  have le: "sc_log_index sc \<le> final" using f by auto
  have "final \<le> get_latest_index log" if l: "sc_log_index sc < final"
  proof -
    have "unat first \<le> unat final" using f(2) l by (metis inc_le word_le_nat_alt)
    then have "final \<in> set (index_range first final)"
      by (auto simp: index_range_def image_iff intro!: bexI [of _ "unat final"])
    then obtain s1 s2 where "do { e \<leftarrow> get_entry_ref log final; apply_entry ap e s1 } = Some s2"
      using fold_opt_step [OF s] by blast
    then have "get_entry_ref log final \<noteq> None" by (auto split: bind_splits)
    then show ?thesis by (auto simp: get_entry_ref_def split: if_splits)
  qed
  then show ?thesis using le sc' by simp
qed


section \<open>Committing and appending\<close>

text \<open>What \<open>check_roles\<close> looks at.\<close>

definition role_view :: "('s, 'c) raft_member \<Rightarrow> _" where
  "role_view m = (mb_mode m, mb_current_term_leader_id m, mb_match_indexes m, ps_voted_for (mb_ps m),
     ps_current_term (mb_ps m), get_latest_index (mb_log m), last_term (mb_log m))"

lemma check_roles_view: "role_view m' = role_view m \<Longrightarrow> check_roles i m' = check_roles i m"
  by (simp add: check_roles_def role_view_def split: raft_mode.split)

lemma snapshot_in_log:
  assumes s: "storage_run st" and i: "i > lg_prev_index (ps_log (rst_state st))" "i \<le> get_latest_index (ps_log (rst_state st))"
    and w: "write_snapshot ss sc False i t ci st = Some st'"
  shows "storage_run st' \<and> lg_prev_index (ps_log (rst_state st')) = i
    \<and> get_latest_index (ps_log (rst_state st')) = get_latest_index (ps_log (rst_state st))
    \<and> last_term (ps_log (rst_state st')) = last_term (ps_log (rst_state st))
    \<and> ps_commit_index (rst_state st') = ci"
proof -
  let ?l = "ps_log (rst_state st)"
  note wl = storage_whole [OF s]
  have "unat i < max_index" using i(2) latest_below [OF wl] by (simp add: word_le_nat_alt)
  then have "storage_run st'" using storage_run.wrote_snapshot [OF s _ w] by simp
  moreover obtain l' where d: "delete_entries_to i t ?l = Some l'" and l': "ps_log (rst_state st') = l'"
    and c: "ps_commit_index (rst_state st') = ci"
    using w by (auto simp: write_snapshot_def Let_def split: bind_splits)
  ultimately show ?thesis using delete_entries_to_end [OF wl i d] l' c by simp
qed

lemma update_commit_index_ok:
  assumes u: "update_commit_index ap n m = Some m'" and s: "storage_run (mb_storage m)" and c: "check_indexes m"
  shows "storage_run (mb_storage m') \<and> check_indexes m' \<and> role_view m' = role_view m"
proof -
  let ?st = "write_commit_index n (mb_storage m)"
  have st: "storage_run ?st" by (rule storage_run.wrote_commit [OF s])
  have ps: "ps_log (rst_state ?st) = mb_log m" "ps_commit_index (rst_state ?st) = n"
    "ps_voted_for (rst_state ?st) = ps_voted_for (mb_ps m)" "ps_current_term (rst_state ?st) = ps_current_term (mb_ps m)"
    by (simp_all add: write_commit_index_def Let_def mb_ps_def)
  obtain sc where n: "n > sc_log_index (mb_committed_state m)"
    and a: "apply_log_entries ap (mb_log m) (sc_log_index (mb_committed_state m) + 1) n (mb_committed_state m) = Some sc"
    and m': "m' = m\<lparr>mb_storage := ?st, mb_committed_state := sc\<rparr> \<or>
       (\<exists>t st'. write_snapshot (sc_state sc) (sc_config sc) False n t n ?st = Some st'
          \<and> m' = m\<lparr>mb_storage := st', mb_committed_state := sc\<rparr>)"
    using u by (auto simp: update_commit_index_def Let_def ps split: if_splits bind_splits)
  have n': "sc_log_index sc = n" "n \<le> get_latest_index (mb_log m)" "lg_prev_index (mb_log m) < n"
    using apply_log_entries_index [OF a] n c by (auto simp: check_indexes_def Let_def)
  from m' show ?thesis
  proof
    assume "m' = m\<lparr>mb_storage := ?st, mb_committed_state := sc\<rparr>"
    then show ?thesis using st ps n' c by (simp add: check_indexes_def role_view_def Let_def mb_ps_def less_imp_le)
  next
    assume "\<exists>t st'. write_snapshot (sc_state sc) (sc_config sc) False n t n ?st = Some st'
          \<and> m' = m\<lparr>mb_storage := st', mb_committed_state := sc\<rparr>"
    then obtain t st' where w: "write_snapshot (sc_state sc) (sc_config sc) False n t n ?st = Some st'"
      and e: "m' = m\<lparr>mb_storage := st', mb_committed_state := sc\<rparr>" by blast
    have "storage_run st' \<and> lg_prev_index (ps_log (rst_state st')) = n
        \<and> get_latest_index (ps_log (rst_state st')) = get_latest_index (mb_log m)
        \<and> last_term (ps_log (rst_state st')) = last_term (mb_log m) \<and> ps_commit_index (rst_state st') = n"
      using snapshot_in_log [OF st _ _ w] n' ps by simp
    then show ?thesis
      using e c n' ps write_snapshot_vote [OF w] by (simp add: check_indexes_def role_view_def Let_def mb_ps_def)
  qed
qed

lemma leader_update_match_index_ok:
  assumes u: "leader_update_match_index ap k v m = Some m'" and s: "storage_run (mb_storage m)" and c: "check_indexes m"
  shows "storage_run (mb_storage m') \<and> check_indexes m' \<and>
    role_view m' = role_view (m\<lparr>mb_match_indexes := omap_assign k v (mb_match_indexes m)\<rparr>)"
proof -
  let ?m = "m\<lparr>mb_match_indexes := omap_assign k v (mb_match_indexes m)\<rparr>"
  have e: "(\<exists>n. update_commit_index ap n ?m = Some m') \<or> m' = ?m"
    using u by (auto simp: leader_update_match_index_def Let_def split: if_splits bind_splits)
  have "storage_run (mb_storage ?m)" "check_indexes ?m"
    using s c by (simp_all add: check_indexes_def mb_ps_def)
  then show ?thesis using e update_commit_index_ok by blast
qed

lemma peer_match_ok:
  assumes u: "leader_update_match_index ap k v m = Some m'" and ok: "member_ok i m" and k: "k \<noteq> i"
  shows "member_ok i m'"
proof -
  let ?m = "m\<lparr>mb_match_indexes := omap_assign k v (mb_match_indexes m)\<rparr>"
  have m: "mb_mode m = Leader" using leader_update_match_index_ballot [OF u] by simp
  have "check_roles i ?m" using ok k m by (simp add: member_ok_def check_roles_def map_of_omap_assign mb_ps_def)
  then show ?thesis
    using leader_update_match_index_ok [OF u] ok check_roles_view [of m' ?m i] by (simp add: member_ok_def)
qed

text \<open>
  A leader appends an entry of its term. Before, its log may still end with an older term, as it does
  right after the election. There is room for one more index.
\<close>

definition has_room :: "('s, 'c) raft_member \<Rightarrow> bool" where
  "has_room m \<longleftrightarrow> log_bounded (max_index - 1) (mb_log m)"

lemma log_append_prev: "lg_prev_index (log_append e l) = lg_prev_index l"
  by (simp add: log_append_def)

lemma leader_append_ok:
  assumes a: "leader_append_log_entry ap i e m = Some m'" and s: "storage_run (mb_storage m)" and c: "check_indexes m"
    and r: "has_room m" and l: "mb_current_term_leader_id m = i" "ps_voted_for (mb_ps m) = i"
  shows "member_ok i m'"
proof -
  let ?st = "write_log_append_one e (mb_storage m)"
  have log: "ps_log (rst_state ?st) = log_append e (mb_log m)" "ps_commit_index (rst_state ?st) = ps_commit_index (mb_ps m)"
      "ps_voted_for (rst_state ?st) = i" "ps_current_term (rst_state ?st) = ps_current_term (mb_ps m)"
    using l by (simp_all add: write_log_append_one_def Let_def mb_ps_def)
  have w: "whole (log_append e (mb_log m))"
    using r by (simp add: has_room_def log_bounded_def log_append_def)
  have st: "storage_run ?st" using storage_run.appended [OF s refl] w log(1) by simp
  have lat: "get_latest_index (log_append e (mb_log m)) = get_latest_index (mb_log m) + 1"
    by (simp add: get_latest_index_def log_append_def)
  have "get_latest_index (mb_log m) \<le> get_latest_index (log_append e (mb_log m))"
    using whole_latest [OF w] whole_latest [OF storage_whole [OF s, folded mb_ps_def]]
    by (simp add: word_le_nat_alt log_append_def)
  then have commit: "sc_log_index (mb_committed_state m) \<le> get_latest_index (mb_log m) + 1"
    using c lat order.trans by (fastforce simp: check_indexes_def Let_def)
  obtain x where x: "sc_log_index x = get_latest_index (mb_log m) + 1" and m: "mb_mode m = Leader"
      and t: "le_term e = ps_current_term (mb_ps m)"
      and u: "leader_update_match_index ap i (get_latest_index (mb_log m) + 1)
        (m\<lparr>mb_storage := ?st, mb_latest_state := x\<rparr>) = Some m'"
    using a c lat
    by (auto simp: leader_append_log_entry_def Let_def mb_ps_def log check_indexes_def
        split: if_splits bind_splits dest: apply_log_entries_index)
  let ?m1 = "m\<lparr>mb_storage := ?st, mb_latest_state := x\<rparr>"
  let ?m2 = "?m1\<lparr>mb_match_indexes := omap_assign i (get_latest_index (mb_log m) + 1) (mb_match_indexes ?m1)\<rparr>"
  have c1: "check_indexes ?m1"
    using c x commit log lat by (auto simp: check_indexes_def Let_def mb_ps_def log_append_prev)
  have "last_term (log_append e (mb_log m)) = Some (ps_current_term (mb_ps m))"
    using last_term_whole [OF w] t by (simp add: log_append_def)
  then have "check_roles i ?m2"
    using m l log lat by (simp add: check_roles_def map_of_omap_assign mb_ps_def)
  then show ?thesis
    using leader_update_match_index_ok [OF u _ c1] st check_roles_view [of m' ?m2 i] by (simp add: member_ok_def)
qed


section \<open>Handlers\<close>

text \<open>A step that leaves the log, the commit index and the states alone.\<close>

definition log_view :: "('s, 'c) raft_member \<Rightarrow> _" where
  "log_view m = (mb_log m, ps_commit_index (mb_ps m), mb_committed_state m, mb_latest_state m)"

lemma check_indexes_view: "log_view m' = log_view m \<Longrightarrow> check_indexes m' = check_indexes m"
  by (simp add: check_indexes_def log_view_def)

lemma become_follower_view:
  "become_follower m = Some m' \<Longrightarrow> mb_storage m' = mb_storage m \<and> log_view m' = log_view m
     \<and> mb_mode m' = Follower \<and> mb_match_indexes m' = [] \<and> mb_current_term_leader_id m' = mb_current_term_leader_id m"
  by (auto simp: become_follower_def log_view_def mb_ps_def split: if_splits)

lemma update_term_view:
  "member_update_term t v m = Some m' \<Longrightarrow> storage_run (mb_storage m) \<Longrightarrow> storage_run (mb_storage m') \<and> log_view m' = log_view m
     \<and> mb_mode m' = mb_mode m \<and> mb_match_indexes m' = mb_match_indexes m \<and> mb_current_term_leader_id m' = nil_uuid
     \<and> ps_voted_for (mb_ps m') = v"
  using storage_run.wrote_term [of "mb_storage m" t v]
  by (auto simp: member_update_term_def log_view_def mb_ps_def write_current_term_and_voted_for_def Let_def split: if_splits)

lemma follower_roles: "mb_mode m = Follower \<Longrightarrow> check_roles i m \<longleftrightarrow> mb_current_term_leader_id m \<noteq> i \<and> mb_match_indexes m = []"
  by (auto simp: check_roles_def)

lemma new_term_ok:
  assumes ok: "member_ok i m" and i: "\<not> is_nil i"
    and e: "do { m \<leftarrow> step_down m; member_update_term t nil_uuid m } = Some m'"
  shows "member_ok i m' \<and> log_view m' = log_view m"
proof -
  obtain m1 where m1: "step_down m = Some m1" "member_update_term t nil_uuid m1 = Some m'"
    using e by (auto split: bind_splits)
  have v1: "mb_storage m1 = mb_storage m \<and> log_view m1 = log_view m \<and> mb_mode m1 = Follower \<and> mb_match_indexes m1 = []"
  proof (cases "mb_mode m = Follower")
    case True
    then show ?thesis using m1(1) ok by (simp add: step_down_def member_ok_def follower_roles)
  next
    case False
    then show ?thesis using m1(1) become_follower_view [of m m1] by (simp add: step_down_def)
  qed
  then have "storage_run (mb_storage m1)" using ok by (simp add: member_ok_def)
  note v = update_term_view [OF m1(2) this]
  have "mb_current_term_leader_id m' \<noteq> i" using v i by (auto simp: is_nil_def)
  then have "check_roles i m'" using v v1 by (simp add: follower_roles)
  then show ?thesis using v v1 ok check_indexes_view [of m' m] by (simp add: member_ok_def)
qed

lemma catch_up_ok:
  assumes "member_ok i m" and "\<not> is_nil i"
    and "(if t > mb_term m then do { m \<leftarrow> step_down m; member_update_term t nil_uuid m } else Some m) = Some m'"
  shows "member_ok i m' \<and> log_view m' = log_view m"
  using assms new_term_ok by (auto split: if_splits)

lemma on_rpc_from_leader_ok:
  assumes ok: "member_ok i m" and i: "\<not> is_nil i" and e: "on_rpc_from_leader i l t m = Some (m', b)"
  shows "member_ok i m' \<and> log_view m' = log_view m \<and> (b \<longrightarrow> mb_mode m' = Follower)"
proof -
  obtain m1 where m1: "(if t > mb_term m then do { m \<leftarrow> step_down m; member_update_term t nil_uuid m } else Some m) = Some m1"
      and l: "l \<noteq> i"
      and rest: "(if t < mb_term m1 then Some (m1, False)
           else
             do {
               m \<leftarrow> (if mb_mode m1 = Candidate then become_follower m1 else Some m1);
               (if mb_mode m = Leader then None
                else if is_nil (mb_current_term_leader_id m)
                then Some (m\<lparr>mb_current_term_leader_id := l\<rparr>, True)
                else if mb_current_term_leader_id m = l then Some (m, True)
                else None)
             }) = Some (m', b)"
    using e by (auto simp: on_rpc_from_leader_def split: if_splits bind_splits)
  note c = catch_up_ok [OF ok i m1]
  show ?thesis
  proof (cases "t < mb_term m1")
    case True
    then show ?thesis using rest c by simp
  next
    case False
    then obtain m2 where m2: "(if mb_mode m1 = Candidate then become_follower m1 else Some m1) = Some m2"
        "mb_mode m2 \<noteq> Leader" and m': "m' = m2\<lparr>mb_current_term_leader_id := l\<rparr> \<or> m' = m2 \<and> mb_current_term_leader_id m2 = l"
      using rest by (auto split: bind_splits if_splits)
    have v: "storage_run (mb_storage m2) \<and> log_view m2 = log_view m1 \<and> mb_mode m2 = Follower \<and> mb_match_indexes m2 = []"
    proof (cases "mb_mode m1 = Candidate")
      case True
      then show ?thesis using m2(1) become_follower_view [of m1 m2] c by (simp add: member_ok_def)
    next
      case f: False
      then have "mb_mode m1 = Follower" using m2 by (cases "mb_mode m1") simp_all
      then show ?thesis using m2(1) c by (simp add: member_ok_def follower_roles)
    qed
    have v': "mb_storage m' = mb_storage m2" "log_view m' = log_view m2" "mb_mode m' = mb_mode m2"
      "mb_match_indexes m' = mb_match_indexes m2" "mb_current_term_leader_id m' = l"
      using m' by (auto simp: log_view_def mb_ps_def)
    then have "check_roles i m'" using v l by (simp add: follower_roles)
    then show ?thesis using v v' c check_indexes_view [of m' m1] by (simp add: member_ok_def)
  qed
qed


text \<open>A follower whose log or states change.\<close>

lemma follower_ok:
  assumes "mb_mode m = Follower" and "member_ok i m" and "mb_mode m' = Follower"
    and "mb_match_indexes m' = mb_match_indexes m" and "mb_current_term_leader_id m' = mb_current_term_leader_id m"
    and "storage_run (mb_storage m')" and "check_indexes m'"
  shows "member_ok i m'"
  using assms by (simp add: member_ok_def follower_roles)

lemma replace_tail_frame:
  assumes "write_log_replace_tail src n st = Some st'"
  shows "ps_commit_index (rst_state st') = ps_commit_index (rst_state st)
    \<and> lg_prev_index (ps_log (rst_state st')) = lg_prev_index (ps_log (rst_state st))"
  using assms
  by (auto simp: write_log_replace_tail_def Let_def delete_entries_from_def dest!: fold_append_entries
      split: bind_splits if_splits)

lemma store_entries_view:
  assumes "store_entries es m = Some (m', c)" and "storage_run (mb_storage m)" and "whole es"
  shows "storage_run (mb_storage m') \<and> ps_commit_index (mb_ps m') = ps_commit_index (mb_ps m)
    \<and> lg_prev_index (mb_log m') = lg_prev_index (mb_log m)
    \<and> (\<exists>st. m' = m\<lparr>mb_storage := st\<rparr>)"
proof -
  have "m' = m \<or> (\<exists>n st. write_log_replace_tail es n (mb_storage m) = Some st \<and> m' = m\<lparr>mb_storage := st\<rparr>)"
    using assms(1) by (auto simp: store_entries_def Let_def split: if_split_asm bind_splits)
  then show ?thesis
  proof
    assume "m' = m"
    moreover have "m = m\<lparr>mb_storage := mb_storage m\<rparr>" by simp
    ultimately show ?thesis using assms(2) by metis
  next
    assume "\<exists>n st. write_log_replace_tail es n (mb_storage m) = Some st \<and> m' = m\<lparr>mb_storage := st\<rparr>"
    then obtain n st where w: "write_log_replace_tail es n (mb_storage m) = Some st" and m': "m' = m\<lparr>mb_storage := st\<rparr>"
      by blast
    show ?thesis
      using storage_run.replaced_tail [OF assms(2,3) w] replace_tail_frame [OF w] m' by (auto simp: mb_ps_def)
  qed
qed

lemma on_append_entries_ok:
  assumes ok: "member_ok i m" and i: "\<not> is_nil i" and w: "whole (ae_entries rq)"
    and e: "on_append_entries_rpc ap i rq m = Some (m', r)"
  shows "member_ok i m'"
proof -
  obtain m1 b where m1: "on_rpc_from_leader i (ae_leader_id rq) (ae_term rq) m = Some (m1, b)"
    using e by (auto simp: on_append_entries_rpc_def split: bind_splits)
  note o1 = on_rpc_from_leader_ok [OF ok i m1]
  show ?thesis
  proof (cases "m' = m1")
    case True
    then show ?thesis using o1 by simp
  next
    case False
    have b: b using e False by (auto simp: on_append_entries_rpc_def m1 Let_def split: if_splits)
    obtain m2 c m3 where m2: "store_entries (ae_entries rq) m1 = Some (m2, c)" and m3: "refresh_latest ap c m2 = Some m3"
      and m': "(if ae_leader_commit rq > sc_log_index (mb_committed_state m3)
            then update_commit_index ap (min (ae_leader_commit rq) (get_latest_index (ae_entries rq))) m3
            else Some m3) = Some m'"
      using e False by (auto simp: on_append_entries_rpc_def m1 Let_def split: if_split_asm bind_splits)
    have s1: "storage_run (mb_storage m1)" "check_indexes m1" using o1 by (simp_all add: member_ok_def)
    obtain st where v2: "storage_run (mb_storage m2)" "ps_commit_index (mb_ps m2) = ps_commit_index (mb_ps m1)"
      "lg_prev_index (mb_log m2) = lg_prev_index (mb_log m1)" and st: "m2 = m1\<lparr>mb_storage := st\<rparr>"
      using store_entries_view [OF m2 s1(1) w] by blast
    obtain x where x: "apply_log_entries ap (mb_log m2)
        (sc_log_index (if c then mb_committed_state m2 else mb_latest_state m2) + 1) (get_latest_index (mb_log m2))
        (if c then mb_committed_state m2 else mb_latest_state m2) = Some x" and x': "m3 = m2\<lparr>mb_latest_state := x\<rparr>"
      using m3 by (auto simp: refresh_latest_def Let_def)
    have "sc_log_index (if c then mb_committed_state m1 else mb_latest_state m1) \<le> get_latest_index (mb_log m2)"
      using apply_log_entries_index [OF x] by (auto simp: st split: if_splits)
    then have "sc_log_index (mb_committed_state m1) \<le> get_latest_index (mb_log m2)"
      using s1(2) by (auto simp: check_indexes_def Let_def split: if_splits)
    then have "check_indexes m3"
      using apply_log_entries_index [OF x] s1(2) v2 st x' by (auto simp: check_indexes_def Let_def mb_ps_def)
    moreover have s3: "storage_run (mb_storage m3)" "mb_mode m3 = mb_mode m1" "mb_match_indexes m3 = mb_match_indexes m1"
      "mb_current_term_leader_id m3 = mb_current_term_leader_id m1" using v2 st x' by auto
    ultimately have "member_ok i m3" using follower_ok [of m1 i m3] o1 b by simp
    then show ?thesis
      using m' update_commit_index_ok [of ap _ m3 m'] check_roles_view [of m' m3 i]
      by (auto simp: member_ok_def split: if_splits)
  qed
qed


text \<open>
  A snapshot agrees with what its receiver has committed: its last entry, where the receiver has
  committed that far, is the receiver's entry.
\<close>

definition snapshot_agrees :: "'s install_snapshot \<Rightarrow> ('s, 'c) raft_member \<Rightarrow> bool" where
  "snapshot_agrees rq m \<longleftrightarrow>
     (lg_prev_index (mb_log m) < is_last_included_index rq \<and> is_last_included_index rq \<le> ps_commit_index (mb_ps m) \<longrightarrow>
        get_entry_term (mb_log m) (is_last_included_index rq) = Some (is_last_included_term rq))"

lemma snapshot_cleared:
  assumes "storage_run st" and "unat i < max_index" and w: "write_snapshot ss sc True i t ci st = Some st'"
  shows "storage_run st' \<and> ps_log (rst_state st') = \<lparr>lg_prev_index = i, lg_prev_term = t, lg_entries = []\<rparr>
    \<and> ps_commit_index (rst_state st') = ci"
  using storage_run.wrote_snapshot [OF assms] w by (auto simp: write_snapshot_def Let_def split: bind_splits)

lemma keep_log_ok:
  assumes ok: "member_ok i m" and f: "mb_mode m = Follower"
    and n: "n > lg_prev_index (mb_log m)" "n \<le> get_latest_index (mb_log m)"
    and w: "write_snapshot ss sc False n t (max n (ps_commit_index (mb_ps m))) (mb_storage m) = Some st"
    and m': "(if n > sc_log_index (mb_committed_state m)
       then if ps_commit_index (rst_state st) = n then Some (m\<lparr>mb_storage := st, mb_committed_state := \<lparr>sc_log_index = n,
         sc_state = ss, sc_config = sc\<rparr>\<rparr>) else None
       else Some (m\<lparr>mb_storage := st\<rparr>)) = Some m'"
  shows "member_ok i m'"
proof -
  have s: "storage_run (mb_storage m)" "check_indexes m" using ok by (simp_all add: member_ok_def)
  note v = snapshot_in_log [OF s(1) n [unfolded mb_ps_def] w]
  have "check_indexes m'"
    using m' v s(2) n by (auto simp: check_indexes_def Let_def mb_ps_def max_def split: if_splits)
  moreover have "storage_run (mb_storage m')" using m' v by (auto split: if_splits)
  moreover have "mb_mode m' = Follower" "mb_match_indexes m' = mb_match_indexes m"
    "mb_current_term_leader_id m' = mb_current_term_leader_id m" using m' f by (auto split: if_splits)
  ultimately show ?thesis using follower_ok [OF f ok, of m'] by simp
qed

lemma clear_log_ok:
  assumes ok: "member_ok i m" and f: "mb_mode m = Follower" and n: "unat n < max_index" "n > sc_log_index (mb_committed_state m)"
    and w: "write_snapshot ss sc True n t n (mb_storage m) = Some st"
    and m': "m' = m\<lparr>mb_storage := st, mb_latest_state := \<lparr>sc_log_index = n, sc_state = ss, sc_config = sc\<rparr>,
       mb_committed_state := \<lparr>sc_log_index = n, sc_state = ss, sc_config = sc\<rparr>\<rparr>"
  shows "member_ok i m'"
proof -
  have s: "storage_run (mb_storage m)" using ok by (simp add: member_ok_def)
  note v = snapshot_cleared [OF s n(1) w]
  have "check_indexes m'" using v by (simp add: m' check_indexes_def Let_def mb_ps_def get_latest_index_def)
  then show ?thesis using follower_ok [OF f ok, of m'] v f by (simp add: m')
qed

lemma on_install_snapshot_ok:
  assumes ok: "member_ok i m" and i: "\<not> is_nil i" and a: "snapshot_agrees rq m"
    and b: "unat (is_last_included_index rq) < max_index" and e: "on_install_snapshot_rpc i rq m = Some (m', r)"
  shows "member_ok i m'"
proof -
  let ?n = "is_last_included_index rq" and ?t = "is_last_included_term rq"
  obtain m1 g where m1: "on_rpc_from_leader i (is_leader_id rq) (is_term rq) m = Some (m1, g)"
    using e by (auto simp: on_install_snapshot_rpc_def split: bind_splits)
  note o1 = on_rpc_from_leader_ok [OF ok i m1]
  have a1: "snapshot_agrees rq m1" using a o1 by (simp add: snapshot_agrees_def log_view_def)
  show ?thesis
  proof (cases "g \<and> ?n > lg_prev_index (mb_log m1)")
    case False
    then have "m' = m1" using e by (auto simp: on_install_snapshot_rpc_def m1 Let_def split: if_splits)
    then show ?thesis using o1 by simp
  next
    case True
    then have f: "mb_mode m1 = Follower" and n: "?n > lg_prev_index (mb_log m1)" "\<not> ?n \<le> lg_prev_index (mb_log m1)"
      using o1 by auto
    have c1: "check_indexes m1" using o1 by (simp add: member_ok_def)
    show ?thesis
    proof (cases "?n \<le> get_latest_index (mb_log m1) \<and> get_entry_term (mb_log m1) ?n = Some ?t")
      case keep: True
      then obtain st where "write_snapshot (is_snapshot_state rq) (is_snapshot_config rq) False ?n ?t
          (max ?n (ps_commit_index (mb_ps m1))) (mb_storage m1) = Some st"
        and "(if ?n > sc_log_index (mb_committed_state m1)
         then if ps_commit_index (rst_state st) = ?n then Some (m1\<lparr>mb_storage := st, mb_committed_state := \<lparr>sc_log_index = ?n,
           sc_state = is_snapshot_state rq, sc_config = is_snapshot_config rq\<rparr>\<rparr>) else None
         else Some (m1\<lparr>mb_storage := st\<rparr>)) = Some m'"
        using e True n by (auto simp: on_install_snapshot_rpc_def m1 Let_def mb_ps_def split: if_split_asm bind_splits)
      then show ?thesis using keep_log_ok [of i m1] o1 f n keep by blast
    next
      case clear: False
      have "\<not> ?n \<le> ps_commit_index (mb_ps m1)"
        using a1 clear n c1 by (auto simp: snapshot_agrees_def check_indexes_def Let_def)
      then have less: "?n > sc_log_index (mb_committed_state m1)"
        using c1 by (auto simp: check_indexes_def Let_def)
      then obtain st where "write_snapshot (is_snapshot_state rq) (is_snapshot_config rq) True ?n ?t ?n (mb_storage m1) = Some st"
        and "m' = m1\<lparr>mb_storage := st, mb_latest_state := \<lparr>sc_log_index = ?n, sc_state = is_snapshot_state rq,
           sc_config = is_snapshot_config rq\<rparr>, mb_committed_state := \<lparr>sc_log_index = ?n, sc_state = is_snapshot_state rq,
           sc_config = is_snapshot_config rq\<rparr>\<rparr>"
        using e True n clear by (auto simp: on_install_snapshot_rpc_def m1 Let_def mb_ps_def split: if_split_asm bind_splits)
      then show ?thesis using clear_log_ok [of i m1] o1 f b less by blast
    qed
  qed
qed


section \<open>Elections and the leader\<close>

lemma on_request_vote_ok:
  assumes ok: "member_ok i m" and i: "\<not> is_nil i" and e: "on_request_vote_rpc i heard rq m = Some (m', r)"
  shows "member_ok i m'"
proof -
  have "m' = m \<or> (\<exists>m1. (if rv_term rq > mb_term m
        then do { m \<leftarrow> step_down m; member_update_term (rv_term rq) nil_uuid m } else Some m) = Some m1 \<and>
      (m' = m1 \<or> m' = m1\<lparr>mb_storage := write_current_term_and_voted_for (mb_term m1) (rv_candidate_id rq) (mb_storage m1)\<rparr>))"
    using e by (auto simp: on_request_vote_rpc_def Let_def split: if_split_asm bind_splits)
  then consider "m' = m" | m1 where "(if rv_term rq > mb_term m
        then do { m \<leftarrow> step_down m; member_update_term (rv_term rq) nil_uuid m } else Some m) = Some m1"
      "m' = m1 \<or> m' = m1\<lparr>mb_storage := write_current_term_and_voted_for (mb_term m1) (rv_candidate_id rq) (mb_storage m1)\<rparr>"
    by blast
  then show ?thesis
  proof cases
    case 1
    then show ?thesis using ok by simp
  next
    case (2 m1)
    note c = catch_up_ok [OF ok i 2(1)]
    show ?thesis
    proof (cases "vr_vote_granted r")
      case True
      then have f: "mb_mode m' = Follower" using vote_effect [OF e i] by simp
      from 2(2) show ?thesis
      proof
        assume m': "m' = m1\<lparr>mb_storage := write_current_term_and_voted_for (mb_term m1) (rv_candidate_id rq) (mb_storage m1)\<rparr>"
        have "log_view m' = log_view m1"
          by (simp add: m' log_view_def mb_ps_def write_current_term_and_voted_for_def Let_def)
        then show ?thesis
          using c f m' follower_ok [of m1 i m'] check_indexes_view [of m' m1]
          by (simp add: member_ok_def storage_run.wrote_term)
      qed (use c in simp)
    next
      case False
      then have "m' = m \<or> m' = m1" 
        using e 2(1) by (auto simp: on_request_vote_rpc_def Let_def split: if_split_asm bind_splits)
      then show ?thesis using c ok by auto
    qed
  qed
qed

lemma run_election_ok:
  assumes s: "storage_run (mb_storage m)" "check_indexes m" and mi: "mb_match_indexes m = []" and i: "\<not> is_nil i"
    and e: "run_election i m = Some (m', rq)"
  shows "member_ok i m'"
proof -
  obtain m1 v w where m1: "member_update_term (mb_term m + 1) i m = Some m1" and c: "mb_mode m = Candidate"
    and m': "m' = m1\<lparr>mb_votes := v, mb_won := w\<rparr>"
    using e by (auto simp: run_election_def Let_def split: if_splits bind_splits)
  note u = update_term_view [OF m1 s(1)]
  have "log_view m' = log_view m" using u m' by (simp add: log_view_def mb_ps_def)
  moreover have "check_roles i m'" using u m' c mi i by (auto simp: check_roles_def mb_ps_def is_nil_def)
  ultimately show ?thesis using u m' s(2) check_indexes_view [of m' m] by (simp add: member_ok_def)
qed

lemma on_watchdog_ok:
  assumes "member_ok i m" and "\<not> is_nil i" and "on_watchdog i m = Some (m', rq)"
  shows "member_ok i m'"
proof -
  have f: "mb_mode m = Follower" and r: "run_election i (m\<lparr>mb_mode := Candidate\<rparr>) = Some (m', rq)"
    using assms(3) by (auto simp: on_watchdog_def split: if_splits)
  have "check_indexes (m\<lparr>mb_mode := Candidate\<rparr>)"
    using assms(1) by (simp add: member_ok_def check_indexes_def mb_ps_def)
  then show ?thesis
    using run_election_ok [OF _ _ _ assms(2) r] assms(1) f by (simp add: member_ok_def follower_roles)
qed

lemma candidate_retry_ok:
  assumes "member_ok i m" and "\<not> is_nil i" and "run_election i m = Some (m', rq)"
  shows "member_ok i m'"
proof -
  have "mb_mode m = Candidate" using assms(3) by (auto simp: run_election_def split: if_splits)
  then show ?thesis
    using run_election_ok [OF _ _ _ assms(2,3)] assms(1) by (simp add: member_ok_def check_roles_def)
qed

lemma on_vote_reply_ok:
  assumes "member_ok i m" and "on_vote_reply p r m = Some m'"
  shows "member_ok i m'"
proof -
  obtain v w where "m' = m \<or> m' = m\<lparr>mb_votes := v, mb_won := w\<rparr>"
    using assms(2) by (auto simp: on_vote_reply_def Let_def split: if_splits bind_splits)
  then show ?thesis
    using assms(1) by (auto simp: member_ok_def check_indexes_def check_roles_def mb_ps_def split: raft_mode.splits)
qed

lemma become_leader_ok:
  assumes ok: "member_ok i m" and r: "has_room m" and e: "become_leader ap i m = Some m'"
  shows "member_ok i m'"
proof -
  let ?m = "m\<lparr>mb_mode := Leader, mb_current_term_leader_id := i,
        mb_match_indexes := [(i, get_latest_index (mb_log m))]\<rparr>"
  obtain x where x: "leader_append_log_entry ap i x ?m = Some m'" and c: "mb_mode m = Candidate"
    using e by (auto simp: become_leader_def Let_def mb_ps_def split: if_splits)
  have "check_indexes ?m" "has_room ?m" "mb_voted_for ?m = i" "storage_run (mb_storage ?m)"
    using ok r c by (simp_all add: member_ok_def check_indexes_def has_room_def check_roles_def mb_ps_def)
  then show ?thesis using leader_append_ok [OF x] by simp
qed

lemma append_ok:
  assumes "member_ok i m" and "has_room m" and a: "leader_append_log_entry ap i x m = Some m'"
  shows "member_ok i m'"
proof -
  have "mb_mode m = Leader" using leader_append_log_entry_ballot [OF a] by simp
  then show ?thesis using leader_append_ok [OF a] assms(1,2) by (auto simp: member_ok_def check_roles_def)
qed

lemma propose_entry_ok:
  assumes "member_ok i m" and "has_room m" and "propose_entry ap i x m = Some m'"
  shows "member_ok i m'"
  using assms append_ok by (auto simp: propose_entry_def Let_def split: bind_splits if_splits)

lemma map_of_insert_others:
  assumes "k \<notin> set ks"
  shows "map_of (fold (\<lambda>p. omap_insert p v) ks xs) k = map_of xs k"
  using assms
proof (induction ks arbitrary: xs)
  case (Cons p ks)
  have "map_of (omap_insert p v xs) k = map_of xs k"
    using Cons.prems by (induction p v xs rule: omap_insert.induct) auto
  then show ?case using Cons by simp
qed simp

lemma spawn_ok:
  assumes ok: "member_ok i m" and e: "leader_spawn_update_coros i m = Some m'"
  shows "member_ok i m'"
proof -
  let ?ps = "complex_all_members (sc_config (mb_latest_state m))"
  let ?xs = "fold (\<lambda>p. omap_insert p 0) (sorted_list_of_set (?ps - {i})) (mb_match_indexes m)"
  have l: "mb_mode m = Leader" and m': "m' = m\<lparr>mb_match_indexes := filter (\<lambda>(k, v). k = i \<or> k \<in> ?ps) ?xs\<rparr>"
    using e by (auto simp: leader_spawn_update_coros_def Let_def split: if_splits)
  have "map_of (filter (\<lambda>(k, v). k = i \<or> k \<in> ?ps) xs) i = map_of xs i" for xs :: "(raft_member_id, raft_log_index) omap"
    by (induction xs) auto
  moreover have "i \<notin> set (sorted_list_of_set (?ps - {i}))"
    by (cases "finite (?ps - {i})") simp_all
  ultimately have "map_of (mb_match_indexes m') i = map_of (mb_match_indexes m) i"
    using map_of_insert_others [of i "sorted_list_of_set (?ps - {i})" 0 "mb_match_indexes m"] m' by simp
  then show ?thesis
    using ok l m' by (simp add: member_ok_def check_indexes_def check_roles_def mb_ps_def)
qed

lemma member_init_ok:
  assumes s: "storage_run st" and i: "\<not> is_nil i" and e: "member_init ap st = Some m"
  shows "member_ok i m"
proof -
  let ?ps = "rst_state st"
  let ?sc = "\<lparr>sc_log_index = lg_prev_index (ps_log ?ps), sc_state = ps_snapshot_state ?ps, sc_config = ps_snapshot_config ?ps\<rparr>"
  obtain x y where x: "apply_log_entries ap (ps_log ?ps) (lg_prev_index (ps_log ?ps) + 1) (get_latest_index (ps_log ?ps)) ?sc = Some x"
    and y: "apply_log_entries ap (ps_log ?ps) (lg_prev_index (ps_log ?ps) + 1) (ps_commit_index ?ps) ?sc = Some y"
    and m: "\<lparr>mb_storage = st, mb_mode = Follower, mb_current_term_leader_id = nil_uuid,
         mb_committed_state = y, mb_latest_state = x, mb_match_indexes = [], mb_votes = {}, mb_won = False\<rparr> = m"
    using e by (auto simp: member_init_def Let_def split: bind_splits)
  have p: "lg_prev_index (ps_log ?ps) \<le> get_latest_index (ps_log ?ps)" by (rule prev_le_latest [OF storage_whole [OF s]])
  have "ps_commit_index ?ps \<le> get_latest_index (ps_log ?ps)"
  proof (cases "lg_prev_index (ps_log ?ps) < ps_commit_index ?ps")
    case True
    then show ?thesis using apply_log_entries_index [OF y] by simp
  next
    case False
    then show ?thesis using p by simp
  qed
  then have "check_indexes m"
    using apply_log_entries_index [OF x] apply_log_entries_index [OF y]
    by (simp add: m [symmetric] check_indexes_def Let_def mb_ps_def)
  moreover have "check_roles i m" using i by (auto simp: m [symmetric] check_roles_def is_nil_def)
  ultimately show ?thesis using s by (simp add: member_ok_def m [symmetric])
qed


section \<open>Runs of a member\<close>

text \<open>
  Everything a member can do. Logs in messages are whole, the leader appends while there is room
  for an index, and snapshots agree with what the member has committed; nothing else is asked of the
  messages.
\<close>

inductive member_run :: "('s, 'c) apply_fn \<Rightarrow> raft_member_id \<Rightarrow> ('s, 'c) raft_member \<Rightarrow> bool"
  for ap :: "('s, 'c) apply_fn" and i :: raft_member_id where
  start: "storage_run st \<Longrightarrow> \<not> is_nil i \<Longrightarrow> member_init ap st = Some m \<Longrightarrow> member_run ap i m"
| append: "member_run ap i m \<Longrightarrow> whole (ae_entries rq) \<Longrightarrow> on_append_entries_rpc ap i rq m = Some (m', r) \<Longrightarrow> member_run ap i m'"
| install: "member_run ap i m \<Longrightarrow> snapshot_agrees irq m \<Longrightarrow> unat (is_last_included_index irq) < max_index \<Longrightarrow>
     on_install_snapshot_rpc i irq m = Some (m', t) \<Longrightarrow> member_run ap i m'"
| heartbeat: "member_run ap i m \<Longrightarrow> on_rpc_from_leader i l t m = Some (m', ok) \<Longrightarrow> member_run ap i m'"
| vote: "member_run ap i m \<Longrightarrow> on_request_vote_rpc i heard vrq m = Some (m', vr) \<Longrightarrow> member_run ap i m'"
| stand: "member_run ap i m \<Longrightarrow> on_watchdog i m = Some (m', vrq) \<Longrightarrow> member_run ap i m'"
| retry: "member_run ap i m \<Longrightarrow> run_election i m = Some (m', vrq) \<Longrightarrow> member_run ap i m'"
| counted: "member_run ap i m \<Longrightarrow> on_vote_reply p vr m = Some m' \<Longrightarrow> member_run ap i m'"
| lead: "member_run ap i m \<Longrightarrow> has_room m \<Longrightarrow> become_leader ap i m = Some m' \<Longrightarrow> member_run ap i m'"
| noted: "member_run ap i m \<Longrightarrow> note_term_coro lt t m = Some m' \<Longrightarrow> member_run ap i m'"
| spawned: "member_run ap i m \<Longrightarrow> leader_spawn_update_coros i m = Some m' \<Longrightarrow> member_run ap i m'"
| reconfigured: "member_run ap i m \<Longrightarrow> has_room m \<Longrightarrow> leader_continue_reconfiguration ap i m = Some m' \<Longrightarrow> member_run ap i m'"
| snapshot_reply: "member_run ap i m \<Longrightarrow> p \<noteq> i \<Longrightarrow> on_snapshot_reply ap p irq t m = Some (m', n) \<Longrightarrow> member_run ap i m'"
| append_reply: "member_run ap i m \<Longrightarrow> p \<noteq> i \<Longrightarrow> on_append_reply ap p ni rq r m = Some (m', n) \<Longrightarrow> member_run ap i m'"
| change: "member_run ap i m \<Longrightarrow> has_room m \<Longrightarrow> propose_change ap i ready c m = Some m' \<Longrightarrow> member_run ap i m'"
| config_change: "member_run ap i m \<Longrightarrow> has_room m \<Longrightarrow> propose_config_change ap i ready cfg m = Some m' \<Longrightarrow> member_run ap i m'"
| noop: "member_run ap i m \<Longrightarrow> has_room m \<Longrightarrow> propose_noop ap i ready m = Some m' \<Longrightarrow> member_run ap i m'"

lemma member_run_ok: "member_run ap i m \<Longrightarrow> member_ok i m \<and> \<not> is_nil i"
proof (induction rule: member_run.induct)
  case (start st m)
  then show ?case using member_init_ok by blast
next
  case (append m rq m' r)
  then show ?case using on_append_entries_ok by blast
next
  case (install m irq m' t)
  then show ?case using on_install_snapshot_ok by blast
next
  case (heartbeat m l t m' ok)
  then show ?case using on_rpc_from_leader_ok by blast
next
  case (vote m heard vrq m' vr)
  then show ?case using on_request_vote_ok by blast
next
  case (stand m m' vrq)
  then show ?case using on_watchdog_ok by blast
next
  case (retry m m' vrq)
  then show ?case using candidate_retry_ok by blast
next
  case (counted m p vr m')
  then show ?case using on_vote_reply_ok by blast
next
  case (lead m m')
  then show ?case using become_leader_ok by blast
next
  case (noted m lt t m')
  then show ?case using new_term_ok by (auto simp: note_term_coro_def split: if_splits)
next
  case (spawned m m')
  then show ?case using spawn_ok by blast
next
  case (reconfigured m m')
  then show ?case
    using append_ok by (auto simp: leader_continue_reconfiguration_def Let_def split: if_splits bind_splits)
next
  case (snapshot_reply m p irq t m' n)
  then show ?case using peer_match_ok by (auto simp: on_snapshot_reply_def split: if_splits bind_splits)
next
  case (append_reply m p ni rq r m' n)
  then show ?case using peer_match_ok by (auto simp: on_append_reply_def Let_def split: if_splits bind_splits)
next
  case (change m ready c m')
  then show ?case using propose_entry_ok by (auto simp: propose_change_def split: if_splits)
next
  case (config_change m ready cfg m')
  then show ?case using propose_entry_ok by (auto simp: propose_config_change_def split: if_splits)
next
  case (noop m ready m')
  then show ?case using propose_entry_ok by (auto simp: propose_noop_def split: if_splits)
qed

text \<open>
  Property C3. In every run of a member the checks of \<open>check_invariants\<close> on indexes and roles hold
  after every step: the commit index in storage is that of the committed state and lies in the log,
  the latest state is the state after the whole log, a member is leader exactly if it takes itself for
  the leader of the term, only a leader has match indexes, its own being the end of its log, candidates and
  leaders have voted for themselves, and a leader's log ends with an entry of its term. What
  storage holds is the result of storage operations throughout, so a restart continues from it.
\<close>

theorem member_invariants:
  assumes "member_run ap i m"
  shows "check_indexes m \<and> check_roles i m \<and> storage_run (mb_storage m)"
  using member_run_ok [OF assms] by (simp add: member_ok_def)


section \<open>Witness\<close>

lemma fresh_storage_run: "storage_run fresh_storage"
proof -
  have b: "whole (ps_log (make_initial 0 (cc_config three_voters) :: (nat, nat) raft_persistent_state))"
    by (simp add: make_initial_def log_bounded_def max_index_def)
  show ?thesis unfolding fresh_storage_def using storage_run.created [OF create_file_of [OF b] b] .
qed

lemma winner_one_empty: "length (lg_entries (mb_log winner_one)) = 0 \<and> lg_prev_index (mb_log winner_one) = 0"
  by code_simp

theorem member_invariants_witness:
  "member_run still 1 leader_one \<and> mb_mode leader_one = Leader
   \<and> check_indexes leader_one \<and> check_roles 1 leader_one \<and> storage_run (mb_storage leader_one)"
proof -
  have n: "\<not> is_nil (1 :: raft_member_id)" by (simp add: is_nil_def nil_uuid_def)
  have r0: "member_run still 1 fresh_member" by (rule member_run.start [OF fresh_storage_run n fresh_member_init])
  have r1: "member_run still 1 candidate_one" by (rule member_run.stand [OF r0 candidate_one_stands])
  have r2: "member_run still 1 winner_one" by (rule member_run.counted [OF r1 winner_one_counts])
  have "has_room winner_one" using winner_one_empty by (simp add: has_room_def log_bounded_def max_index_def)
  then have r3: "member_run still 1 leader_one" using member_run.lead [OF r2 _ leader_one_leads] by simp
  then show ?thesis using member_invariants [OF r3] election_facts by simp
qed

end
