(* ===== verification/Documents.thy ===== *)
theory Documents
  imports Rdb_Prelude Complex_Main "HOL-Library.List_Lexorder" "HOL-Library.Char_ord" "HOL-Library.AList"
begin

text \<open>
  Documents and the row operations of the server (\<open>rdb_protocol\<close>): matching a document against
  an object (\<open>func.cc\<close>), merging (\<open>datum.cc\<close>), replacing one row with the statistics
  that go with it (\<open>btree.cc\<close>, \<open>table_common.cc\<close>), and insertion and update as the query
  terms compose them (\<open>terms/writes.cc\<close>, \<open>terms/rewrites.cc\<close>). Tables without write hook; the
  texts of error messages are left out.
\<close>

section \<open>Datums\<close>

text \<open>
  The fields of an object are kept in key order. Numbers are finite doubles, rationals here.
  Binary data, \<open>minval\<close> and \<open>maxval\<close> cannot come from a JSON request.
\<close>

datatype datum =
    R_null | R_bool bool | R_num rat | R_str string
  | R_array "datum list" | R_object "(string \<times> datum) list"

type_synonym fields = "(string, datum) omap"

fun get_field :: "datum \<Rightarrow> string \<Rightarrow> datum option" where
  "get_field (R_object fs) k = map_of fs k"
| "get_field _ k = None"

definition is_literal :: "datum \<Rightarrow> bool" where
  "is_literal d \<longleftrightarrow> get_field d ''$reql_type$'' = Some (R_str ''LITERAL'')"

text \<open>\<open>filter_match\<close>: \<open>None\<close> is the non-existence error.\<close>

fun filter_match :: "datum \<Rightarrow> datum \<Rightarrow> bool option"
  and filter_fields :: "fields \<Rightarrow> datum \<Rightarrow> bool option" where
  "filter_match (R_object fs) value =
     (if is_literal (R_object fs)
      then map_option (\<lambda>v. v = value) (get_field (R_object fs) ''value'')
      else filter_fields fs value)"
| "filter_match _ value = None"
| "filter_fields [] value = Some True"
| "filter_fields ((k, p) # fs) value =
     (case get_field value k of
        None \<Rightarrow> None
      | Some elt \<Rightarrow>
          (case (p, elt) of
             (R_object _, R_object _) \<Rightarrow>
               (case filter_match p elt of
                  None \<Rightarrow> None
                | Some ok \<Rightarrow> if ok then filter_fields fs value else Some False)
           | _ \<Rightarrow> if elt \<noteq> p then Some False else filter_fields fs value))"

text \<open>\<open>filter_call\<close> without a default: a missing attribute is no match.\<close>

definition filter_call :: "datum \<Rightarrow> datum \<Rightarrow> bool" where
  "filter_call predicate arg = (case filter_match predicate arg of None \<Rightarrow> False | Some b \<Rightarrow> b)"

text \<open>
  \<open>drop_literals\<close>: \<open>None\<close> is the value a literal without \<open>value\<close> field leaves. Nested literals are
  rejected before, by a sanity check of the code.
\<close>

fun drop_literals :: "datum \<Rightarrow> datum option"
  and drop_fields :: "fields \<Rightarrow> fields"
  and drop_elems :: "datum list \<Rightarrow> datum list" where
  "drop_literals (R_object fs) =
     (if is_literal (R_object fs) then get_field (R_object fs) ''value''
      else Some (R_object (drop_fields fs)))"
| "drop_literals (R_array ds) = Some (R_array (drop_elems ds))"
| "drop_literals d = Some d"
| "drop_fields [] = []"
| "drop_fields ((k, d) # fs) =
     (case drop_literals d of None \<Rightarrow> drop_fields fs | Some v \<Rightarrow> (k, v) # drop_fields fs)"
| "drop_elems [] = []"
| "drop_elems (d # ds) =
     (case drop_literals d of None \<Rightarrow> drop_elems ds | Some v \<Rightarrow> v # drop_elems ds)"

text \<open>\<open>default_merge_unchecked_stack\<close>: its loop over the fields of the right-hand side.\<close>

fun merge_fields :: "fields \<Rightarrow> fields \<Rightarrow> fields" where
  "merge_fields d [] = d"
| "merge_fields d ((k, R_object vs) # rs) =
     merge_fields
       (if is_literal (R_object vs) then
          (case get_field (R_object vs) ''value'' of
             Some v \<Rightarrow> omap_assign k v d
           | None \<Rightarrow> omap_erase k d)
        else
          (case map_of d k of
             Some (R_object ss) \<Rightarrow> omap_assign k (R_object (merge_fields ss vs)) d
           | _ \<Rightarrow> omap_assign k (R_object (drop_fields vs)) d)) rs"
| "merge_fields d ((k, v) # rs) =
     merge_fields (case drop_literals v of Some w \<Rightarrow> omap_assign k w d | None \<Rightarrow> omap_erase k d) rs"

definition datum_merge :: "datum \<Rightarrow> datum \<Rightarrow> datum option" where
  "datum_merge l r =
     (case (l, r) of
        (R_object ls, R_object rs) \<Rightarrow> Some (R_object (merge_fields ls rs))
      | _ \<Rightarrow> drop_literals r)"

section \<open>Rows\<close>

record write_stats =
  ws_deleted :: nat
  ws_errors :: nat
  ws_inserted :: nat
  ws_replaced :: nat
  ws_skipped :: nat
  ws_unchanged :: nat

definition new_stats_object :: write_stats where
  "new_stats_object = \<lparr>ws_deleted = 0, ws_errors = 0, ws_inserted = 0, ws_replaced = 0,
     ws_skipped = 0, ws_unchanged = 0\<rparr>"

text \<open>\<open>stats_merge\<close> on the counters.\<close>

definition stats_merge :: "write_stats \<Rightarrow> write_stats \<Rightarrow> write_stats" where
  "stats_merge l r = \<lparr>ws_deleted = ws_deleted l + ws_deleted r, ws_errors = ws_errors l + ws_errors r,
     ws_inserted = ws_inserted l + ws_inserted r, ws_replaced = ws_replaced l + ws_replaced r,
     ws_skipped = ws_skipped l + ws_skipped r, ws_unchanged = ws_unchanged l + ws_unchanged r\<rparr>"

definition make_row_replacement_stats :: "datum \<Rightarrow> datum \<Rightarrow> write_stats \<times> bool" where
  "make_row_replacement_stats old_row new_row =
     (let started_empty = (old_row = R_null); ended_empty = (new_row = R_null);
          was_changed = (old_row \<noteq> new_row); resp = new_stats_object
      in (if started_empty then
            (if ended_empty then resp\<lparr>ws_skipped := 1\<rparr> else resp\<lparr>ws_inserted := 1\<rparr>)
          else if ended_empty then resp\<lparr>ws_deleted := 1\<rparr>
          else if \<not> was_changed then resp\<lparr>ws_unchanged := 1\<rparr>
          else resp\<lparr>ws_replaced := 1\<rparr>, was_changed))"

definition make_row_replacement_error_stats :: write_stats where
  "make_row_replacement_error_stats = new_stats_object\<lparr>ws_errors := 1\<rparr>"

text \<open>
  A table is the list of its rows under their primary keys, in no particular order. The primary
  key is the field \<open>id\<close>. \<open>key_ok\<close> stands for the test that a datum can be printed as a key.
\<close>

type_synonym table = "(datum \<times> datum) list"

definition rcheck_row_replacement :: "datum \<Rightarrow> datum \<Rightarrow> datum \<Rightarrow> bool" where
  "rcheck_row_replacement key old_row new_row =
     (case new_row of
        R_object _ \<Rightarrow>
          (case get_field new_row ''id'' of
             None \<Rightarrow> False
           | Some pk \<Rightarrow> (old_row \<noteq> R_null \<longrightarrow> get_field old_row ''id'' = Some pk) \<and> pk = key)
      | _ \<Rightarrow> new_row = R_null)"

text \<open>\<open>rdb_replace_and_return_superblock\<close>; the replacer's \<open>None\<close> is an exception.\<close>

definition rdb_replace :: "datum \<Rightarrow> (datum \<Rightarrow> datum option) \<Rightarrow> table \<Rightarrow> table \<times> write_stats" where
  "rdb_replace key replacer t =
     (let old_val = (case map_of t key of None \<Rightarrow> R_null | Some row \<Rightarrow> row)
      in case replacer old_val of
           None \<Rightarrow> (t, make_row_replacement_error_stats)
         | Some new_val \<Rightarrow>
             (if rcheck_row_replacement key old_val new_val then
                (let (resp, was_changed) = make_row_replacement_stats old_val new_val
                 in if \<not> was_changed then (t, resp)
                    else if new_val = R_null then (AList.delete key t, resp)
                    else (AList.update key new_val t, resp))
              else (t, make_row_replacement_error_stats)))"

text \<open>\<open>resolve_insert_conflict\<close> with the default conflict behaviour.\<close>

definition resolve_insert_conflict :: "datum \<Rightarrow> datum \<Rightarrow> datum option" where
  "resolve_insert_conflict insert_row old_row = (if old_row = R_null then Some insert_row else None)"

section \<open>Insertion and update\<close>

record rdb_server =
  sv_tables :: "(string \<times> table) list"
  sv_generated :: nat

text \<open>
  \<open>maybe_generate_key\<close>: \<open>gen n\<close> is the text of the \<open>n\<close>-th identifier \<open>generate_uuid\<close> returns. The
  result has the new document and whether its key was generated.
\<close>

definition maybe_generate_key :: "(nat \<Rightarrow> string) \<Rightarrow> nat \<Rightarrow> datum \<Rightarrow> datum \<times> bool" where
  "maybe_generate_key gen n d =
     (case d of
        R_object fs \<Rightarrow>
          (case map_of fs ''id'' of
             None \<Rightarrow> (R_object (omap_assign ''id'' (R_str (gen n)) fs), True)
           | Some _ \<Rightarrow> (d, False))
      | _ \<Rightarrow> (d, False))"

text \<open>One document of \<open>table_t::batched_insert\<close>: the errors found before the write, then the write.\<close>

definition insert_one :: "(datum \<Rightarrow> bool) \<Rightarrow> datum \<Rightarrow> table \<Rightarrow> table \<times> write_stats" where
  "insert_one key_ok d t =
     (case get_field d ''id'' of
        None \<Rightarrow> (t, make_row_replacement_error_stats)
      | Some key \<Rightarrow>
          (if key_ok key then rdb_replace key (resolve_insert_conflict d) t
           else (t, make_row_replacement_error_stats)))"

fun insert_all :: "(datum \<Rightarrow> bool) \<Rightarrow> (nat \<Rightarrow> string) \<Rightarrow> datum list \<Rightarrow> nat \<Rightarrow> table \<Rightarrow> write_stats
    \<Rightarrow> table \<times> nat \<times> write_stats" where
  "insert_all key_ok gen [] n t stats = (t, n, stats)"
| "insert_all key_ok gen (d # ds) n t stats =
     (let (d', generated) = maybe_generate_key gen n d;
          (t', replace_stats) = insert_one key_ok d' t
      in insert_all key_ok gen ds (if generated then Suc n else n) t' (stats_merge stats replace_stats))"

text \<open>\<open>insert_term_t::eval_impl\<close>: \<open>None\<close> is the error of a value that is no document and no sequence.\<close>

definition insert_term :: "(datum \<Rightarrow> bool) \<Rightarrow> (nat \<Rightarrow> string) \<Rightarrow> datum \<Rightarrow> nat \<Rightarrow> table
    \<Rightarrow> (table \<times> nat \<times> write_stats) option" where
  "insert_term key_ok gen v n t =
     (case v of
        R_object _ \<Rightarrow> Some (insert_all key_ok gen [v] n t new_stats_object)
      | R_array ds \<Rightarrow> Some (insert_all key_ok gen ds n t new_stats_object)
      | _ \<Rightarrow> None)"

text \<open>\<open>update_term_t\<close>: what the rewritten term gives as the new row.\<close>

definition update_row :: "datum \<Rightarrow> datum \<Rightarrow> datum option" where
  "update_row patch old_row =
     (if old_row = R_null then Some R_null
      else if patch = R_null then Some old_row
      else datum_merge old_row patch)"

definition update_term :: "(datum \<Rightarrow> bool) \<Rightarrow> datum \<Rightarrow> datum \<Rightarrow> table \<Rightarrow> (table \<times> write_stats) option" where
  "update_term key_ok key patch t =
     (if key_ok key
      then (let (t', replace_stats) = rdb_replace key (update_row patch) t
            in Some (t', stats_merge new_stats_object replace_stats))
      else None)"

section \<open>What the operations do\<close>

definition primitive :: "datum \<Rightarrow> bool" where
  "primitive d = (case d of R_array _ \<Rightarrow> False | R_object _ \<Rightarrow> False | _ \<Rightarrow> True)"

lemma primitive_simps [simp]:
  "primitive R_null" "primitive (R_bool b)" "primitive (R_num n)" "primitive (R_str s)"
  "\<not> primitive (R_array ds)" "\<not> primitive (R_object fs)"
  by (simp_all add: primitive_def)

lemma primitive_not_literal: "primitive d \<Longrightarrow> \<not> is_literal d"
  by (cases d) (simp_all add: is_literal_def)

lemma filter_fields_primitive:
  assumes "\<forall>(k, p) \<in> set fs. primitive p"
  shows "filter_fields fs value = Some True \<longleftrightarrow> (\<forall>(k, p) \<in> set fs. get_field value k = Some p)"
  using assms
proof (induction fs)
  case Nil
  then show ?case by simp
next
  case (Cons f fs)
  obtain k p where f: "f = (k, p)" by (cases f)
  have "primitive p" using Cons.prems by (simp add: f)
  then have "filter_fields (f # fs) value =
    (case get_field value k of None \<Rightarrow> None
     | Some elt \<Rightarrow> if elt \<noteq> p then Some False else filter_fields fs value)"
    by (cases p) (auto simp: f split: option.splits)
  then show ?case using Cons.IH Cons.prems by (auto simp: f split: option.splits)
qed

text \<open>A pattern of primitive values selects the documents that have exactly these values.\<close>

lemma filter_call_primitive:
  assumes "\<forall>(k, p) \<in> set fs. primitive p" and "''$reql_type$'' \<notin> fst ` set fs"
  shows "filter_call (R_object fs) row \<longleftrightarrow> (\<forall>(k, p) \<in> set fs. get_field row k = Some p)"
proof -
  have "\<not> is_literal (R_object fs)"
    using assms(2) by (auto simp: is_literal_def dest: map_of_SomeD intro: rev_image_eqI)
  then have "filter_call (R_object fs) row \<longleftrightarrow> filter_fields fs row = Some True"
    by (auto simp: filter_call_def split: option.splits)
  then show ?thesis using filter_fields_primitive [OF assms(1)] by simp
qed

text \<open>
  Merging keeps the fields the patch does not mention, sets the fields it gives a primitive
  value, and leaves no primitive value where the patch has an array or an object.
\<close>

definition merge_value :: "datum option \<Rightarrow> datum \<Rightarrow> datum option" where
  "merge_value old v =
     (case v of
        R_object vs \<Rightarrow>
          (if is_literal v then get_field v ''value''
           else (case old of
                   Some (R_object ss) \<Rightarrow> Some (R_object (merge_fields ss vs))
                 | _ \<Rightarrow> Some (R_object (drop_fields vs))))
      | _ \<Rightarrow> drop_literals v)"

lemma merge_fields_Cons:
  "merge_fields d ((k, v) # rs) =
     merge_fields (case merge_value (map_of d k) v of Some w \<Rightarrow> omap_assign k w d | None \<Rightarrow> omap_erase k d) rs"
  by (cases v) (auto simp: merge_value_def split: option.splits datum.splits)

lemma map_of_merge_fields:
  assumes "distinct (map fst rs)"
  shows "map_of (merge_fields d rs) k =
    (case map_of rs k of None \<Rightarrow> map_of d k | Some v \<Rightarrow> merge_value (map_of d k) v)"
  using assms
proof (induction rs arbitrary: d)
  case Nil
  then show ?case by simp
next
  case (Cons r rs)
  obtain l v where r: "r = (l, v)" by (cases r)
  define e where "e = (case merge_value (map_of d l) v of Some w \<Rightarrow> omap_assign l w d | None \<Rightarrow> omap_erase l d)"
  have e: "map_of e = (map_of d)(l := merge_value (map_of d l) v)"
    by (auto simp: e_def map_of_omap_assign map_of_omap_erase fun_eq_iff split: option.splits)
  have "map_of rs l = None" using Cons.prems by (simp add: r map_of_eq_None_iff)
  moreover have "merge_fields d (r # rs) = merge_fields e rs" by (simp add: r merge_fields_Cons e_def)
  ultimately show ?case using Cons by (simp add: r e split: option.splits)
qed

lemma merge_value_primitive: "primitive v \<Longrightarrow> merge_value old v = Some v"
  by (cases v) (simp_all add: merge_value_def)

lemma merge_value_compound:
  assumes "merge_value old v = Some w" and "\<not> is_literal v" and "\<not> primitive v"
  shows "\<not> primitive w"
  using assms by (cases v) (auto simp: merge_value_def split: option.splits datum.splits)

text \<open>A row operation leaves the table alone, or sets or deletes the row of its key.\<close>

lemma rdb_replace_table:
  assumes "rdb_replace key f t = (t', s)"
  shows "map_of t' = map_of t
    \<or> (\<exists>new. f (case map_of t key of None \<Rightarrow> R_null | Some row \<Rightarrow> row) = Some new
          \<and> rcheck_row_replacement key (case map_of t key of None \<Rightarrow> R_null | Some row \<Rightarrow> row) new
          \<and> map_of t' = (map_of t)(key := if new = R_null then None else Some new))"
proof -
  define old where "old = (case map_of t key of None \<Rightarrow> R_null | Some row \<Rightarrow> row)"
  show ?thesis
  proof (cases "f old")
    case None
    then show ?thesis using assms by (simp add: rdb_replace_def old_def [symmetric])
  next
    case (Some new)
    then show ?thesis using assms
      by (auto simp: rdb_replace_def old_def [symmetric] Let_def make_row_replacement_stats_def
          AList.update_conv' AList.delete_conv' split: if_splits)
  qed
qed

lemma rdb_replace_same:
  assumes "f old = Some old" and "old = (case map_of t key of None \<Rightarrow> R_null | Some row \<Rightarrow> row)"
  shows "fst (rdb_replace key f t) = t"
  using assms(1) unfolding rdb_replace_def assms(2) [symmetric]
  by (simp add: make_row_replacement_stats_def Let_def)

lemma rdb_replace_distinct:
  "distinct (map fst t) \<Longrightarrow> distinct (map fst (fst (rdb_replace key f t)))"
  by (auto simp: rdb_replace_def Let_def make_row_replacement_stats_def distinct_update distinct_delete
      split: option.splits)

end
