(* ===== verification/Backend_App.thy ===== *)
theory Backend_App
  imports Documents
begin

text \<open>
  The REST backend (\<open>server.js\<close>, \<open>router\<close>, \<open>controller\<close>, \<open>model\<close>): every controller function as
  the queries it awaits and the response it sends, over the row operations of \<open>Documents\<close>. The
  driver packages that carry a query to the server are a parameter.
\<close>

section \<open>Queries\<close>

text \<open>
  The shapes of query the models build. A field of a pattern is \<open>None\<close> when its JavaScript
  value is \<open>undefined\<close>. \<open>Q_where\<close> is the chain of \<open>r.row(f).eq(v)\<close> filters, \<open>Q_connect\<close> is \<open>r.connect()\<close>.
\<close>

datatype query =
    Q_connect
  | Q_table string
  | Q_filter string "(string \<times> datum option) list"
  | Q_where string "(string \<times> datum option) list"
  | Q_get string datum
  | Q_insert string datum
  | Q_update string datum datum

datatype answer = A_connection | A_rows "datum list" | A_row datum | A_stats write_stats

definition pattern :: "(string \<times> datum option) list \<Rightarrow> fields option" where
  "pattern ps =
     (if \<exists>p \<in> set ps. snd p = None then None else Some (map (\<lambda>(k, v). (k, the v)) ps))"

text \<open>What the server answers; \<open>None\<close> is an error, which the driver raises and which changes nothing.\<close>

definition eval_query :: "(datum \<Rightarrow> bool) \<Rightarrow> (nat \<Rightarrow> string) \<Rightarrow> query \<Rightarrow> rdb_server
    \<Rightarrow> (answer \<times> rdb_server) option" where
  "eval_query key_ok gen q sv =
     (case q of
        Q_connect \<Rightarrow> Some (A_connection, sv)
      | Q_table name \<Rightarrow>
          do { t \<leftarrow> map_of (sv_tables sv) name; Some (A_rows (map snd t), sv) }
      | Q_filter name ps \<Rightarrow>
          do {
            t \<leftarrow> map_of (sv_tables sv) name;
            fs \<leftarrow> pattern ps;
            Some (A_rows (filter (filter_call (R_object fs)) (map snd t)), sv)
          }
      | Q_where name ps \<Rightarrow>
          do {
            t \<leftarrow> map_of (sv_tables sv) name;
            fs \<leftarrow> pattern ps;
            Some (A_rows (filter (\<lambda>row. \<forall>(k, v) \<in> set fs. get_field row k = Some v) (map snd t)), sv)
          }
      | Q_get name key \<Rightarrow>
          do {
            t \<leftarrow> map_of (sv_tables sv) name;
            if key_ok key
            then Some (A_row (case map_of t key of None \<Rightarrow> R_null | Some row \<Rightarrow> row), sv) else None
          }
      | Q_insert name d \<Rightarrow>
          do {
            t \<leftarrow> map_of (sv_tables sv) name;
            (t', n, stats) \<leftarrow> insert_term key_ok gen d (sv_generated sv) t;
            Some (A_stats stats,
              sv\<lparr>sv_tables := AList.update name t' (sv_tables sv), sv_generated := n\<rparr>)
          }
      | Q_update name key patch \<Rightarrow>
          do {
            t \<leftarrow> map_of (sv_tables sv) name;
            (t', stats) \<leftarrow> update_term key_ok key patch t;
            Some (A_stats stats, sv\<lparr>sv_tables := AList.update name t' (sv_tables sv)\<rparr>)
          })"

section \<open>Handlers\<close>

text \<open>
  A handler awaits queries one after the other and ends with a response. \<open>Start\<close> issues a query
  without awaiting it.
\<close>

datatype sent = S_bool bool | S_text string | S_answer answer

datatype body = B_answer answer | B_fields "(string \<times> sent) list"

datatype proc = Respond nat body | Await query "answer \<Rightarrow> proc" | Start query proc

text \<open>
  The driver: given a query and the state of the world, the new state and the answer, \<open>None\<close> for a
  rejected promise. A rejected \<open>await\<close> leaves the \<open>async\<close> handler without a response.
\<close>

type_synonym 'w driver = "query \<Rightarrow> 'w \<Rightarrow> 'w \<times> answer option"

primrec run_proc :: "'w driver \<Rightarrow> proc \<Rightarrow> 'w \<Rightarrow> 'w \<times> (nat \<times> body) option" where
  "run_proc D (Respond status b) w = (w, Some (status, b))"
| "run_proc D (Await q k) w =
     (case D q w of (w', None) \<Rightarrow> (w', None) | (w', Some a) \<Rightarrow> run_proc D (k a) w')"
| "run_proc D (Start q p) w = run_proc D p (fst (D q w))"

text \<open>JavaScript values: a property of a parsed document, \<open>Array.prototype.includes\<close>.\<close>

definition answer_rows :: "answer \<Rightarrow> datum list" where
  "answer_rows a = (case a of A_rows ds \<Rightarrow> ds | _ \<Rightarrow> [])"

definition same_value_zero :: "datum option \<Rightarrow> datum option \<Rightarrow> bool" where
  "same_value_zero a b \<longleftrightarrow>
     a = b \<and> (case a of Some (R_array _) \<Rightarrow> False | Some (R_object _) \<Rightarrow> False | _ \<Rightarrow> True)"

definition js_includes :: "datum option list \<Rightarrow> datum option \<Rightarrow> bool" where
  "js_includes xs x \<longleftrightarrow> list_ex (same_value_zero x) xs"

definition replaced :: "answer \<Rightarrow> nat" where
  "replaced a = (case a of A_stats s \<Rightarrow> ws_replaced s | _ \<Rightarrow> 0)"

definition active :: "string \<times> datum option" where
  "active = (''status'', Some (R_str ''Active''))"

definition inactive_patch :: datum where
  "inactive_patch = R_object [(''status'', R_str ''Inactive'')]"

definition conflict :: "string \<Rightarrow> proc" where
  "conflict message = Respond 409 (B_fields [(''error'', S_bool True), (''message'', S_text message)])"

definition missing_id :: proc where
  "missing_id = Respond 400 (B_fields [(''message'', S_text ''Id parameter is missing.'')])"

definition success :: "string \<Rightarrow> answer \<Rightarrow> proc" where
  "success key a = Respond 200 (B_fields [(''error'', S_bool False), (key, S_answer a)])"

section \<open>Companies\<close>

definition Company_getAll :: query where
  "Company_getAll = Q_filter ''company'' [active]"

definition Company_create :: "datum \<Rightarrow> query" where
  "Company_create data = Q_insert ''company'' data"

definition Company_update :: "string \<Rightarrow> datum \<Rightarrow> query" where
  "Company_update row_id data = Q_update ''company'' (R_str row_id) data"

definition Company_delete :: "string \<Rightarrow> query" where
  "Company_delete row_id = Q_update ''company'' (R_str row_id) inactive_patch"

definition Company_getByCompanyName :: "datum option \<Rightarrow> query" where
  "Company_getByCompanyName name = Q_filter ''company'' [(''company_name'', name), active]"

definition company_getAll :: proc where
  "company_getAll = Await Company_getAll (\<lambda>companies. Respond 200 (B_answer companies))"

definition company_create :: "datum \<Rightarrow> proc" where
  "company_create req_body =
     (let company_name = get_field req_body ''company_name''
      in Await (Company_getByCompanyName company_name) (\<lambda>company_by_name.
           let get_companies = map (\<lambda>item. get_field item ''company_name'') (answer_rows company_by_name)
           in if js_includes get_companies company_name then conflict ''Company Already Exist!''
              else Await (Company_create req_body) (\<lambda>company. success ''company'' company)))"

definition company_update :: "string \<Rightarrow> datum \<Rightarrow> proc" where
  "company_update row_id req_body =
     (let company_name = get_field req_body ''company_name''
      in Await (Company_getByCompanyName company_name) (\<lambda>company_by_name.
           let get_companies = map (\<lambda>item. get_field item ''company_name'') (answer_rows company_by_name)
           in if row_id = '''' then missing_id
              else if js_includes get_companies company_name then conflict ''Company Already Exist!''
              else Await (Company_update row_id req_body) (\<lambda>company.
                if replaced company > 0 then success ''company'' company
                else Respond 400 (B_fields [(''error'', S_bool True)]))))"

definition company_delete :: "string \<Rightarrow> proc" where
  "company_delete row_id =
     (if row_id = '''' then missing_id
      else Await (Company_delete row_id) (\<lambda>company. success ''company'' company))"

section \<open>Employees\<close>

definition Employee_getAll :: query where
  "Employee_getAll = Q_filter ''employee'' [active]"

definition Employee_create :: "datum \<Rightarrow> query" where
  "Employee_create data = Q_insert ''employee'' data"

definition Employee_update :: "string \<Rightarrow> datum \<Rightarrow> query" where
  "Employee_update row_id data = Q_update ''employee'' (R_str row_id) data"

definition Employee_delete :: "string \<Rightarrow> query" where
  "Employee_delete row_id = Q_update ''employee'' (R_str row_id) inactive_patch"

definition Employee_getByEmployeeName :: "datum option \<Rightarrow> query" where
  "Employee_getByEmployeeName name = Q_filter ''employee'' [(''employee_name'', name), active]"

definition Employee_getByCompany :: "datum option \<Rightarrow> query" where
  "Employee_getByCompany company = Q_filter ''employee'' [(''company_name'', company), active]"

definition employee_getAllEmployee :: proc where
  "employee_getAllEmployee = Await Employee_getAll (\<lambda>employees. Respond 200 (B_answer employees))"

text \<open>The call passes no argument: the parameter of the model function is \<open>undefined\<close>.\<close>

definition employee_getByCompany :: proc where
  "employee_getByCompany =
     Await (Employee_getByCompany None) (\<lambda>employee_by_company. Respond 200 (B_answer employee_by_company))"

definition employee_create :: "datum \<Rightarrow> proc" where
  "employee_create req_body =
     (let employee_name = get_field req_body ''employee_name'';
          employee_position = get_field req_body ''employee_position'';
          company_name = get_field req_body ''company_name''
      in Await (Employee_getByEmployeeName employee_name) (\<lambda>employee_by_name.
           let positions = map (\<lambda>item. get_field item ''employee_position'') (answer_rows employee_by_name);
               companies = map (\<lambda>item. get_field item ''company_name'') (answer_rows employee_by_name)
           in if js_includes positions employee_position \<and> js_includes companies company_name
              then conflict ''Employee Already Exist!''
              else Await (Employee_create req_body) (\<lambda>employee.
                Respond 200 (B_fields [(''error'', S_bool False)]))))"

definition employee_update :: "string \<Rightarrow> datum \<Rightarrow> proc" where
  "employee_update row_id req_body =
     (let employee_name = get_field req_body ''employee_name'';
          employee_position = get_field req_body ''employee_position'';
          company_name = get_field req_body ''company_name''
      in if row_id = '''' then missing_id
         else Await (Employee_getByEmployeeName employee_name) (\<lambda>employee_by_name.
           let positions = map (\<lambda>item. get_field item ''employee_position'') (answer_rows employee_by_name);
               companies = map (\<lambda>item. get_field item ''company_name'') (answer_rows employee_by_name)
           in if js_includes positions employee_position \<and> js_includes companies company_name
              then conflict ''Employee Already Exist!''
              else Await (Employee_update row_id req_body) (\<lambda>employee. success ''employee'' employee)))"

definition employee_delete :: "string \<Rightarrow> proc" where
  "employee_delete row_id = Await (Employee_delete row_id) (\<lambda>employee. success ''employee'' employee)"

section \<open>Positions and users\<close>

definition Position_getAll :: query where
  "Position_getAll = Q_table ''positions''"

definition Position_create :: "datum \<Rightarrow> query" where
  "Position_create data = Q_insert ''positions'' data"

definition position_getAllPosition :: proc where
  "position_getAllPosition = Await Position_getAll (\<lambda>positions. Respond 200 (B_answer positions))"

text \<open>
  The result of the second query is not awaited: it is a promise, its \<open>length\<close> is \<open>undefined\<close> and
  the comparison with 0 is false. Building a query around an \<open>undefined\<close> role throws.
\<close>

definition position_create :: "datum \<Rightarrow> proc" where
  "position_create req_body =
     Await (Position_create req_body) (\<lambda>position.
       Await Q_connect (\<lambda>connect.
         let role = get_field req_body ''role'';
             length_above_0 = False;
             query = Q_filter ''positions'' [(''role'', role)];
             rest = (if length_above_0 then Respond 409 (B_fields [(''error'', S_bool True)])
                     else success ''position'' position)
         in if role = None then Await query (\<lambda>_. rest) else Start query rest))"

definition User_getAll :: query where
  "User_getAll = Q_table ''user''"

definition User_login :: "datum \<Rightarrow> query" where
  "User_login data =
     Q_where ''user'' [(''username'', get_field data ''username''), (''password'', get_field data ''password'')]"

definition User_register :: "datum \<Rightarrow> query" where
  "User_register data = Q_insert ''user'' data"

definition user_getAllUser :: proc where
  "user_getAllUser = Await User_getAll (\<lambda>users. Respond 200 (B_answer users))"

definition user_login :: "datum \<Rightarrow> proc" where
  "user_login req_body =
     Await (User_login req_body) (\<lambda>user.
       if length (answer_rows user) > 0 then success ''user'' user
       else Respond 401 (B_fields [(''error'', S_bool True), (''user'', S_answer user)]))"

definition user_register :: "datum \<Rightarrow> proc" where
  "user_register req_body =
     Await (User_register req_body) (\<lambda>user.
       Await Q_connect (\<lambda>connect.
         Await (Q_filter ''user'' [(''username'', get_field req_body ''username'')]) (\<lambda>result.
           if length (answer_rows result) > 1 then conflict ''Username already exist!''
           else success ''user'' user)))"

section \<open>Routes\<close>

text \<open>A request that Express has matched with a route, with the parameters of the path and the parsed body.\<close>

datatype request =
    Get_companies | Post_company datum | Put_company string datum | Delete_company string
  | Get_employees | Get_employees_of string | Post_employee datum | Put_employee string datum
  | Delete_employee string
  | Get_positions | Post_position datum
  | Get_users | Post_register datum | Post_login datum

fun company_routes :: "request \<Rightarrow> proc option" where
  "company_routes Get_companies = Some company_getAll"
| "company_routes (Post_company b) = Some (company_create b)"
| "company_routes (Put_company row_id b) = Some (company_update row_id b)"
| "company_routes (Delete_company row_id) = Some (company_delete row_id)"
| "company_routes _ = None"

fun employee_routes :: "request \<Rightarrow> proc option" where
  "employee_routes Get_employees = Some employee_getAllEmployee"
| "employee_routes (Get_employees_of company) = Some employee_getByCompany"
| "employee_routes (Post_employee b) = Some (employee_create b)"
| "employee_routes (Put_employee row_id b) = Some (employee_update row_id b)"
| "employee_routes (Delete_employee row_id) = Some (employee_delete row_id)"
| "employee_routes _ = None"

fun position_routes :: "request \<Rightarrow> proc option" where
  "position_routes Get_positions = Some position_getAllPosition"
| "position_routes (Post_position b) = Some (position_create b)"
| "position_routes _ = None"

fun user_routes :: "request \<Rightarrow> proc option" where
  "user_routes Get_users = Some user_getAllUser"
| "user_routes (Post_register b) = Some (user_register b)"
| "user_routes (Post_login b) = Some (user_login b)"
| "user_routes _ = None"

fun first_some :: "('a \<Rightarrow> 'b option) list \<Rightarrow> 'a \<Rightarrow> 'b option" where
  "first_some [] x = None"
| "first_some (f # fs) x = (case f x of None \<Rightarrow> first_some fs x | Some y \<Rightarrow> Some y)"

definition app :: "request \<Rightarrow> proc option" where
  "app = first_some [company_routes, employee_routes, user_routes, position_routes]"

definition serve_one :: "'w driver \<Rightarrow> request \<Rightarrow> 'w \<Rightarrow> 'w" where
  "serve_one D r w = (case app r of None \<Rightarrow> w | Some p \<Rightarrow> fst (run_proc D p w))"

definition serve :: "'w driver \<Rightarrow> request list \<Rightarrow> 'w \<Rightarrow> 'w" where
  "serve D rs w = fold (serve_one D) rs w"

text \<open>
  Handlers that run at the same time: a schedule says whose query is performed next. \<open>None\<close> in
  the list is a handler whose promise was rejected.
\<close>

fun step_proc :: "'w driver \<Rightarrow> proc \<Rightarrow> 'w \<Rightarrow> 'w \<times> proc option" where
  "step_proc D (Respond status b) w = (w, Some (Respond status b))"
| "step_proc D (Await q k) w = (case D q w of (w', a) \<Rightarrow> (w', map_option k a))"
| "step_proc D (Start q p) w = (fst (D q w), Some p)"

fun run_schedule :: "'w driver \<Rightarrow> nat list \<Rightarrow> proc option list \<Rightarrow> 'w \<Rightarrow> 'w \<times> proc option list" where
  "run_schedule D [] ps w = (w, ps)"
| "run_schedule D (i # is) ps w =
     (case ps ! i of
        None \<Rightarrow> run_schedule D is ps w
      | Some p \<Rightarrow> (case step_proc D p w of (w', p') \<Rightarrow> run_schedule D is (ps[i := p']) w'))"

section \<open>What the driver is relied on for\<close>

text \<open>
  A promise resolves with the server's answer; a rejected promise may stand for a query that was
  performed or for one that was not. \<open>reliable\<close>: queries the server accepts are not rejected.
\<close>

definition delivers :: "(datum \<Rightarrow> bool) \<Rightarrow> (nat \<Rightarrow> string) \<Rightarrow> 'w driver \<Rightarrow> ('w \<Rightarrow> rdb_server) \<Rightarrow> bool" where
  "delivers key_ok gen D store \<longleftrightarrow>
     (\<forall>q w. case D q w of
        (w', Some a) \<Rightarrow> eval_query key_ok gen q (store w) = Some (a, store w')
      | (w', None) \<Rightarrow> store w' = store w \<or> (\<exists>a. eval_query key_ok gen q (store w) = Some (a, store w')))"

definition reliable :: "(datum \<Rightarrow> bool) \<Rightarrow> (nat \<Rightarrow> string) \<Rightarrow> 'w driver \<Rightarrow> ('w \<Rightarrow> rdb_server) \<Rightarrow> bool" where
  "reliable key_ok gen D store \<longleftrightarrow>
     delivers key_ok gen D store
     \<and> (\<forall>q w. eval_query key_ok gen q (store w) \<noteq> None \<longrightarrow> snd (D q w) \<noteq> None)"

definition direct_driver :: "(datum \<Rightarrow> bool) \<Rightarrow> (nat \<Rightarrow> string) \<Rightarrow> rdb_server driver" where
  "direct_driver key_ok gen q sv =
     (case eval_query key_ok gen q sv of None \<Rightarrow> (sv, None) | Some (a, sv') \<Rightarrow> (sv', Some a))"

lemma direct_driver_reliable: "reliable key_ok gen (direct_driver key_ok gen) (\<lambda>sv. sv)"
  by (auto simp: reliable_def delivers_def direct_driver_def split: option.splits prod.splits)

lemma delivers_effect:
  assumes "delivers key_ok gen D store" and "D q w = (w', r)"
  shows "store w' = store w \<or> (\<exists>a. eval_query key_ok gen q (store w) = Some (a, store w'))"
  using assms unfolding delivers_def by (cases r) (auto dest!: spec [of _ q] spec [of _ w])

lemma delivers_answer:
  assumes "delivers key_ok gen D store" and "D q w = (w', Some a)"
  shows "eval_query key_ok gen q (store w) = Some (a, store w')"
  using assms unfolding delivers_def by (auto dest!: spec [of _ q] spec [of _ w])

lemma reliable_answer:
  assumes "reliable key_ok gen D store" and "eval_query key_ok gen q (store w) = Some (a, sv)"
  obtains w' where "D q w = (w', Some a)" and "store w' = sv"
proof -
  obtain w' r where d: "D q w = (w', r)" by (cases "D q w")
  have "r \<noteq> None" using assms d unfolding reliable_def by (metis option.distinct(1) snd_conv)
  then obtain b where r: "r = Some b" by auto
  have "eval_query key_ok gen q (store w) = Some (b, store w')"
    by (rule delivers_answer [of key_ok gen D store]) (use assms(1) d r in \<open>simp_all add: reliable_def\<close>)
  then show thesis using that d r assms(2) by simp
qed

definition table_of :: "rdb_server \<Rightarrow> string \<Rightarrow> table" where
  "table_of sv name = (case map_of (sv_tables sv) name of None \<Rightarrow> [] | Some t \<Rightarrow> t)"

fun writes :: "query \<Rightarrow> string \<Rightarrow> bool" where
  "writes (Q_insert t d) name = (t = name)"
| "writes (Q_update t k d) name = (t = name)"
| "writes _ name = False"

lemma table_of_update:
  "table_of (sv\<lparr>sv_tables := AList.update n t (sv_tables sv), sv_generated := g\<rparr>) name =
     (if n = name then t else table_of sv name)"
  "table_of (sv\<lparr>sv_tables := AList.update n t (sv_tables sv)\<rparr>) name =
     (if n = name then t else table_of sv name)"
  by (simp_all add: table_of_def AList.update_conv')

lemma eval_query_other:
  assumes "eval_query key_ok gen q sv = Some (a, sv')" and "\<not> writes q name"
  shows "table_of sv' name = table_of sv name"
  using assms by (cases q) (auto simp: eval_query_def table_of_update split: bind_splits if_splits)

primrec avoids :: "string \<Rightarrow> proc \<Rightarrow> bool" where
  "avoids name (Respond s b) = True"
| "avoids name (Await q k) = (\<not> writes q name \<and> (\<forall>a. avoids name (k a)))"
| "avoids name (Start q p) = (\<not> writes q name \<and> avoids name p)"

lemma avoids_step:
  assumes "delivers key_ok gen D store" and "\<not> writes q name"
  shows "table_of (store (fst (D q w))) name = table_of (store w) name"
proof -
  obtain w' r where d: "D q w = (w', r)" by (cases "D q w")
  show ?thesis using delivers_effect [OF assms(1) d] eval_query_other [OF _ assms(2)] d by auto
qed

lemma avoids_keeps:
  assumes "delivers key_ok gen D store" and "avoids name p"
  shows "table_of (store (fst (run_proc D p w))) name = table_of (store w) name"
  using assms(2)
proof (induction p arbitrary: w)
  case (Await q k)
  have nw: "\<not> writes q name" and av: "\<And>a. avoids name (k a)" using Await.prems by auto
  obtain w' r where d: "D q w = (w', r)" by (cases "D q w")
  have first: "table_of (store w') name = table_of (store w) name"
    using avoids_step [OF assms(1) nw, of w] d by simp
  show ?case
  proof (cases r)
    case None
    then show ?thesis using d first by simp
  next
    case (Some a)
    have "table_of (store (fst (run_proc D (k a) w'))) name = table_of (store w') name"
      by (rule Await.IH) (auto simp: av)
    then show ?thesis using d first Some by simp
  qed
next
  case (Start q p)
  then show ?case using avoids_step [OF assms(1)] by simp
qed simp

section \<open>Company names\<close>

definition active_named :: "datum \<Rightarrow> table \<Rightarrow> datum set" where
  "active_named v t =
     {key. \<exists>row. map_of t key = Some row \<and> get_field row ''company_name'' = Some v
        \<and> get_field row ''status'' = Some (R_str ''Active'')}"

definition company_unique :: "table \<Rightarrow> bool" where
  "company_unique t \<longleftrightarrow>
     (\<forall>v k l. primitive v \<longrightarrow> k \<in> active_named v t \<longrightarrow> l \<in> active_named v t \<longrightarrow> k = l)"

lemma js_includes_iff:
  "js_includes xs (Some v) \<longleftrightarrow> primitive v \<and> Some v \<in> set xs"
  by (cases v) (auto simp: js_includes_def list_ex_iff same_value_zero_def)

lemma name_filter:
  assumes "eval_query key_ok gen (Company_getByCompanyName name) sv = Some (a, sv')"
  shows "sv' = sv" and "name \<noteq> None"
    and "\<not> js_includes (map (\<lambda>item. get_field item ''company_name'') (answer_rows a)) name \<Longrightarrow>
      name = Some v \<Longrightarrow> primitive v \<Longrightarrow> active_named v (table_of sv ''company'') = {}"
proof -
  obtain t where t: "map_of (sv_tables sv) ''company'' = Some t"
    using assms by (auto simp: eval_query_def Company_getByCompanyName_def split: bind_splits)
  show "name \<noteq> None"
    using assms by (auto simp: eval_query_def Company_getByCompanyName_def pattern_def
        split: bind_splits if_splits)
  then obtain u where u: "name = Some u" by auto
  let ?fs = "[(''company_name'', u), (''status'', R_str ''Active'')]"
  have pat: "pattern [(''company_name'', name), active] = Some ?fs" by (simp add: pattern_def active_def u)
  have ev: "a = A_rows (filter (filter_call (R_object ?fs)) (map snd t))" "sv' = sv"
    using assms by (auto simp: eval_query_def Company_getByCompanyName_def t pat simp del: filter_map)
  show "sv' = sv" by (rule ev)
  assume no: "\<not> js_includes (map (\<lambda>item. get_field item ''company_name'') (answer_rows a)) name"
    and v: "name = Some v" and prim: "primitive v"
  have uv: "u = v" using u v by simp
  have "False" if k: "k \<in> active_named v t" for k
  proof -
    obtain row where row: "map_of t k = Some row" "get_field row ''company_name'' = Some v"
        "get_field row ''status'' = Some (R_str ''Active'')"
      using k by (auto simp: active_named_def)
    have "filter_call (R_object ?fs) row"
      by (subst filter_call_primitive) (auto simp: row uv prim)
    moreover have "row \<in> set (map snd t)" using row(1) by (force dest: map_of_SomeD)
    ultimately have "row \<in> set (answer_rows a)" by (simp add: ev answer_rows_def del: filter_map)
    then have "Some v \<in> set (map (\<lambda>item. get_field item ''company_name'') (answer_rows a))"
      using row(2) by force
    then show False using no v prim js_includes_iff by blast
  qed
  then show "active_named v (table_of sv ''company'') = {}" by (auto simp: table_of_def t)
qed

text \<open>
  Setting one row keeps names unique when the new row's name is not a primitive value, or is one
  that no active row has.
\<close>

lemma set_row_unique:
  assumes "company_unique t" and "map_of t' = (map_of t)(key \<mapsto> row)"
    and "\<And>v. get_field row ''company_name'' = Some v \<Longrightarrow> primitive v \<Longrightarrow>
          get_field row ''status'' = Some (R_str ''Active'') \<Longrightarrow> active_named v t \<subseteq> {key}"
  shows "company_unique t'"
  unfolding company_unique_def
proof (intro allI impI)
  fix v k l assume v: "primitive v" and k: "k \<in> active_named v t'" and l: "l \<in> active_named v t'"
  have old: "j \<in> active_named v t" if "j \<in> active_named v t'" "j \<noteq> key" for j
    using that assms(2) by (auto simp: active_named_def)
  have new: "active_named v t \<subseteq> {key}" if "key \<in> active_named v t'"
    using that assms(2) v by (intro assms(3)) (auto simp: active_named_def)
  show "k = l"
  proof (cases "key \<in> active_named v t'")
    case True
    then show ?thesis using old new k l by blast
  next
    case False
    then show ?thesis using old k l v assms(1) unfolding company_unique_def by blast
  qed
qed

lemma insert_company_unique:
  assumes "eval_query key_ok gen (Company_create d) sv = Some (a, sv')"
    and "company_unique (table_of sv ''company'')"
    and "get_field d ''company_name'' \<noteq> None"
    and "\<And>v. get_field d ''company_name'' = Some v \<Longrightarrow> primitive v \<Longrightarrow>
          active_named v (table_of sv ''company'') = {}"
  shows "company_unique (table_of sv' ''company'')"
proof -
  obtain fs where d: "d = R_object fs" using assms(3) by (cases d) auto
  obtain t where t: "map_of (sv_tables sv) ''company'' = Some t"
    using assms(1) by (auto simp: eval_query_def Company_create_def split: bind_splits)
  obtain d' g where g: "maybe_generate_key gen (sv_generated sv) d = (d', g)" by fastforce
  have name: "get_field d' ''company_name'' = get_field d ''company_name''"
    using g by (auto simp: maybe_generate_key_def d map_of_omap_assign split: option.splits)
  obtain t' s where i: "insert_one key_ok d' t = (t', s)" by fastforce
  have sv': "table_of sv' ''company'' = t'"
    using assms(1) t g i by (auto simp: eval_query_def Company_create_def insert_term_def d table_of_update)
  have tt: "table_of sv ''company'' = t" by (simp add: table_of_def t)
  show ?thesis
  proof (cases "map_of t' = map_of t")
    case True
    then show ?thesis using assms(2) by (simp add: sv' tt company_unique_def active_named_def)
  next
    case False
    then obtain key where r: "rdb_replace key (resolve_insert_conflict d') t = (t', s)"
      using i by (auto simp: insert_one_def split: option.splits if_splits)
    obtain new where "resolve_insert_conflict d' (case map_of t key of None \<Rightarrow> R_null | Some row \<Rightarrow> row) = Some new"
        and m: "map_of t' = (map_of t)(key := if new = R_null then None else Some new)"
      using rdb_replace_table [OF r] False by blast
    then have "new = d'" by (simp add: resolve_insert_conflict_def split: if_splits)
    moreover have "d' \<noteq> R_null" using name assms(3) by auto
    ultimately have "map_of t' = (map_of t)(key \<mapsto> d')" using m by simp
    then show ?thesis
      unfolding sv' by (rule set_row_unique [rotated]) (use assms(2,4) name tt in auto)
  qed
qed

text \<open>What an update does to the table: nothing, or it merges the patch into the row of its key.\<close>

lemma update_query_table:
  assumes "eval_query key_ok gen (Q_update name key patch) sv = Some (a, sv')"
    and "map_of (table_of sv' name) \<noteq> map_of (table_of sv name)"
  obtains old new where "map_of (table_of sv name) key = Some old"
    and "old \<noteq> R_null" and "datum_merge old patch = Some new" and "rcheck_row_replacement key old new"
    and "map_of (table_of sv' name) = (map_of (table_of sv name))(key := if new = R_null then None else Some new)"
proof -
  obtain t where t: "map_of (sv_tables sv) name = Some t"
    using assms(1) by (auto simp: eval_query_def split: bind_splits)
  obtain t' s where r: "rdb_replace key (update_row patch) t = (t', s)" by fastforce
  have sv': "table_of sv' name = t'"
    using assms(1) t r by (auto simp: eval_query_def update_term_def table_of_update split: if_splits)
  have tt: "table_of sv name = t" by (simp add: table_of_def t)
  let ?old = "case map_of t key of None \<Rightarrow> R_null | Some row \<Rightarrow> row"
  obtain new where u: "update_row patch ?old = Some new" and c: "rcheck_row_replacement key ?old new"
      and m: "map_of t' = (map_of t)(key := if new = R_null then None else Some new)"
    using rdb_replace_table [OF r] assms(2) unfolding sv' tt by blast
  have "?old \<noteq> R_null"
  proof
    assume "?old = R_null"
    then have "fst (rdb_replace key (update_row patch) t) = t"
      by (intro rdb_replace_same [OF _ refl]) (simp add: update_row_def)
    then show False using r assms(2) sv' tt by simp
  qed
  then obtain old where old: "map_of t key = Some old" "?old = old" by (cases "map_of t key") auto
  have "patch \<noteq> R_null"
  proof
    assume "patch = R_null"
    then have "fst (rdb_replace key (update_row patch) t) = t"
      by (intro rdb_replace_same [OF _ refl]) (simp add: update_row_def)
    then show False using r assms(2) sv' tt by simp
  qed
  then have "datum_merge old patch = Some new"
    using u old \<open>?old \<noteq> R_null\<close> by (simp add: update_row_def)
  then show thesis
    by (intro that [of old new]) (use old m c \<open>?old \<noteq> R_null\<close> sv' tt in simp_all)
qed

lemma update_company_unique:
  assumes "eval_query key_ok gen (Q_update ''company'' key (R_object ps)) sv = Some (a, sv')"
    and "company_unique (table_of sv ''company'')"
    and "\<And>ls v. map_of (merge_fields ls ps) ''company_name'' = Some v \<Longrightarrow> primitive v \<Longrightarrow>
          map_of (merge_fields ls ps) ''status'' = Some (R_str ''Active'') \<Longrightarrow>
          active_named v (table_of sv ''company'') \<subseteq> {key}"
  shows "company_unique (table_of sv' ''company'')"
proof (cases "map_of (table_of sv' ''company'') = map_of (table_of sv ''company'')")
  case True
  then show ?thesis using assms(2) by (simp add: company_unique_def active_named_def)
next
  case False
  obtain old new where old: "map_of (table_of sv ''company'') key = Some old" "old \<noteq> R_null"
      and new: "datum_merge old (R_object ps) = Some new" and c: "rcheck_row_replacement key old new"
      and m: "map_of (table_of sv' ''company'') =
        (map_of (table_of sv ''company''))(key := if new = R_null then None else Some new)"
    by (rule update_query_table [OF assms(1) False])
  show ?thesis
  proof (cases "new = R_null")
    case True
    then have "active_named v (table_of sv' ''company'') \<subseteq> active_named v (table_of sv ''company'')" for v
      using m by (auto simp: active_named_def split: if_splits)
    then show ?thesis using assms(2) unfolding company_unique_def by blast
  next
    case False
    then have has_id: "get_field old ''id'' \<noteq> None"
      using c old(2) by (auto simp: rcheck_row_replacement_def split: datum.splits option.splits)
    show ?thesis
    proof (cases old)
      case (R_object ls)
      then have "new = R_object (merge_fields ls ps)" using new by (simp add: datum_merge_def)
      then show ?thesis
        using set_row_unique [OF assms(2), of "table_of sv' ''company''" key new] m assms(3) by simp
    qed (use has_id in auto)
  qed
qed

text \<open>
  The requests the invariant is about: an update's body has distinct field names, as every parsed
  JSON object, and its company name is not the server's \<open>LITERAL\<close> pseudo-type.
\<close>

fun request_ok :: "request \<Rightarrow> bool" where
  "request_ok (Put_company row_id b) =
     ((case b of R_object ps \<Rightarrow> distinct (map fst ps) | _ \<Rightarrow> True)
      \<and> (case get_field b ''company_name'' of None \<Rightarrow> True | Some v \<Rightarrow> \<not> is_literal v))"
| "request_ok _ = True"

lemma company_create_unique:
  assumes D: "delivers key_ok gen D store" and u: "company_unique (table_of (store w) ''company'')"
  shows "company_unique (table_of (store (fst (run_proc D (company_create b) w))) ''company'')"
proof -
  let ?n = "get_field b ''company_name''"
  obtain w1 r1 where d1: "D (Company_getByCompanyName ?n) w = (w1, r1)" by fastforce
  have same: "table_of (store w1) ''company'' = table_of (store w) ''company''"
    using avoids_step [OF D, of "Company_getByCompanyName ?n" "''company''" w] d1
    by (simp add: Company_getByCompanyName_def)
  show ?thesis
  proof (cases r1)
    case None
    then show ?thesis using u same d1 by (simp add: company_create_def Let_def)
  next
    case (Some a)
    note ev = delivers_answer [OF D d1 [unfolded Some]]
    let ?inc = "js_includes (map (\<lambda>item. get_field item ''company_name'') (answer_rows a)) ?n"
    obtain w2 r2 where d2: "D (Company_create b) w1 = (w2, r2)" by fastforce
    have keep: "company_unique (table_of (store w2) ''company'')" if no: "\<not> ?inc"
    proof -
      have "company_unique (table_of sv ''company'')"
        if e: "eval_query key_ok gen (Company_create b) (store w1) = Some (x, sv)" for x sv
        by (rule insert_company_unique [OF e]) (use u same name_filter [OF ev] no in auto)
      then show ?thesis using delivers_effect [OF D d2] u same by auto
    qed
    have "fst (run_proc D (company_create b) w) = (if ?inc then w1 else w2)"
      using d1 d2 Some by (cases r2) (simp_all add: company_create_def Let_def conflict_def success_def)
    then show ?thesis using keep u same by simp
  qed
qed

lemma company_update_unique:
  assumes D: "delivers key_ok gen D store" and u: "company_unique (table_of (store w) ''company'')"
    and ok: "request_ok (Put_company row_id b)"
  shows "company_unique (table_of (store (fst (run_proc D (company_update row_id b) w))) ''company'')"
proof -
  let ?n = "get_field b ''company_name''"
  obtain w1 r1 where d1: "D (Company_getByCompanyName ?n) w = (w1, r1)" by fastforce
  have same: "table_of (store w1) ''company'' = table_of (store w) ''company''"
    using avoids_step [OF D, of "Company_getByCompanyName ?n" "''company''" w] d1
    by (simp add: Company_getByCompanyName_def)
  show ?thesis
  proof (cases r1)
    case None
    then show ?thesis using u same d1 by (simp add: company_update_def Let_def)
  next
    case (Some a)
    note ev = delivers_answer [OF D d1 [unfolded Some]]
    let ?inc = "js_includes (map (\<lambda>item. get_field item ''company_name'') (answer_rows a)) ?n"
    obtain w2 r2 where d2: "D (Company_update row_id b) w1 = (w2, r2)" by fastforce
    obtain ps v where b: "b = R_object ps" and v: "map_of ps ''company_name'' = Some v"
      using name_filter(2) [OF ev] by (cases b) auto
    have ps: "distinct (map fst ps)" "\<not> is_literal v" using ok b v by simp_all
    have keep: "company_unique (table_of (store w2) ''company'')" if no: "\<not> ?inc"
    proof -
      have "active_named x (table_of (store w1) ''company'') = {}"
        if x: "map_of (merge_fields ls ps) ''company_name'' = Some x" and prim: "primitive x" for ls x
      proof -
        have mv: "merge_value (map_of ls ''company_name'') v = Some x"
          using x by (simp add: map_of_merge_fields ps v)
        have "primitive v" using merge_value_compound [OF mv ps(2)] prim by blast
        then have "primitive v \<and> x = v" using mv merge_value_primitive [of v] by simp
        then show ?thesis using name_filter(3) [OF ev no, of v] b v prim same by simp
      qed
      then have "company_unique (table_of sv ''company'')"
        if e: "eval_query key_ok gen (Company_update row_id b) (store w1) = Some (x, sv)" for x sv
        by (intro update_company_unique [OF e [unfolded Company_update_def b]]) (use u same in auto)
      then show ?thesis using delivers_effect [OF D d2] u same by auto
    qed
    have "fst (run_proc D (company_update row_id b) w) = (if row_id = '''' \<or> ?inc then w1 else w2)"
      using d1 d2 Some
      by (cases r2) (simp_all add: company_update_def Let_def conflict_def success_def missing_id_def)
    then show ?thesis using keep u same by simp
  qed
qed

lemma company_delete_unique:
  assumes D: "delivers key_ok gen D store" and u: "company_unique (table_of (store w) ''company'')"
  shows "company_unique (table_of (store (fst (run_proc D (company_delete row_id) w))) ''company'')"
proof -
  obtain w' r where d: "D (Company_delete row_id) w = (w', r)" by fastforce
  have "company_unique (table_of sv ''company'')"
    if e: "eval_query key_ok gen (Company_delete row_id) (store w) = Some (x, sv)" for x sv
    by (rule update_company_unique [OF e [unfolded Company_delete_def inactive_patch_def]])
      (use u in \<open>auto simp: map_of_omap_assign\<close>)
  then have "company_unique (table_of (store w') ''company'')" using delivers_effect [OF D d] u by auto
  then show ?thesis using d u by (cases r) (simp_all add: company_delete_def missing_id_def success_def)
qed

lemmas query_defs = Company_getAll_def Employee_getAll_def Employee_create_def Employee_update_def
  Employee_delete_def Employee_getByEmployeeName_def Employee_getByCompany_def Position_getAll_def
  Position_create_def User_getAll_def User_login_def User_register_def

lemmas proc_defs = company_getAll_def employee_getAllEmployee_def employee_getByCompany_def
  employee_create_def employee_update_def employee_delete_def position_getAllPosition_def
  position_create_def user_getAllUser_def user_login_def user_register_def
  conflict_def success_def missing_id_def Let_def

lemma serve_one_unique:
  assumes "delivers key_ok gen D store" and "company_unique (table_of (store w) ''company'')"
    and "request_ok r"
  shows "company_unique (table_of (store (serve_one D r w)) ''company'')"
proof -
  have other: "company_unique (table_of (store (fst (run_proc D p w))) ''company'')"
    if "avoids ''company'' p" for p
    using avoids_keeps [OF assms(1) that] assms(2) by simp
  show ?thesis
  proof (cases r)
    case (Post_company b)
    then show ?thesis using company_create_unique [OF assms(1,2)] by (simp add: serve_one_def app_def)
  next
    case (Put_company i b)
    then show ?thesis using company_update_unique [OF assms(1,2)] assms(3) by (simp add: serve_one_def app_def)
  next
    case (Delete_company i)
    then show ?thesis using company_delete_unique [OF assms(1,2)] by (simp add: serve_one_def app_def)
  qed (simp_all only: serve_one_def app_def first_some.simps company_routes.simps employee_routes.simps
      position_routes.simps user_routes.simps option.simps,
      (rule other, simp add: proc_defs query_defs)+)
qed

text \<open>
  Property C1. As long as requests are served one after the other, no two active companies
  ever share a name: starting from a database where the names are unique, they are unique after any
  sequence of requests to any route, also when the driver fails between or during queries. Names
  are strings, numbers, booleans or null; the names of objects and arrays are never compared by
  the check.
\<close>

theorem company_names_stay_unique:
  assumes "delivers key_ok gen D store"
    and "company_unique (table_of (store w) ''company'')"
    and "\<forall>r \<in> set rs. request_ok r"
  shows "company_unique (table_of (store (serve D rs w)) ''company'')"
  using assms(2,3)
proof (induction rs arbitrary: w)
  case Nil
  then show ?case by (simp add: serve_def)
next
  case (Cons r rs)
  have "serve D (r # rs) w = serve D rs (serve_one D r w)" by (simp add: serve_def)
  then show ?case using Cons serve_one_unique [OF assms(1)] by simp
qed

section \<open>Single requests\<close>

lemma update_fresh: "map_of t k = None \<Longrightarrow> AList.update k v t = t @ [(k, v)]"
  by (induction t) (auto split: if_splits)

lemma eval_insert_new:
  assumes "map_of (sv_tables sv) name = Some t" and "map_of fs ''id'' = None"
    and "key_ok (R_str (gen (sv_generated sv)))" and "map_of t (R_str (gen (sv_generated sv))) = None"
  shows "eval_query key_ok gen (Q_insert name (R_object fs)) sv =
    Some (A_stats (new_stats_object\<lparr>ws_inserted := 1\<rparr>),
      sv\<lparr>sv_tables := AList.update name (t @ [(R_str (gen (sv_generated sv)),
            R_object (omap_assign ''id'' (R_str (gen (sv_generated sv))) fs))]) (sv_tables sv),
         sv_generated := Suc (sv_generated sv)\<rparr>)"
  using assms
  by (simp add: eval_query_def insert_term_def maybe_generate_key_def insert_one_def map_of_omap_assign
      rdb_replace_def resolve_insert_conflict_def rcheck_row_replacement_def
      make_row_replacement_stats_def update_fresh stats_merge_def new_stats_object_def)

lemma eval_filter:
  assumes "map_of (sv_tables sv) name = Some t"
  shows "eval_query key_ok gen (Q_filter name (map (\<lambda>(k, v). (k, Some v)) fs)) sv =
    Some (A_rows (filter (filter_call (R_object fs)) (map snd t)), sv)"
proof -
  have "pattern (map (\<lambda>(k, v). (k, Some v)) fs) = Some fs"
    by (auto simp: pattern_def comp_def case_prod_unfold)
  then show ?thesis using assms by (simp add: eval_query_def)
qed

lemmas eval_filter_1 = eval_filter [where fs = "[(f1, v1)]", simplified] for f1 v1
lemmas eval_filter_2 = eval_filter [where fs = "[(f1, v1), (f2, v2)]", simplified] for f1 v1 f2 v2

lemma filter_call_1:
  assumes "primitive v" and "f \<noteq> ''$reql_type$''"
  shows "filter_call (R_object [(f, v)]) row \<longleftrightarrow> get_field row f = Some v"
  using assms by (subst filter_call_primitive) auto

lemma filter_call_2:
  assumes "primitive v" and "primitive u" and "f \<noteq> ''$reql_type$''" and "g \<noteq> ''$reql_type$''"
  shows "filter_call (R_object [(f, v), (g, u)]) row \<longleftrightarrow> get_field row f = Some v \<and> get_field row g = Some u"
  using assms by (subst filter_call_primitive) auto

text \<open>The hypotheses under which a body is inserted as a new row with a generated key.\<close>

definition new_key :: "(datum \<Rightarrow> bool) \<Rightarrow> (nat \<Rightarrow> string) \<Rightarrow> table \<Rightarrow> nat \<Rightarrow> bool" where
  "new_key key_ok gen t n \<longleftrightarrow> key_ok (R_str (gen n)) \<and> map_of t (R_str (gen n)) = None"

definition stored :: "(nat \<Rightarrow> string) \<Rightarrow> nat \<Rightarrow> fields \<Rightarrow> datum \<times> datum" where
  "stored gen n fs = (R_str (gen n), R_object (omap_assign ''id'' (R_str (gen n)) fs))"

lemma eval_insert_stored:
  assumes "map_of (sv_tables sv) name = Some t" and "map_of fs ''id'' = None"
    and "new_key key_ok gen t (sv_generated sv)"
  shows "eval_query key_ok gen (Q_insert name (R_object fs)) sv =
    Some (A_stats (new_stats_object\<lparr>ws_inserted := 1\<rparr>),
      sv\<lparr>sv_tables := AList.update name (t @ [stored gen (sv_generated sv) fs]) (sv_tables sv),
         sv_generated := Suc (sv_generated sv)\<rparr>)"
  using eval_insert_new [of sv name t fs key_ok gen] assms by (simp add: new_key_def stored_def)

text \<open>
  Property C33. The uniqueness of company names depends on the requests being served one after
  the other. When two requests to create the same new company are in flight and both queries
  for the name are performed before the first insertion, both are answered with status 200 and
  two active companies have the same name.
\<close>

theorem concurrent_creates_duplicate:
  assumes "reliable key_ok gen D store"
    and "map_of (sv_tables (store w)) ''company'' = Some t" and "distinct (map fst t)"
    and "map_of fs ''company_name'' = Some v" and "primitive v"
    and "map_of fs ''status'' = Some (R_str ''Active'')" and "map_of fs ''id'' = None"
    and "active_named v t = {}"
    and "new_key key_ok gen t (sv_generated (store w))"
    and "new_key key_ok gen t (Suc (sv_generated (store w)))"
    and "gen (sv_generated (store w)) \<noteq> gen (Suc (sv_generated (store w)))"
  shows "\<exists>w' a b.
    run_schedule D [0, 1, 0, 1] [Some (company_create (R_object fs)), Some (company_create (R_object fs))] w
      = (w', [Some (success ''company'' a), Some (success ''company'' b)])
    \<and> \<not> company_unique (table_of (store w') ''company'')"
proof -
  let ?b = "R_object fs" and ?sv = "store w" and ?g = "sv_generated (store w)"
  let ?q = "Company_getByCompanyName (Some v)"
  have q: "?q = Q_filter ''company'' [(''company_name'', Some v), (''status'', Some (R_str ''Active''))]"
    by (simp add: Company_getByCompanyName_def active_def)
  have "filter (filter_call (R_object [(''company_name'', v), (''status'', R_str ''Active'')])) (map snd t) = []"
    using assms(3,5,8) by (force simp: filter_empty_conv filter_call_2 active_named_def)
  then have eval: "eval_query key_ok gen ?q sv = Some (A_rows [], sv)"
    if "map_of (sv_tables sv) ''company'' = Some t" for sv
    using eval_filter_2 [OF that, of key_ok gen "''company_name''" v "''status''" "R_str ''Active''"] q
    by simp
  obtain w1 where d1: "D ?q w = (w1, Some (A_rows []))" "store w1 = ?sv"
    using reliable_answer [OF assms(1) eval [OF assms(2)]] by blast
  obtain w2 where d2: "D ?q w1 = (w2, Some (A_rows []))" "store w2 = ?sv"
    using reliable_answer [OF assms(1), of ?q w1] eval [OF assms(2)] d1(2) by metis
  let ?s = "new_stats_object\<lparr>ws_inserted := 1\<rparr>" and ?r1 = "stored gen ?g fs" and ?r2 = "stored gen (Suc ?g) fs"
  let ?sv3 = "?sv\<lparr>sv_tables := AList.update ''company'' (t @ [?r1]) (sv_tables ?sv), sv_generated := Suc ?g\<rparr>"
  have e3: "eval_query key_ok gen (Company_create ?b) (store w2) = Some (A_stats ?s, ?sv3)"
    using eval_insert_stored [OF assms(2,7,9)] d2(2) by (simp add: Company_create_def)
  obtain w3 where d3: "D (Company_create ?b) w2 = (w3, Some (A_stats ?s))" "store w3 = ?sv3"
    by (rule reliable_answer [OF assms(1) e3])
  have t3: "map_of (sv_tables (store w3)) ''company'' = Some (t @ [?r1])"
    by (simp add: d3(2) AList.update_conv')
  have "new_key key_ok gen (t @ [?r1]) (sv_generated (store w3))"
    using assms(10,11) by (simp add: d3(2) new_key_def stored_def map_add_def)
  note e4 = eval_insert_stored [OF t3 assms(7) this, folded Company_create_def]
  obtain w4 where d4: "D (Company_create ?b) w3 = (w4, Some (A_stats ?s))"
      "table_of (store w4) ''company'' = (t @ [?r1]) @ [?r2]"
    by (rule reliable_answer [OF assms(1) e4]) (simp add: d3(2) table_of_update)
  have none: "\<not> js_includes (map (\<lambda>item. get_field item ''company_name'') (answer_rows (A_rows []))) (Some v)"
    by (simp add: answer_rows_def js_includes_def)
  have run: "run_schedule D [0, 1, 0, 1] [Some (company_create ?b), Some (company_create ?b)] w
      = (w4, [Some (success ''company'' (A_stats ?s)), Some (success ''company'' (A_stats ?s))])"
    using none by (simp add: company_create_def Let_def assms(4) d1(1) d2(1) d3(1) d4(1))
  have keys: "map_of t (R_str (gen ?g)) = None" "map_of t (R_str (gen (Suc ?g))) = None"
    using assms(9,10) by (simp_all add: new_key_def)
  have "R_str (gen ?g) \<in> active_named v (table_of (store w4) ''company'')"
    "R_str (gen (Suc ?g)) \<in> active_named v (table_of (store w4) ''company'')"
    using keys assms(4,6,11)
    by (auto simp: active_named_def d4(2) stored_def map_add_def map_of_omap_assign)
  then have "\<not> company_unique (table_of (store w4) ''company'')"
    using assms(5,11) unfolding company_unique_def by blast
  then show ?thesis using run by blast
qed

text \<open>
  Property C34. When creating an employee is refused. With a driver that does not fail, the
  answer has status 409 exactly if some active employee of that name has the position and some
  active employee of that name has the company, which need not be the same employee; otherwise it
  has status 200. An employee who is already there is thus always refused.
\<close>

theorem employee_create_conflict:
  assumes "reliable key_ok gen D store"
    and "map_of (sv_tables (store w)) ''employee'' = Some t"
    and "get_field b ''employee_name'' = Some n" and "primitive n"
  defines "namesakes \<equiv> filter (\<lambda>row. get_field row ''employee_name'' = Some n
      \<and> get_field row ''status'' = Some (R_str ''Active'')) (map snd t)"
  shows "\<exists>w' s. run_proc D (employee_create b) w = (w', Some s)
    \<and> (fst s = 409 \<longleftrightarrow>
        list_ex (\<lambda>row. same_value_zero (get_field b ''employee_position'') (get_field row ''employee_position'')) namesakes
      \<and> list_ex (\<lambda>row. same_value_zero (get_field b ''company_name'') (get_field row ''company_name'')) namesakes)
    \<and> (fst s \<noteq> 409 \<longrightarrow> fst s = 200)"
proof -
  let ?q = "Employee_getByEmployeeName (Some n)"
  have "filter (filter_call (R_object [(''employee_name'', n), (''status'', R_str ''Active'')])) (map snd t) = namesakes"
    unfolding namesakes_def using assms(4) by (intro filter_cong) (simp_all add: filter_call_2)
  then have e: "eval_query key_ok gen ?q (store w) = Some (A_rows namesakes, store w)"
    using eval_filter_2 [OF assms(2), of key_ok gen "''employee_name''" n "''status''" "R_str ''Active''"]
    by (simp add: Employee_getByEmployeeName_def active_def)
  obtain w1 where d1: "D ?q w = (w1, Some (A_rows namesakes))" "store w1 = store w"
    by (rule reliable_answer [OF assms(1) e])
  obtain fs where b: "b = R_object fs" using assms(3) by (cases b) auto
  have "eval_query key_ok gen (Employee_create b) (store w1) \<noteq> None"
    using assms(2) by (auto simp: Employee_create_def eval_query_def insert_term_def b d1(2) split: prod.splits)
  then obtain a sv where e2: "eval_query key_ok gen (Employee_create b) (store w1) = Some (a, sv)" by auto
  obtain w2 where d2: "D (Employee_create b) w1 = (w2, Some a)" "store w2 = sv"
    by (rule reliable_answer [OF assms(1) e2])
  show ?thesis
    by (auto simp: employee_create_def Let_def assms(3) d1 d2 answer_rows_def js_includes_def conflict_def
        list_ex_iff)
qed

text \<open>
  Property C35. Registering stores the user before it looks for the name. The answer has status
  409 exactly if the name was taken, but the new record is in the table in either case.
\<close>

theorem register_stores_before_check:
  assumes "reliable key_ok gen D store"
    and "map_of (sv_tables (store w)) ''user'' = Some t"
    and "map_of fs ''username'' = Some v" and "primitive v" and "map_of fs ''id'' = None"
    and "new_key key_ok gen t (sv_generated (store w))"
  shows "\<exists>w' s. run_proc D (user_register (R_object fs)) w = (w', Some s)
    \<and> table_of (store w') ''user'' = t @ [stored gen (sv_generated (store w)) fs]
    \<and> fst s = (if \<exists>row \<in> set (map snd t). get_field row ''username'' = Some v then 409 else 200)"
proof -
  let ?b = "R_object fs" and ?r = "stored gen (sv_generated (store w)) fs"
  let ?q = "Q_filter ''user'' [(''username'', Some v)]"
  let ?s = "A_stats (new_stats_object\<lparr>ws_inserted := 1\<rparr>)"
  note e1 = eval_insert_stored [OF assms(2,5,6), folded User_register_def]
  obtain w1 where d1: "D (User_register ?b) w = (w1, Some ?s)"
      and t1: "map_of (sv_tables (store w1)) ''user'' = Some (t @ [?r])"
    by (rule reliable_answer [OF assms(1) e1]) (simp add: AList.update_conv')
  have "eval_query key_ok gen Q_connect (store w1) = Some (A_connection, store w1)"
    by (simp add: eval_query_def)
  then obtain w2 where d2: "D Q_connect w1 = (w2, Some A_connection)" "store w2 = store w1"
    by (rule reliable_answer [OF assms(1)])
  define rows where "rows = filter (\<lambda>row. get_field row ''username'' = Some v) (map snd t)"
  have row: "get_field (snd ?r) ''username'' = Some v" by (simp add: stored_def map_of_omap_assign assms(3))
  have "filter (filter_call (R_object [(''username'', v)])) xs
      = filter (\<lambda>row. get_field row ''username'' = Some v) xs" for xs
    using assms(4) by (intro filter_cong) (simp_all add: filter_call_1)
  then have "filter (filter_call (R_object [(''username'', v)])) (map snd (t @ [?r])) = rows @ [snd ?r]"
    using row assms(4) by (simp add: rows_def filter_call_1)
  then have "eval_query key_ok gen ?q (store w2) = Some (A_rows (rows @ [snd ?r]), store w2)"
    using eval_filter_1 [OF t1, of key_ok gen "''username''" v] by (simp only: d2(2))
  then obtain w3 where d3: "D ?q w2 = (w3, Some (A_rows (rows @ [snd ?r])))" "store w3 = store w2"
    by (rule reliable_answer [OF assms(1)])
  have "table_of (store w3) ''user'' = t @ [?r]" by (simp add: d2(2) d3(2) table_of_def t1)
  moreover have "rows \<noteq> [] \<longleftrightarrow> (\<exists>row \<in> set (map snd t). get_field row ''username'' = Some v)"
    by (auto simp: rows_def filter_empty_conv)
  ultimately show ?thesis
    by (auto simp: user_register_def Let_def assms(3) d1 d2(1) d3(1) answer_rows_def conflict_def success_def)
qed


text \<open>
  Property C37. A company cannot be updated under its own name: a request that repeats the
  name of the active company it updates is refused with status 409 and changes nothing.
\<close>

theorem company_update_own_name_refused:
  assumes "reliable key_ok gen D store"
    and "map_of (sv_tables (store w)) ''company'' = Some t"
    and "map_of t (R_str row_id) = Some row" and "row_id \<noteq> []"
    and "get_field row ''company_name'' = Some v" and "primitive v"
    and "get_field row ''status'' = Some (R_str ''Active'')"
    and "get_field b ''company_name'' = Some v"
  shows "\<exists>w' s. run_proc D (company_update row_id b) w = (w', Some (409, s)) \<and> store w' = store w"
proof -
  let ?q = "Company_getByCompanyName (Some v)"
  define rows where "rows = filter (filter_call (R_object [(''company_name'', v), (''status'', R_str ''Active'')])) (map snd t)"
  have "eval_query key_ok gen ?q (store w) = Some (A_rows rows, store w)"
    using eval_filter_2 [OF assms(2), of key_ok gen "''company_name''" v "''status''" "R_str ''Active''"]
    by (simp add: Company_getByCompanyName_def active_def rows_def)
  then obtain w1 where d1: "D ?q w = (w1, Some (A_rows rows))" "store w1 = store w"
    by (rule reliable_answer [OF assms(1)])
  have "row \<in> set rows"
    using map_of_SomeD [OF assms(3)] assms(5-7) by (force simp: rows_def filter_call_2)
  then have "js_includes (map (\<lambda>item. get_field item ''company_name'') rows) (Some v)"
    using assms(5,6) by (force simp: js_includes_iff)
  then show ?thesis
    using d1 assms(4) by (simp add: company_update_def Let_def assms(8) answer_rows_def conflict_def)
qed

text \<open>
  Property C38. The route for the employees of a company never answers: its handler asks for the
  company \<open>undefined\<close>, the query is rejected under every driver and the request is left open.
\<close>

theorem employees_of_company_never_answers:
  assumes "delivers key_ok gen D store"
  shows "\<exists>p w'. app (Get_employees_of company) = Some p \<and> run_proc D p w = (w', None) \<and> store w' = store w"
proof -
  let ?q = "Employee_getByCompany None"
  have none: "eval_query key_ok gen ?q sv = None" for sv
    by (auto simp: eval_query_def Employee_getByCompany_def pattern_def split: bind_splits)
  obtain w' r where d: "D ?q w = (w', r)" by fastforce
  have "r = None" using delivers_answer [OF assms, of ?q w w'] d none by (cases r) auto
  moreover have "store w' = store w" using delivers_effect [OF assms d] none by simp
  ultimately show ?thesis using d by (simp add: app_def employee_getByCompany_def)
qed

lemma filter_update_row:
  assumes "distinct (map fst t)" and "map_of t k = Some old" and "\<not> P new"
  shows "filter P (map snd (AList.update k new t)) = map snd (filter (\<lambda>(j, row). j \<noteq> k \<and> P row) t)"
  using assms
proof (induction t)
  case (Cons e t)
  obtain j row where e: "e = (j, row)" by (cases e)
  have "map snd (filter (\<lambda>(i, r). i \<noteq> k \<and> P r) t) = filter P (map snd t)" if "j = k"
    using Cons.prems(1) that by (induction t) (auto simp: e)
  then show ?case using Cons by (auto simp: e)
qed simp

text \<open>
  Property C39. Deleting a company hides it and keeps its record. With a driver that does not fail,
  the answer has status 200, the record has the status \<open>Inactive\<close> and is otherwise unchanged, and
  the list of companies afterwards has exactly the other active ones.
\<close>

theorem company_delete_hides:
  assumes "reliable key_ok gen D store"
    and "map_of (sv_tables (store w)) ''company'' = Some t" and "distinct (map fst t)"
    and "row_id \<noteq> []" and "key_ok (R_str row_id)"
    and "map_of t (R_str row_id) = Some (R_object ls)" and "map_of ls ''id'' = Some (R_str row_id)"
  shows "\<exists>w1 s w2 rows. run_proc D (company_delete row_id) w = (w1, Some (200, s))
    \<and> map_of (table_of (store w1) ''company'') =
        (map_of t)(R_str row_id \<mapsto> R_object (omap_assign ''status'' (R_str ''Inactive'') ls))
    \<and> run_proc D company_getAll w1 = (w2, Some (200, B_answer (A_rows rows)))
    \<and> rows = map snd (filter (\<lambda>(k, row). k \<noteq> R_str row_id
          \<and> get_field row ''status'' = Some (R_str ''Active'')) t)"
proof -
  let ?k = "R_str row_id" and ?new = "R_object (omap_assign ''status'' (R_str ''Inactive'') ls)"
  let ?P = "\<lambda>row. get_field row ''status'' = Some (R_str ''Active'')"
  have merge: "datum_merge (R_object ls) inactive_patch = Some ?new"
    by (simp add: datum_merge_def inactive_patch_def)
  have new: "get_field ?new ''id'' = Some ?k" "\<not> ?P ?new" by (simp_all add: map_of_omap_assign assms(7))
  obtain t' s where r: "rdb_replace ?k (update_row inactive_patch) t = (t', s)" by fastforce
  have u: "update_row inactive_patch (R_object ls) = Some ?new"
    using merge by (simp add: update_row_def inactive_patch_def)
  have c: "rcheck_row_replacement ?k (R_object ls) ?new"
    using new(1) assms(7) by (simp add: rcheck_row_replacement_def)
  have "fst (rdb_replace ?k (update_row inactive_patch) t) =
      (if R_object ls = ?new then t else AList.update ?k ?new t)"
    by (simp add: rdb_replace_def assms(6) u c make_row_replacement_stats_def Let_def)
  then have t': "t' = (if R_object ls = ?new then t else AList.update ?k ?new t)" using r by simp
  have same: "AList.update ?k ?new t = t" if "R_object ls = ?new"
    using assms(6) unfolding that by (metis AList.update_triv)
  then have t'': "t' = AList.update ?k ?new t" using t' by simp
  let ?st = "stats_merge new_stats_object s"
  have "eval_query key_ok gen (Company_delete row_id) (store w) =
      Some (A_stats ?st, store w\<lparr>sv_tables := AList.update ''company'' t' (sv_tables (store w))\<rparr>)"
    using r assms(2,5) by (simp add: Company_delete_def eval_query_def update_term_def)
  then obtain w1 where d1: "D (Company_delete row_id) w = (w1, Some (A_stats ?st))"
      and t1: "map_of (sv_tables (store w1)) ''company'' = Some t'"
    by (rule reliable_answer [OF assms(1)]) (simp add: AList.update_conv')
  have "filter (filter_call (R_object [(''status'', R_str ''Active'')])) (map snd t') = filter ?P (map snd t')"
    by (intro filter_cong) (simp_all add: filter_call_1)
  moreover have "filter ?P (map snd t') = map snd (filter (\<lambda>(k, row). k \<noteq> ?k \<and> ?P row) t)"
    unfolding t'' by (rule filter_update_row [where P = ?P, OF assms(3,6) new(2)])
  ultimately have "eval_query key_ok gen Company_getAll (store w1) =
      Some (A_rows (map snd (filter (\<lambda>(k, row). k \<noteq> ?k \<and> ?P row) t)), store w1)"
    using eval_filter_1 [OF t1, of key_ok gen "''status''" "R_str ''Active''"]
    by (simp add: Company_getAll_def active_def)
  then obtain w2 where d2: "D Company_getAll w1 =
      (w2, Some (A_rows (map snd (filter (\<lambda>(k, row). k \<noteq> ?k \<and> ?P row) t))))"
    by (rule reliable_answer [OF assms(1)])
  have "map_of (table_of (store w1) ''company'') = (map_of t)(?k \<mapsto> ?new)"
    by (simp add: table_of_def t1 t'' AList.update_conv')
  then show ?thesis
    using d1 d2 assms(4) by (simp add: company_delete_def company_getAll_def success_def)
qed

section \<open>Witnesses\<close>

definition sample_gen :: "nat \<Rightarrow> string" where
  "sample_gen n = replicate (Suc n) (CHR ''k'')"

definition acme_fields :: fields where
  "acme_fields = [(''company_name'', R_str ''Acme''), (''id'', R_str ''c1''), (''status'', R_str ''Active'')]"

definition bolt_fields :: fields where
  "bolt_fields = [(''company_name'', R_str ''Bolt''), (''status'', R_str ''Active'')]"

definition ann :: "string \<Rightarrow> string \<Rightarrow> string \<Rightarrow> datum \<times> datum" where
  "ann row_id job company = (R_str row_id, R_object [(''company_name'', R_str company),
     (''employee_name'', R_str ''Ann''), (''employee_position'', R_str job), (''id'', R_str row_id),
     (''status'', R_str ''Active'')])"

definition bob_fields :: fields where
  "bob_fields = [(''password'', R_str ''pw''), (''username'', R_str ''bob'')]"

definition cook_fields :: fields where
  "cook_fields = [(''role'', R_str ''Cook'')]"

definition sample_server :: rdb_server where
  "sample_server = \<lparr>sv_tables =
     [(''company'', [(R_str ''c1'', R_object acme_fields)]),
      (''employee'', [ann ''e1'' ''Cook'' ''Acme'', ann ''e2'' ''Clerk'' ''Bolt'']),
      (''user'', [(R_str ''u1'', R_object (omap_assign ''id'' (R_str ''u1'') bob_fields))]),
      (''positions'', [(R_str ''p1'', R_object (omap_assign ''id'' (R_str ''p1'') cook_fields))])],
     sv_generated = 0\<rparr>"

abbreviation sample_driver :: "rdb_server driver" where
  "sample_driver \<equiv> direct_driver (\<lambda>_. True) sample_gen"

lemmas sample_defs = sample_gen_def acme_fields_def bolt_fields_def ann_def bob_fields_def cook_fields_def
  sample_server_def

lemma sample_delivers: "delivers (\<lambda>_. True) sample_gen sample_driver (\<lambda>sv. sv)"
  using direct_driver_reliable by (simp add: reliable_def)

lemma sample_unique: "company_unique (table_of sample_server ''company'')"
  by (auto simp: company_unique_def active_named_def table_of_def sample_defs split: if_splits)

theorem company_names_stay_unique_witness:
  "delivers (\<lambda>_. True) sample_gen sample_driver (\<lambda>sv. sv)
   \<and> company_unique (table_of sample_server ''company'')
   \<and> company_unique (table_of (serve sample_driver
        [Post_company (R_object bolt_fields), Put_company ''c1'' (R_object bolt_fields),
         Delete_company ''c1''] sample_server) ''company'')"
  using company_names_stay_unique [OF sample_delivers sample_unique,
      of "[Post_company (R_object bolt_fields), Put_company ''c1'' (R_object bolt_fields), Delete_company ''c1'']"]
    sample_delivers sample_unique
  by (simp add: bolt_fields_def is_literal_def)

theorem concurrent_creates_duplicate_witness:
  "\<exists>w' a b.
    run_schedule sample_driver [0, 1, 0, 1]
      [Some (company_create (R_object bolt_fields)), Some (company_create (R_object bolt_fields))] sample_server
      = (w', [Some (success ''company'' a), Some (success ''company'' b)])
    \<and> \<not> company_unique (table_of w' ''company'')"
proof -
  have "active_named (R_str ''Bolt'') [(R_str ''c1'', R_object acme_fields)] = {}"
    by (auto simp: active_named_def sample_defs split: if_splits)
  then show ?thesis
    by (intro concurrent_creates_duplicate [OF direct_driver_reliable, where t = "[(R_str ''c1'', R_object acme_fields)]"
          and v = "R_str ''Bolt''"])
      (simp_all add: sample_defs new_key_def)
qed

theorem employee_create_conflict_witness:
  "\<exists>w' s. run_proc sample_driver (employee_create (snd (ann ''e3'' ''Cook'' ''Bolt''))) sample_server = (w', Some s)
    \<and> fst s = 409"
  using employee_create_conflict [OF direct_driver_reliable, where w = sample_server
      and t = "[ann ''e1'' ''Cook'' ''Acme'', ann ''e2'' ''Clerk'' ''Bolt'']"
      and b = "snd (ann ''e3'' ''Cook'' ''Bolt'')" and n = "R_str ''Ann''"
      and key_ok = "\<lambda>_. True" and gen = sample_gen]
  by (simp add: sample_defs same_value_zero_def)

theorem register_stores_before_check_witness:
  "\<exists>w' s. run_proc sample_driver (user_register (R_object bob_fields)) sample_server = (w', Some s)
    \<and> table_of w' ''user'' = [(R_str ''u1'', R_object (omap_assign ''id'' (R_str ''u1'') bob_fields)),
        stored sample_gen 0 bob_fields] \<and> fst s = 409"
  using register_stores_before_check [OF direct_driver_reliable, where w = sample_server
      and t = "[(R_str ''u1'', R_object (omap_assign ''id'' (R_str ''u1'') bob_fields))]"
      and fs = bob_fields and v = "R_str ''bob''" and key_ok = "\<lambda>_. True" and gen = sample_gen]
  by (simp add: sample_defs new_key_def map_of_omap_assign)


theorem company_update_own_name_refused_witness:
  "\<exists>w' s. run_proc sample_driver (company_update ''c1'' (R_object acme_fields)) sample_server
      = (w', Some (409, s)) \<and> w' = sample_server"
  by (rule company_update_own_name_refused [OF direct_driver_reliable,
        where t = "[(R_str ''c1'', R_object acme_fields)]" and row = "R_object acme_fields"
        and v = "R_str ''Acme''"])
    (simp_all add: sample_defs)

theorem employees_of_company_never_answers_witness:
  "\<exists>p w'. app (Get_employees_of ''Acme'') = Some p \<and> run_proc sample_driver p sample_server = (w', None)
    \<and> w' = sample_server"
  by (rule employees_of_company_never_answers [OF sample_delivers])

theorem company_delete_hides_witness:
  "\<exists>w1 s w2. run_proc sample_driver (company_delete ''c1'') sample_server = (w1, Some (200, s))
    \<and> run_proc sample_driver company_getAll w1 = (w2, Some (200, B_answer (A_rows [])))"
  using company_delete_hides [OF direct_driver_reliable, where w = sample_server
      and t = "[(R_str ''c1'', R_object acme_fields)]" and row_id = "''c1''" and ls = acme_fields
      and key_ok = "\<lambda>_. True" and gen = sample_gen]
  by (auto simp: sample_defs)

end
