(* ===== verification/Spec2Isabelle.thy ===== *)
theory Spec2Isabelle
  imports Rdb_Prelude Archive Keys Regions Range_Map Range_Update Region_Map
    Cluster_Types Quorums Contracts Contract_Progress Region_Visit
    Branch_History History_Closure Ancestry Version_Order
    Raft_Types Table_State Coordinator Emergency_Repair
    Raft_Storage Raft_Member Raft_Cluster Raft_Invariants
    Documents Backend_App
begin

text \<open>
  A verification library for a REST backend and for the database server it ships with.

  \<^bold>\<open>The program.\<close> The repository holds a small Express application (\<open>server.js\<close>, \<open>router\<close>,
  \<open>controller\<close>, \<open>model\<close>) that keeps companies, employees, positions and users in RethinkDB, and
  the sources of RethinkDB 2.4.1 (\<open>rethinkdb-2.4.1/src\<close>). A handler of the application awaits
  queries; the server performs them as operations on documents and rows. A table is cut into shards,
  and a shard's rows live on replicas. For each table the servers run a Raft cluster whose state
  holds the user's configuration and one contract per region: which servers hold data, which vote,
  who is primary. The coordinator, on the Raft leader, compares the configuration with what the
  replicas report and proposes new contracts; branch histories record which version of the data
  descends from which, so that an election never loses acknowledged writes. Regions, range maps and
  region maps are the data structures all of this is written in, and the archive formats carry them.

  \<^bold>\<open>Conventions.\<close> C++ machine words are words of the same width; \<open>std::map\<close> is a list in
  strict key order, \<open>std::set\<close> a set that is iterated in order. A failing \<open>guarantee\<close>, an escaping
  \<open>std::out_of_range\<close> and a dereferenced end iterator are \<open>None\<close>, and theorems say when it cannot
  happen; \<open>rassert\<close> is compiled out and is a hypothesis where the code relies on it. C++ exceptions
  that callers handle are values. Randomness, the clock, the network and the driver packages of the
  application are arguments; what is assumed of them is a hypothesis with a witness.

  \<^bold>\<open>The application\<close>
  \<^item> \<open>Documents\<close>: datums, \<open>filter_match\<close> (\<open>func.cc\<close>), \<open>merge\<close> (\<open>datum.cc\<close>), row replacement
    (\<open>btree.cc\<close>, \<open>table_common.cc\<close>), insertion and update (\<open>terms/writes.cc\<close>, \<open>terms/rewrites.cc\<close>).
    Lemmas: which documents a pattern selects, what a merge does to each field, what a row
    operation does to the table.
  \<^item> \<open>Backend_App\<close>: every controller as a process of awaited queries and a response; serving
    requests one after the other (\<open>serve\<close>) and interleaved (\<open>run_schedule\<close>). Company names stay
    unique under sequential service and not under overlapping requests; what creating, registering,
    updating and deleting answer and store, with the defects of the code as theorems.

  \<^bold>\<open>Data structures of the server\<close>
  \<^item> \<open>Rdb_Prelude\<close>: machine types, folds that may abort, ordered maps and their laws.
  \<^item> \<open>Archive\<close>: \<open>containers/archive\<close>: messages, streams that deliver bytes in chunks, varints.
    Codecs are the locales \<open>wire_codec\<close> and \<open>codec_pair\<close>; formats of compound data are proved in them.
  \<^item> \<open>Keys\<close>: \<open>btree/keys\<close>: keys, neighbours, ranges, their metainfo format.
  \<^item> \<open>Regions\<close>: \<open>region/*\<close>: regions as sets of points; intersection, join and subtraction are
    right for both kinds of region. Interfaces: \<open>region_space\<close>, \<open>region_difference\<close>, \<open>region_joiner\<close>.
  \<^item> \<open>Range_Map\<close>, \<open>Range_Update\<close>: \<open>containers/range_map.hpp\<close>: a range map refines a partial function
    on its edges, and \<open>update\<close>, \<open>visit\<close>, \<open>mask\<close>, \<open>extend\<close> implement the operations on functions.
  \<^item> \<open>Region_Map\<close>, \<open>Region_Visit\<close>: \<open>region/region_map.hpp\<close>: the same for functions of key and hash.
    Joining regions is exact for up to \<open>2 ^ 14\<close> fragments: the cells of the join are counted
    in machine words, and this bound excludes overflow.

  \<^bold>\<open>Versions and histories\<close>
  \<^item> \<open>Branch_History\<close>, \<open>History_Closure\<close>: \<open>immediate_consistency/history.cc\<close> and
    \<open>table_contract/branch_history_gc.cc\<close>: birth certificates, export, copying, garbage
    collection. The worklist loops of export and copying are functions with a termination proof for
    every history: each branch is entered once.
  \<^item> \<open>Ancestry\<close>, \<open>Version_Order\<close>: the order of versions as the code documents it, and
    \<open>version_is_ancestor\<close> and \<open>version_find_common\<close> against it, for acyclic histories. Their
    loops need not end on a cyclic history: they are partial functions in the option monad, without
    fuel, and the theorems prove that they return.

  \<^bold>\<open>Tables\<close>
  \<^item> \<open>Cluster_Types\<close>: server identifiers, timestamps, versions, shard schemes, CPU shards.
  \<^item> \<open>Quorums\<close>: the interface \<open>quorum_system\<close> and majorities as its instance.
  \<^item> \<open>Contracts\<close>, \<open>Contract_Progress\<close>: \<open>calculate_contract\<close> of \<open>calculate_contracts.cc\<close>, one
    definition per phase: it never aborts and keeps contracts well-formed, elects only primaries with
    all acknowledged writes, changes voters in two steps, and in a healthy cluster reaches the
    configured contract within a bounded number of rounds and stays there.
  \<^item> \<open>Raft_Types\<close>: \<open>generic/raft_core.hpp\<close>: configurations, quorums, the log.
  \<^item> \<open>Raft_Storage\<close>: \<open>persist/raft_storage_interface.cc\<close>: the member's state in the metadata file, one
    record per log entry under the text of its index. The file follows the state through every
    operation, so that nothing is lost at a restart; the bound \<open>2 ^ 31\<close> on log indexes is where the
    code that reads the keys is right, \<open>max_index\<close> is where a 64-bit index does not overflow.
  \<^item> \<open>Raft_Member\<close>: \<open>generic/raft_core.tcc\<close>: a member's state and every section of code that runs
    under its mutex: the handlers of the three requests, elections, the leader's bookkeeping,
    proposals and reconfiguration. Timers and arriving messages are inputs.
  \<^item> \<open>Raft_Cluster\<close>: runs of many members, with messages of any content, lost, delayed or repeated,
    and restarts: a member keeps to its votes, and a term has one leader.
  \<^item> \<open>Raft_Invariants\<close>: the checks of \<open>check_invariants()\<close> on indexes and roles hold after every
    step of a member, and its storage follows the interface of \<open>Raft_Storage\<close>. Logs end below
    \<open>max_index\<close>, and snapshots agree with what the receiver has committed.
  \<^item> \<open>Table_State\<close>: \<open>contract_metadata.cc\<close>, \<open>table_metadata.cc\<close>, \<open>check_ready.cc\<close>: the Raft state
    of a table, its changes, its sanity check, readiness.
  \<^item> \<open>Coordinator\<close>: \<open>calculate_all_contracts\<close>, \<open>calculate_misc.cc\<close> and what one round of the
    pumps of \<open>coordinator.cc\<close> proposes. A change of the contracts keeps the state sane, and member
    identifiers cover the Raft configuration before and after a reconfiguration.
  \<^item> \<open>Emergency_Repair\<close>: \<open>emergency_repair.cc\<close>: a repair ends in a sane state in which every
    contract has a living quorum. Identifiers it draws are distinct as far as they are used
    (\<open>inj_on\<close> on an initial segment, since there are only \<open>2 ^ 128\<close> of them).

  \<^bold>\<open>Not modelled.\<close> The evaluation of query terms and changefeeds, B-trees, buffer cache and
  serializer, connections and mailboxes, the contract executor with backfilling and query
  routing, the table manager and the administration tables, the coroutine runtime, process start,
  HTTP and external processes: they are I/O and scheduling around the modelled operations, or
  independent of them, and their effects enter as arguments. Code under a mutex is one step. Of the
  application, Express's matching of paths and the driver packages are outside the sources.
  Printing, log messages and error texts are left out everywhere.
\<close>

end
